theory Spec2Isabelle
  imports Complex_Main
begin

section \<open>Common types\<close>

text \<open>
  The model follows the release build: \<^verbatim>\<open>EBM_ASSERT\<close> and the logging macros expand to
  nothing. A result of type \<open>'a option\<close> is \<open>None\<close> where the C++ leaves defined
  behaviour (a read or write outside a buffer, a do-while loop that never meets its end
  pointer); every source-level return is a \<open>Some\<close>.
\<close>

datatype ErrorEbm = Error_None | Error_OutOfMemory | Error_IllegalParamValue

text \<open>\<^verbatim>\<open>size_t\<close> of a 64-bit build: sizes are natural numbers, and the overflow tests of the
  source compare against \<open>size_max\<close>.\<close>

definition size_max :: nat where
  "size_max = 2 ^ 64 - 1"

definition IsMultiplyError :: "nat \<Rightarrow> nat \<Rightarrow> bool" where
  "IsMultiplyError a b = (size_max < a * b)"

definition IsAddError :: "nat \<Rightarrow> nat \<Rightarrow> bool" where
  "IsAddError a b = (size_max < a + b)"

text \<open>Unchecked \<^verbatim>\<open>size_t\<close> arithmetic wraps.\<close>

definition wrap_size :: "nat \<Rightarrow> nat" where
  "wrap_size n = n mod (size_max + 1)"

subsection \<open>Floating point values\<close>

text \<open>
  A value of the float type is a finite number, an infinity or NaN. Finite values are
  reals; the rounding of an exact result to a representable number is the parameter
  \<open>rnd\<close> of every arithmetic operation, about which nothing is assumed. Signed zeros
  are not distinguished.
\<close>

datatype float_t = Finite real | PosInf | NegInf | NaN

type_synonym FloatScore = float_t
type_synonym FloatEbmType = float_t

definition flt_max :: real where
  "flt_max = (2 ^ 53 - 1) * 2 ^ 971"

definition numeric_limits_max :: float_t where
  "numeric_limits_max = Finite flt_max"

definition numeric_limits_lowest :: float_t where
  "numeric_limits_lowest = Finite (- flt_max)"

fun isnan :: "float_t \<Rightarrow> bool" where
  "isnan NaN = True"
| "isnan _ = False"

fun isinf :: "float_t \<Rightarrow> bool" where
  "isinf PosInf = True"
| "isinf NegInf = True"
| "isinf _ = False"

text \<open>The comparisons \<^verbatim>\<open><=\<close> and \<^verbatim>\<open><\<close>: false whenever an operand is NaN.\<close>

fun fl_le :: "float_t \<Rightarrow> float_t \<Rightarrow> bool" where
  "fl_le NaN _ = False"
| "fl_le _ NaN = False"
| "fl_le NegInf _ = True"
| "fl_le _ PosInf = True"
| "fl_le (Finite x) (Finite y) = (x \<le> y)"
| "fl_le _ _ = False"

fun fl_lt :: "float_t \<Rightarrow> float_t \<Rightarrow> bool" where
  "fl_lt NaN _ = False"
| "fl_lt _ NaN = False"
| "fl_lt PosInf _ = False"
| "fl_lt _ NegInf = False"
| "fl_lt NegInf _ = True"
| "fl_lt _ PosInf = True"
| "fl_lt (Finite x) (Finite y) = (x < y)"

text \<open>An exact real result is rounded, and overflows to an infinity beyond the finite range.\<close>

definition fl_of_real :: "(real \<Rightarrow> real) \<Rightarrow> real \<Rightarrow> float_t" where
  "fl_of_real rnd x =
     (let r = rnd x in
      if flt_max < r then PosInf else if r < - flt_max then NegInf else Finite r)"

fun fl_add :: "(real \<Rightarrow> real) \<Rightarrow> float_t \<Rightarrow> float_t \<Rightarrow> float_t" where
  "fl_add rnd NaN _ = NaN"
| "fl_add rnd _ NaN = NaN"
| "fl_add rnd PosInf NegInf = NaN"
| "fl_add rnd NegInf PosInf = NaN"
| "fl_add rnd PosInf _ = PosInf"
| "fl_add rnd NegInf _ = NegInf"
| "fl_add rnd _ PosInf = PosInf"
| "fl_add rnd _ NegInf = NegInf"
| "fl_add rnd (Finite x) (Finite y) = fl_of_real rnd (x + y)"

fun fl_mul :: "(real \<Rightarrow> real) \<Rightarrow> float_t \<Rightarrow> float_t \<Rightarrow> float_t" where
  "fl_mul rnd NaN _ = NaN"
| "fl_mul rnd _ NaN = NaN"
| "fl_mul rnd (Finite x) (Finite y) = fl_of_real rnd (x * y)"
| "fl_mul rnd (Finite x) PosInf = (if x = 0 then NaN else if 0 < x then PosInf else NegInf)"
| "fl_mul rnd (Finite x) NegInf = (if x = 0 then NaN else if 0 < x then NegInf else PosInf)"
| "fl_mul rnd PosInf (Finite y) = (if y = 0 then NaN else if 0 < y then PosInf else NegInf)"
| "fl_mul rnd NegInf (Finite y) = (if y = 0 then NaN else if 0 < y then NegInf else PosInf)"
| "fl_mul rnd PosInf PosInf = PosInf"
| "fl_mul rnd NegInf NegInf = PosInf"
| "fl_mul rnd PosInf NegInf = NegInf"
| "fl_mul rnd NegInf PosInf = NegInf"

text \<open>Division; a zero divisor counts as \<open>+0\<close>.\<close>

fun fl_div :: "(real \<Rightarrow> real) \<Rightarrow> float_t \<Rightarrow> float_t \<Rightarrow> float_t" where
  "fl_div rnd NaN _ = NaN"
| "fl_div rnd _ NaN = NaN"
| "fl_div rnd (Finite x) (Finite y) =
     (if y = 0 then (if x = 0 then NaN else if 0 < x then PosInf else NegInf)
      else fl_of_real rnd (x / y))"
| "fl_div rnd (Finite x) _ = Finite 0"
| "fl_div rnd PosInf (Finite y) = (if 0 \<le> y then PosInf else NegInf)"
| "fl_div rnd NegInf (Finite y) = (if 0 \<le> y then NegInf else PosInf)"
| "fl_div rnd _ _ = NaN"

section \<open>Interaction strength (CalculateInteractionScore.cpp)\<close>

text \<open>Modelled from the spec: the illegal-gain sentinel \<^verbatim>\<open>k_illegalGainDouble\<close>, whose
  declaration is not part of the sources: a large finite negative value, the lowest finite
  value of the float type.\<close>

definition k_illegalGainDouble :: float_t where
  "k_illegalGainDouble = numeric_limits_lowest"

text \<open>Modelled from the spec: \<^verbatim>\<open>k_cDimensionsMax\<close>, declared outside the sources; the
  spec gives it as about 64.\<close>

definition k_cDimensionsMax :: nat where
  "k_cDimensionsMax = 64"

text \<open>
  What the scorer reads from the interaction core: the learning type or class count, the
  bin count of every feature, the sample count and the total weight of the data set.
\<close>

record InteractionCore =
  m_runtimeLearningTypeOrCountTargetClasses :: int
  m_aFeatures :: "nat list"
  m_cSamples :: nat
  m_weightTotal :: FloatEbmType

text \<open>
  The collaborators declared outside the two source files enter as parameters: the bucket
  layout helpers, the shell's buffer (whether a request of so many bytes is served) and
  the partitioner, which returns the raw gain for a feature group (given by the bin counts
  of its features), the options and the minimum sample count.
\<close>

record Collaborators =
  IsClassification :: "int \<Rightarrow> bool"
  GetVectorLength :: "int \<Rightarrow> nat"
  GetHistogramBucketSizeOverflow :: "bool \<Rightarrow> nat \<Rightarrow> bool"
  GetHistogramBucketSize :: "bool \<Rightarrow> nat \<Rightarrow> nat"
  GetHistogramBucketBase :: "nat \<Rightarrow> bool"
  PartitionTwoDimensionalInteraction :: "nat list \<Rightarrow> int \<Rightarrow> nat \<Rightarrow> FloatEbmType"

text \<open>The feature group built on the stack: the bin count of each entry's feature.\<close>

record FeatureGroup =
  m_cDimensions_FeatureGroup :: nat
  m_cSignificantDimensions :: nat
  m_FeatureGroupEntry :: "nat list"

text \<open>An optional output cell: \<open>None\<close> is the null pointer, \<open>Some v\<close> a cell holding \<open>v\<close>.
  Every store of the source is guarded by a null test.\<close>

definition store_out :: "float_t option \<Rightarrow> float_t \<Rightarrow> float_t option" where
  "store_out p v = (case p of None \<Rightarrow> None | Some _ \<Rightarrow> Some v)"

subsection \<open>Sizing the histogram arena\<close>

text \<open>The do-while loop over the feature group entries (lines 80 to 105). The running
  sum \<open>cAuxillaryBucketsForBuildFastTotals\<close> is added without a test and wraps.\<close>

fun arena_loop :: "nat \<Rightarrow> nat \<Rightarrow> nat list \<Rightarrow> (ErrorEbm + nat \<times> nat) option" where
  "arena_loop cAuxillaryBucketsForBuildFastTotals cTotalBucketsMainSpace [] = None"
| "arena_loop cAuxillaryBucketsForBuildFastTotals cTotalBucketsMainSpace (cBins # rest) =
     (let cAux = wrap_size (cAuxillaryBucketsForBuildFastTotals + cTotalBucketsMainSpace) in
      if IsMultiplyError cTotalBucketsMainSpace cBins then Some (Inl Error_OutOfMemory)
      else
        let cMain = cTotalBucketsMainSpace * cBins in
        if rest = [] then Some (Inr (cAux, cMain)) else arena_loop cAux cMain rest)"

text \<open>Lines 76 to 130: the result is the bytes per bucket, the total bucket count, the
  main bucket count and the bytes of the buffer.\<close>

definition arena_size ::
  "Collaborators \<Rightarrow> InteractionCore \<Rightarrow> FeatureGroup \<Rightarrow> (ErrorEbm + nat \<times> nat \<times> nat \<times> nat) option"
where
  "arena_size ext pInteractionCore pFeatureGroup =
     (let runtimeLearningTypeOrCountTargetClasses =
            m_runtimeLearningTypeOrCountTargetClasses pInteractionCore;
          bClassification = IsClassification ext runtimeLearningTypeOrCountTargetClasses
      in
      case arena_loop 0 1 (take (m_cDimensions_FeatureGroup pFeatureGroup) (m_FeatureGroupEntry pFeatureGroup)) of
        None \<Rightarrow> None
      | Some (Inl e) \<Rightarrow> Some (Inl e)
      | Some (Inr (cAuxillaryBucketsForBuildFastTotals, cTotalBucketsMainSpace)) \<Rightarrow>
          let cAuxillaryBucketsForSplitting = 4;
              cAuxillaryBuckets =
                (if cAuxillaryBucketsForBuildFastTotals < cAuxillaryBucketsForSplitting
                 then cAuxillaryBucketsForSplitting else cAuxillaryBucketsForBuildFastTotals)
          in
          if IsAddError cTotalBucketsMainSpace cAuxillaryBuckets then Some (Inl Error_OutOfMemory)
          else
            let cTotalBuckets = cTotalBucketsMainSpace + cAuxillaryBuckets;
                cVectorLength = GetVectorLength ext runtimeLearningTypeOrCountTargetClasses
            in
            if GetHistogramBucketSizeOverflow ext bClassification cVectorLength
            then Some (Inl Error_OutOfMemory)
            else
              let cBytesPerHistogramBucket = GetHistogramBucketSize ext bClassification cVectorLength in
              if IsMultiplyError cBytesPerHistogramBucket cTotalBuckets then Some (Inl Error_OutOfMemory)
              else
                Some (Inr (cBytesPerHistogramBucket, cTotalBuckets, cTotalBucketsMainSpace,
                           cBytesPerHistogramBucket * cTotalBuckets)))"

subsection \<open>CalcInteractionStrengthInternal\<close>

text \<open>Lines 217 to 239: the value stored for a normalised gain.\<close>

definition classify_gain :: "FloatEbmType \<Rightarrow> float_t" where
  "classify_gain bestGain =
     (let bestGainOut = bestGain in
      if \<not> fl_le bestGain numeric_limits_max then k_illegalGainDouble
      else if fl_lt bestGain (Finite 0) then
        (if fl_le numeric_limits_lowest bestGain then Finite 0 else k_illegalGainDouble)
      else bestGainOut)"

definition CalcInteractionStrengthInternal ::
  "(real \<Rightarrow> real) \<Rightarrow> Collaborators \<Rightarrow> InteractionCore \<Rightarrow> FeatureGroup \<Rightarrow> int \<Rightarrow> nat \<Rightarrow>
   float_t option \<Rightarrow> (ErrorEbm \<times> float_t option) option"
where
  "CalcInteractionStrengthInternal rnd ext pInteractionCore pFeatureGroup options
       cSamplesRequiredForChildSplitMin pInteractionStrengthAvgOut =
     (case arena_size ext pInteractionCore pFeatureGroup of
        None \<Rightarrow> None
      | Some (Inl e) \<Rightarrow> Some (e, pInteractionStrengthAvgOut)
      | Some (Inr (cBytesPerHistogramBucket, cTotalBuckets, cTotalBucketsMainSpace, cBytesBuffer)) \<Rightarrow>
          if \<not> GetHistogramBucketBase ext cBytesBuffer
          then Some (Error_OutOfMemory, pInteractionStrengthAvgOut)
          else if 2 = m_cSignificantDimensions pFeatureGroup then
            (let bestGain = PartitionTwoDimensionalInteraction ext
                   (take (m_cDimensions_FeatureGroup pFeatureGroup) (m_FeatureGroupEntry pFeatureGroup))
                   options cSamplesRequiredForChildSplitMin
             in
             case pInteractionStrengthAvgOut of
               None \<Rightarrow> Some (Error_None, None)
             | Some _ \<Rightarrow>
                 let totalWeight = m_weightTotal pInteractionCore;
                     bestGain = fl_div rnd bestGain totalWeight
                 in Some (Error_None, Some (classify_gain bestGain)))
          else Some (Error_None, store_out pInteractionStrengthAvgOut k_illegalGainDouble))"

subsection \<open>CalcInteractionStrength\<close>

text \<open>The do-while loop over the feature indexes (lines 360 to 384). \<open>n\<close> counts the
  entries up to \<^verbatim>\<open>pFeatureIndexesEnd\<close>; the result is an early return, or the entries of the
  feature group.\<close>

fun feature_loop ::
  "InteractionCore \<Rightarrow> int list \<Rightarrow> nat \<Rightarrow> nat \<Rightarrow> float_t option \<Rightarrow> nat list \<Rightarrow>
   ((ErrorEbm \<times> float_t option) + nat list) option"
where
  "feature_loop pInteractionCore featureIndexes i 0 avgInteractionStrengthOut entries = None"
| "feature_loop pInteractionCore featureIndexes i (Suc n) avgInteractionStrengthOut entries =
     (if length featureIndexes \<le> i then None
      else
        let indexFeatureInterop = featureIndexes ! i in
        if indexFeatureInterop < 0 then Some (Inl (Error_IllegalParamValue, avgInteractionStrengthOut))
        else if int (length (m_aFeatures pInteractionCore)) \<le> indexFeatureInterop
        then Some (Inl (Error_IllegalParamValue, avgInteractionStrengthOut))
        else
          let iFeature = nat indexFeatureInterop;
              cBins = m_aFeatures pInteractionCore ! iFeature
          in
          if cBins \<le> 1
          then Some (Inl (Error_None, store_out avgInteractionStrengthOut (Finite 0)))
          else if n = 0 then Some (Inr (entries @ [cBins]))
          else feature_loop pInteractionCore featureIndexes (i + 1) n avgInteractionStrengthOut
                 (entries @ [cBins]))"

text \<open>
  The entry point. \<open>interactionHandle\<close> is what \<^verbatim>\<open>GetInteractionShellFromHandle\<close> finds
  (\<open>None\<close>: the null pointer), \<open>featureIndexes\<close> the index array (\<open>None\<close>: null), and
  \<open>avgInteractionStrengthOut\<close> the output cell.
\<close>

definition CalcInteractionStrength ::
  "(real \<Rightarrow> real) \<Rightarrow> Collaborators \<Rightarrow> InteractionCore option \<Rightarrow> int \<Rightarrow> int list option \<Rightarrow> int \<Rightarrow> int \<Rightarrow>
   float_t option \<Rightarrow> (ErrorEbm \<times> float_t option) option"
where
  "CalcInteractionStrength rnd ext interactionHandle countDimensions featureIndexes options
       countSamplesRequiredForChildSplitMin avgInteractionStrengthOut0 =
     (let avgInteractionStrengthOut = store_out avgInteractionStrengthOut0 k_illegalGainDouble in
      case interactionHandle of
        None \<Rightarrow> Some (Error_IllegalParamValue, avgInteractionStrengthOut)
      | Some pInteractionCore \<Rightarrow>
          let cSamplesRequiredForChildSplitMin =
                (if 1 \<le> countSamplesRequiredForChildSplitMin
                 then (if int size_max < countSamplesRequiredForChildSplitMin then size_max
                       else nat countSamplesRequiredForChildSplitMin)
                 else 1)
          in
          if countDimensions \<le> 0 then
            (if 0 = countDimensions
             then Some (Error_None, store_out avgInteractionStrengthOut (Finite 0))
             else Some (Error_IllegalParamValue, avgInteractionStrengthOut))
          else
            case featureIndexes of
              None \<Rightarrow> Some (Error_IllegalParamValue, avgInteractionStrengthOut)
            | Some aFeatureIndexes \<Rightarrow>
                if int k_cDimensionsMax < countDimensions
                then Some (Error_OutOfMemory, avgInteractionStrengthOut)
                else
                  let cDimensions = nat countDimensions in
                  case feature_loop pInteractionCore aFeatureIndexes 0 cDimensions
                         avgInteractionStrengthOut [] of
                    None \<Rightarrow> None
                  | Some (Inl r) \<Rightarrow> Some r
                  | Some (Inr entries) \<Rightarrow>
                      let featureGroup = \<lparr> m_cDimensions_FeatureGroup = cDimensions,
                                           m_cSignificantDimensions = cDimensions,
                                           m_FeatureGroupEntry = entries \<rparr>
                      in
                      if 0 = m_cSamples pInteractionCore
                      then Some (Error_None, store_out avgInteractionStrengthOut (Finite 0))
                      else if 1 = m_runtimeLearningTypeOrCountTargetClasses pInteractionCore
                      then Some (Error_None, store_out avgInteractionStrengthOut (Finite 0))
                      else
                        CalcInteractionStrengthInternal rnd ext pInteractionCore featureGroup options
                          cSamplesRequiredForChildSplitMin avgInteractionStrengthOut)"

subsection \<open>The arena sizes as the specification words them\<close>

text \<open>The main zone holds the product of the bin counts; the totals builder needs the
  sum of the prefix products (the empty prefix included, the full product excluded).\<close>

definition spec_main_buckets :: "nat list \<Rightarrow> nat" where
  "spec_main_buckets bins = prod_list bins"

definition spec_aux_for_totals :: "nat list \<Rightarrow> nat" where
  "spec_aux_for_totals bins = (\<Sum>k<length bins. prod_list (take k bins))"

text \<open>A float that arithmetic can produce: a finite value lies within the finite range.\<close>

definition fl_valid :: "float_t \<Rightarrow> bool" where
  "fl_valid x = (case x of Finite r \<Rightarrow> - flt_max \<le> r \<and> r \<le> flt_max | _ \<Rightarrow> True)"

text \<open>The values the output cell may hold on return.\<close>

definition legal_output :: "float_t \<Rightarrow> bool" where
  "legal_output w =
     (w = Finite 0 \<or> (\<exists>x. 0 \<le> x \<and> x \<le> flt_max \<and> w = Finite x) \<or> w = k_illegalGainDouble)"

subsection \<open>Example data\<close>

definition example_collaborators :: Collaborators where
  "example_collaborators = \<lparr> IsClassification = (\<lambda>c. 0 \<le> c), GetVectorLength = (\<lambda>c. 1),
      GetHistogramBucketSizeOverflow = (\<lambda>b n. False), GetHistogramBucketSize = (\<lambda>b n. 32),
      GetHistogramBucketBase = (\<lambda>n. True),
      PartitionTwoDimensionalInteraction = (\<lambda>bins opt n. Finite 12) \<rparr>"

text \<open>A regression core with four features of 1, 5, 3 and 4 bins and six samples of
  weight one.\<close>

definition example_core :: InteractionCore where
  "example_core = \<lparr> m_runtimeLearningTypeOrCountTargetClasses = -1, m_aFeatures = [1, 5, 3, 4],
      m_cSamples = 6, m_weightTotal = Finite 6 \<rparr>"

definition example_group :: FeatureGroup where
  "example_group = \<lparr> m_cDimensions_FeatureGroup = 2, m_cSignificantDimensions = 2, m_FeatureGroupEntry = [5, 3] \<rparr>"

text \<open>Three features of \<open>2 ^ 22\<close> bins each: the product of the bin counts is \<open>2 ^ 66\<close>.\<close>

definition wide_core :: InteractionCore where
  "wide_core = \<lparr> m_runtimeLearningTypeOrCountTargetClasses = -1,
      m_aFeatures = [4194304, 4194304, 4194304], m_cSamples = 6, m_weightTotal = Finite 6 \<rparr>"

section \<open>The score tensor (Tensor.cpp)\<close>

subsection \<open>Data\<close>

text \<open>
  A split is a bin index of the unsigned type \<^verbatim>\<open>UIntSplit\<close>, a natural number here. A
  buffer is the list of its cells, as long as the allocation; a pointer into a buffer is an
  index. The sizes of the two element types are declared outside the sources and taken as
  eight bytes; the proofs use only that they are positive.
\<close>

definition sizeof_UIntSplit :: nat where
  "sizeof_UIntSplit = 8"

definition sizeof_FloatScore :: nat where
  "sizeof_FloatScore = 8"

record DimensionInfo =
  m_cSlices :: nat
  m_cSliceCapacity :: nat
  m_aSplits :: "nat list"

record 'a Tensor =
  m_cScores :: nat
  m_cDimensionsMax :: nat
  m_cDimensions :: nat
  m_cTensorScoreCapacity :: nat
  m_bExpanded :: bool
  m_aTensorScores :: "'a list"
  m_aDimensions :: "DimensionInfo list"

text \<open>What \<^verbatim>\<open>Expand\<close> reads from a term: the count of its dimensions, the bin count of the
  feature of each dimension, and the product of the bin counts.\<close>

record Term =
  m_cDimensions_Term :: nat
  m_cTensorBins :: nat
  m_aTermFeatures :: "nat list"

record DimensionInfoStackExpand =
  m_pSplit1_Expand :: nat
  m_iEdge2 :: nat
  m_cNewSlices_Expand :: nat

record DimensionInfoStack =
  m_pSplit1 :: nat
  m_pSplit2 :: nat
  m_cNewSlices :: nat

subsection \<open>The allocator\<close>

text \<open>
  Allocation is the one effect of the tensor code. The state passed along is the list of
  outcomes of the coming requests (\<open>None\<close>: the request fails; \<open>Some k\<close>: it succeeds, and a
  growing request is given \<open>k\<close> spare bytes), and the content of fresh memory, cell by
  cell. A request made when the list is used up fails.
\<close>

record 'a Allocator =
  alloc_requests :: "nat option list"
  fresh_scores :: "nat \<Rightarrow> 'a"
  fresh_splits :: "nat \<Rightarrow> nat"

text \<open>A buffer moved to an allocation of \<open>n\<close> cells keeps its leading cells.\<close>

definition resize :: "(nat \<Rightarrow> 'b) \<Rightarrow> nat \<Rightarrow> 'b list \<Rightarrow> 'b list" where
  "resize fresh n buf = take n buf @ map fresh [length buf..<n]"

text \<open>\<^verbatim>\<open>realloc\<close> of a split buffer to \<open>cBytes\<close> bytes.\<close>

definition realloc :: "'a Allocator \<Rightarrow> nat list \<Rightarrow> nat \<Rightarrow> nat list option \<times> 'a Allocator" where
  "realloc mem buf cBytes =
     (case alloc_requests mem of
        [] \<Rightarrow> (None, mem)
      | None # rest \<Rightarrow> (None, mem\<lparr>alloc_requests := rest\<rparr>)
      | Some spare # rest \<Rightarrow>
          (Some (resize (fresh_splits mem) (cBytes div sizeof_UIntSplit) buf),
           mem\<lparr>alloc_requests := rest\<rparr>))"

text \<open>Modelled from the spec: \<^verbatim>\<open>AlignedGrow\<close>, which is not part of the sources. A buffer
  that already holds the required bytes is left alone; otherwise it is moved to an
  allocation of at least the required bytes, keeping its content, and a failed grow keeps
  the old buffer and returns \<^verbatim>\<open>Error_OutOfMemory\<close>.\<close>

definition AlignedGrow ::
  "'a Allocator \<Rightarrow> 'a list \<Rightarrow> nat \<Rightarrow> nat \<Rightarrow> ErrorEbm \<times> 'a list \<times> nat \<times> 'a Allocator"
where
  "AlignedGrow mem buf cOldBytes cRequiredBytes =
     (if cOldBytes < cRequiredBytes then
        (case alloc_requests mem of
           [] \<Rightarrow> (Error_OutOfMemory, buf, cOldBytes, mem)
         | None # rest \<Rightarrow> (Error_OutOfMemory, buf, cOldBytes, mem\<lparr>alloc_requests := rest\<rparr>)
         | Some spare # rest \<Rightarrow>
             (let cNewBytes = cRequiredBytes + spare in
              (Error_None, resize (fresh_scores mem) (cNewBytes div sizeof_FloatScore) buf, cNewBytes,
               mem\<lparr>alloc_requests := rest\<rparr>)))
      else (Error_None, buf, cOldBytes, mem))"

text \<open>\<^verbatim>\<open>memcpy\<close> of \<open>n\<close> cells to the start of \<open>dst\<close>.\<close>

definition memcpy :: "'b list \<Rightarrow> 'b list \<Rightarrow> nat \<Rightarrow> 'b list option" where
  "memcpy dst src n =
     (if n \<le> length dst \<and> n \<le> length src then Some (take n src @ drop n dst) else None)"

subsection \<open>Reset, SetCountSlices, EnsureTensorScoreCapacity\<close>

definition Reset :: "FloatScore Tensor \<Rightarrow> FloatScore Tensor option" where
  "Reset t =
     (if length (m_aDimensions t) < m_cDimensions t \<or> length (m_aTensorScores t) < m_cScores t
      then None
      else Some (t\<lparr> m_aDimensions :=
                      map (\<lambda>pDimensionInfo. pDimensionInfo\<lparr>m_cSlices := 1\<rparr>)
                        (take (m_cDimensions t) (m_aDimensions t))
                      @ drop (m_cDimensions t) (m_aDimensions t),
                    m_aTensorScores :=
                      replicate (m_cScores t) (Finite 0) @ drop (m_cScores t) (m_aTensorScores t),
                    m_bExpanded := False \<rparr>))"

definition SetCountSlices ::
  "'a Allocator \<Rightarrow> 'a Tensor \<Rightarrow> nat \<Rightarrow> nat \<Rightarrow> (ErrorEbm \<times> 'a Tensor \<times> 'a Allocator) option"
where
  "SetCountSlices mem t iDimension cSlices =
     (if length (m_aDimensions t) \<le> iDimension then None
      else
        let pDimension = m_aDimensions t ! iDimension in
        if m_cSliceCapacity pDimension < cSlices then
          (let cSplits = cSlices - 1 in
           if IsAddError cSplits (cSplits div 2) then Some (Error_OutOfMemory, t, mem)
           else
             let cNewSplitCapacity = cSplits + cSplits div 2 in
             if IsMultiplyError sizeof_UIntSplit cNewSplitCapacity then Some (Error_OutOfMemory, t, mem)
             else
               let cBytes = sizeof_UIntSplit * cNewSplitCapacity in
               case realloc mem (m_aSplits pDimension) cBytes of
                 (None, mem') \<Rightarrow> Some (Error_OutOfMemory, t, mem')
               | (Some aNewSplits, mem') \<Rightarrow>
                   Some (Error_None,
                         t\<lparr>m_aDimensions := (m_aDimensions t)
                              [iDimension := pDimension\<lparr> m_aSplits := aNewSplits,
                                 m_cSliceCapacity := cNewSplitCapacity + 1,
                                 m_cSlices := cSlices \<rparr>]\<rparr>,
                         mem'))
        else
          Some (Error_None,
                t\<lparr>m_aDimensions := (m_aDimensions t)[iDimension := pDimension\<lparr>m_cSlices := cSlices\<rparr>]\<rparr>,
                mem))"

definition EnsureTensorScoreCapacity ::
  "'a Allocator \<Rightarrow> 'a Tensor \<Rightarrow> nat \<Rightarrow> ErrorEbm \<times> 'a Tensor \<times> 'a Allocator"
where
  "EnsureTensorScoreCapacity mem t cTensorScores =
     (if IsMultiplyError sizeof_FloatScore cTensorScores then (Error_OutOfMemory, t, mem)
      else
        let cBytes = sizeof_FloatScore * cTensorScores in
        case AlignedGrow mem (m_aTensorScores t) (m_cTensorScoreCapacity t) cBytes of
          (error, aTensorScores, cTensorScoreCapacity, mem') \<Rightarrow>
            (error, t\<lparr>m_aTensorScores := aTensorScores, m_cTensorScoreCapacity := cTensorScoreCapacity\<rparr>,
             mem'))"

subsection \<open>Copy\<close>

text \<open>The loop over the dimensions; \<open>n\<close> counts the dimensions still to do. The byte
  count \<^verbatim>\<open>sizeof(UIntSplit) * (cSlices - 1)\<close> of the copy of the splits (line 192) is
  computed in \<^verbatim>\<open>size_t\<close>: for a slice count of zero the difference wraps, and the copy
  asks for more cells than a buffer holds.\<close>

fun copy_dimensions ::
  "'a Allocator \<Rightarrow> 'a Tensor \<Rightarrow> DimensionInfo list \<Rightarrow> nat \<Rightarrow> nat \<Rightarrow> nat \<Rightarrow>
   (ErrorEbm \<times> 'a Tensor \<times> 'a Allocator \<times> nat) option"
where
  "copy_dimensions mem t pRhsDimensionInfo iDimension 0 cTensorScores =
     Some (Error_None, t, mem, cTensorScores)"
| "copy_dimensions mem t pRhsDimensionInfo iDimension (Suc n) cTensorScores =
     (if length pRhsDimensionInfo \<le> iDimension then None
      else
        let pDimension = pRhsDimensionInfo ! iDimension;
            cSlices = m_cSlices pDimension;
            cTensorScores' = wrap_size (cTensorScores * cSlices)
        in
        case SetCountSlices mem t iDimension cSlices of
          None \<Rightarrow> None
        | Some (error, t', mem') \<Rightarrow>
            if error \<noteq> Error_None then Some (error, t', mem', cTensorScores')
            else
              let pThisDimension = m_aDimensions t' ! iDimension;
                  cBytes = wrap_size (sizeof_UIntSplit * wrap_size (cSlices + size_max))
              in
              case memcpy (m_aSplits pThisDimension) (m_aSplits pDimension) (cBytes div sizeof_UIntSplit) of
                None \<Rightarrow> None
              | Some aSplits \<Rightarrow>
                  copy_dimensions mem'
                    (t'\<lparr>m_aDimensions :=
                          (m_aDimensions t')[iDimension := pThisDimension\<lparr>m_aSplits := aSplits\<rparr>]\<rparr>)
                    pRhsDimensionInfo (iDimension + 1) n cTensorScores')"

definition Copy ::
  "'a Allocator \<Rightarrow> 'a Tensor \<Rightarrow> 'a Tensor \<Rightarrow> (ErrorEbm \<times> 'a Tensor \<times> 'a Allocator) option"
where
  "Copy mem t rhs =
     (case copy_dimensions mem t (m_aDimensions rhs) 0 (m_cDimensions t) (m_cScores t) of
        None \<Rightarrow> None
      | Some (error, t1, mem1, cTensorScores) \<Rightarrow>
          if error \<noteq> Error_None then Some (error, t1, mem1)
          else
            case EnsureTensorScoreCapacity mem1 t1 cTensorScores of
              (error, t2, mem2) \<Rightarrow>
                if error \<noteq> Error_None then Some (error, t2, mem2)
                else
                  case memcpy (m_aTensorScores t2) (m_aTensorScores rhs) cTensorScores of
                    None \<Rightarrow> None
                  | Some aTensorScores \<Rightarrow>
                      Some (Error_None,
                            t2\<lparr>m_aTensorScores := aTensorScores, m_bExpanded := m_bExpanded rhs\<rparr>,
                            mem2))"

subsection \<open>The count of live scores\<close>

text \<open>The loops that multiply the score count by the slice count of each dimension
  (lines 211 to 215 and 428 to 431); the product is not tested and wraps.\<close>

fun count_scores :: "nat \<Rightarrow> DimensionInfo list \<Rightarrow> nat" where
  "count_scores cTensorScores [] = cTensorScores"
| "count_scores cTensorScores (pDimension # rest) =
     count_scores (wrap_size (cTensorScores * m_cSlices pDimension)) rest"

definition count_tensor_scores :: "'a Tensor \<Rightarrow> nat option" where
  "count_tensor_scores t =
     (if length (m_aDimensions t) < m_cDimensions t then None
      else Some (count_scores (m_cScores t) (take (m_cDimensions t) (m_aDimensions t))))"

subsection \<open>MultiplyAndCheckForIssues\<close>

function multiply_loop ::
  "(real \<Rightarrow> real) \<Rightarrow> FloatScore \<Rightarrow> nat \<Rightarrow> nat \<Rightarrow> FloatScore list \<Rightarrow> bool \<Rightarrow>
   (FloatScore list \<times> bool) option"
where
  "multiply_loop rnd vFloat pCur pEnd aTensorScores bBad =
     (if length aTensorScores \<le> pCur then None
      else
        let v = fl_mul rnd (aTensorScores ! pCur) vFloat;
            bBad' = (bBad \<or> isnan v \<or> isinf v);
            aTensorScores' = aTensorScores[pCur := v];
            pCur' = pCur + 1
        in
        if pEnd \<noteq> pCur' then multiply_loop rnd vFloat pCur' pEnd aTensorScores' bBad'
        else Some (aTensorScores', bBad'))"
  by pat_completeness auto
termination
  by (relation "measure (\<lambda>(rnd, vFloat, pCur, pEnd, aTensorScores, bBad). length aTensorScores - pCur)")
     auto

declare multiply_loop.simps [simp del]

definition MultiplyAndCheckForIssues ::
  "(real \<Rightarrow> real) \<Rightarrow> FloatScore Tensor \<Rightarrow> FloatScore \<Rightarrow> (bool \<times> FloatScore Tensor) option"
where
  "MultiplyAndCheckForIssues rnd t v =
     (let vFloat = v in
      case count_tensor_scores t of
        None \<Rightarrow> None
      | Some cTensorScores \<Rightarrow>
          case multiply_loop rnd vFloat 0 cTensorScores (m_aTensorScores t) False of
            None \<Rightarrow> None
          | Some (aTensorScores, bBad) \<Rightarrow> Some (bBad, t\<lparr>m_aTensorScores := aTensorScores\<rparr>))"

subsection \<open>AddExpandedWithBadValueProtection\<close>

text \<open>The do-while loop of lines 436 to 458. \<open>pFromScore\<close> and \<open>pToScore\<close> advance together,
  so one index serves for both.\<close>

function add_expanded_loop ::
  "(real \<Rightarrow> real) \<Rightarrow> FloatScore list \<Rightarrow> nat \<Rightarrow> nat \<Rightarrow> FloatScore list \<Rightarrow> FloatScore list option"
where
  "add_expanded_loop rnd aFromScores pToScore pToScoresEnd aTensorScores =
     (if length aFromScores \<le> pToScore \<or> length aTensorScores \<le> pToScore then None
      else
        let score = aFromScores ! pToScore;
            score = (if isnan score then Finite 0 else score);
            score = fl_add rnd (aTensorScores ! pToScore) score;
            score = (if fl_le score numeric_limits_lowest then numeric_limits_lowest else score);
            score = (if fl_le numeric_limits_max score then numeric_limits_max else score);
            aTensorScores' = aTensorScores[pToScore := score];
            pToScore' = pToScore + 1
        in
        if pToScoresEnd \<noteq> pToScore' then add_expanded_loop rnd aFromScores pToScore' pToScoresEnd aTensorScores'
        else Some aTensorScores')"
  by pat_completeness auto
termination
  by (relation "measure (\<lambda>(rnd, aFromScores, pToScore, pToScoresEnd, aTensorScores).
                  length aTensorScores - pToScore)")
     auto

declare add_expanded_loop.simps [simp del]

definition AddExpandedWithBadValueProtection ::
  "(real \<Rightarrow> real) \<Rightarrow> FloatScore Tensor \<Rightarrow> FloatScore list \<Rightarrow> FloatScore Tensor option"
where
  "AddExpandedWithBadValueProtection rnd t aFromScores =
     (case count_tensor_scores t of
        None \<Rightarrow> None
      | Some cItems \<Rightarrow>
          case add_expanded_loop rnd aFromScores 0 cItems (m_aTensorScores t) of
            None \<Rightarrow> None
          | Some aTensorScores \<Rightarrow> Some (t\<lparr>m_aTensorScores := aTensorScores\<rparr>))"

subsection \<open>Expand\<close>

text \<open>The first loop (lines 259 to 281): the old score count, and for every dimension
  the stack entry with the pointer past the last split as an index into the dimension's
  split buffer.\<close>

fun expand_init ::
  "nat \<Rightarrow> DimensionInfo list \<Rightarrow> nat list \<Rightarrow> (nat \<times> DimensionInfoStackExpand list) option"
where
  "expand_init cTensorScores1 aDimension [] = None"
| "expand_init cTensorScores1 [] (cBins # rest) = None"
| "expand_init cTensorScores1 (pDimensionFirst1 # aDimension) (cBins # rest) =
     (let cSlices1 = m_cSlices pDimensionFirst1;
          cTensorScores1' = wrap_size (cTensorScores1 * cSlices1);
          pDimensionInfoStackFirst =
            \<lparr> m_pSplit1_Expand = cSlices1 - 1, m_iEdge2 = cBins, m_cNewSlices_Expand = cBins \<rparr>
      in
      if rest = [] then Some (cTensorScores1', [pDimensionInfoStackFirst])
      else
        case expand_init cTensorScores1' aDimension rest of
          None \<Rightarrow> None
        | Some (c, stack) \<Rightarrow> Some (c, pDimensionInfoStackFirst # stack))"

text \<open>The copy of one cell (lines 309 to 315), from below \<open>pTensorScore1Move\<close> to below
  \<open>pTensorScoreTop\<close>, in the same buffer.\<close>

function expand_copy :: "nat \<Rightarrow> nat \<Rightarrow> nat \<Rightarrow> 'a list \<Rightarrow> ('a list \<times> nat) option" where
  "expand_copy pTensorScore1Move pTensorScoreTop pTensorScoreTopEnd aTensorScores =
     (if pTensorScore1Move = 0 \<or> pTensorScoreTop = 0 then None
      else
        let pTensorScore1Move' = pTensorScore1Move - 1;
            pTensorScoreTop' = pTensorScoreTop - 1
        in
        if length aTensorScores \<le> pTensorScore1Move' \<or> length aTensorScores \<le> pTensorScoreTop' then None
        else
          let aTensorScores' = aTensorScores[pTensorScoreTop' := aTensorScores ! pTensorScore1Move'] in
          if pTensorScoreTopEnd \<noteq> pTensorScoreTop'
          then expand_copy pTensorScore1Move' pTensorScoreTop' pTensorScoreTopEnd aTensorScores'
          else Some (aTensorScores', pTensorScoreTop'))"
  by pat_completeness auto
termination
  by (relation "measure (\<lambda>(pTensorScore1Move, pTensorScoreTop, pTensorScoreTopEnd, aTensorScores).
                  pTensorScoreTop)")
     auto

declare expand_copy.simps [simp del]

text \<open>The move to the cell before (lines 332 to 380): the walk over the dimensions, with
  the stride \<open>multiplication1\<close>. Walking past the last dimension reads outside the stack.\<close>

fun expand_step ::
  "nat \<Rightarrow> DimensionInfo list \<Rightarrow> DimensionInfoStackExpand list \<Rightarrow> nat \<Rightarrow>
   (DimensionInfoStackExpand list \<times> nat) option"
where
  "expand_step multiplication1 (pDimensionSecond1 # aDimension) (pDimensionInfoStackSecond # stack)
       pTensorScore1 =
     (let pSplit1 = m_pSplit1_Expand pDimensionInfoStackSecond;
          iEdge2 = m_iEdge2 pDimensionInfoStackSecond;
          aSplits1 = m_aSplits pDimensionSecond1
      in
      if 0 < pSplit1 then
        (let pSplit1MinusOne = pSplit1 - 1 in
         if length aSplits1 \<le> pSplit1MinusOne then None
         else
           let d1 = aSplits1 ! pSplit1MinusOne;
               iEdge2' = iEdge2 - 1;
               bMove = (iEdge2' \<le> d1)
           in
           if bMove \<and> pTensorScore1 < multiplication1 then None
           else
             Some (pDimensionInfoStackSecond
                     \<lparr> m_pSplit1_Expand := (if bMove then pSplit1MinusOne else pSplit1),
                       m_iEdge2 := iEdge2' \<rparr> # stack,
                   if bMove then pTensorScore1 - multiplication1 else pTensorScore1))
      else if 1 < iEdge2 then
        Some (pDimensionInfoStackSecond\<lparr>m_iEdge2 := iEdge2 - 1\<rparr> # stack, pTensorScore1)
      else if pTensorScore1 < multiplication1 then None
      else
        (let pTensorScore1' = pTensorScore1 - multiplication1;
             cSlices1 = m_cSlices pDimensionSecond1;
             multiplication1' = wrap_size (multiplication1 * cSlices1);
             pTensorScore1'' = pTensorScore1' + multiplication1'
         in
         case expand_step multiplication1' aDimension stack pTensorScore1'' of
           None \<Rightarrow> None
         | Some (stack', p) \<Rightarrow>
             Some (pDimensionInfoStackSecond
                     \<lparr> m_pSplit1_Expand := cSlices1 - 1,
                       m_iEdge2 := m_cNewSlices_Expand pDimensionInfoStackSecond \<rparr> # stack',
                   p)))"
| "expand_step multiplication1 aDimension stack pTensorScore1 = None"

text \<open>The loop over the cells (lines 306 to 381), from the last cell down to the first.\<close>

function expand_loop ::
  "nat \<Rightarrow> DimensionInfo list \<Rightarrow> DimensionInfoStackExpand list \<Rightarrow> nat \<Rightarrow> nat \<Rightarrow> 'a list \<Rightarrow>
   'a list option"
where
  "expand_loop cScores aDimension1 stack pTensorScore1 pTensorScoreTop aTensorScores =
     (if pTensorScoreTop < cScores then None
      else
        case expand_copy pTensorScore1 pTensorScoreTop (pTensorScoreTop - cScores) aTensorScores of
          None \<Rightarrow> None
        | Some (aTensorScores', pTensorScoreTop') \<Rightarrow>
            if pTensorScoreTop' = 0 then Some aTensorScores'
            else
              case expand_step cScores aDimension1 stack pTensorScore1 of
                None \<Rightarrow> None
              | Some (stack', pTensorScore1') \<Rightarrow>
                  expand_loop cScores aDimension1 stack' pTensorScore1' pTensorScoreTop' aTensorScores')"
  by pat_completeness auto
text \<open>Every copy of a cell moves \<open>pTensorScoreTop\<close> down, so the loop over the cells ends.\<close>

lemma expand_copy_below: "expand_copy a b c s = Some (s', b') \<Longrightarrow> b' < b"
proof (induction a b c s rule: expand_copy.induct)
  case (1 a b c s)
  show ?case
  proof (cases "a = 0 \<or> b = 0 \<or> length s \<le> a - 1 \<or> length s \<le> b - 1")
    case True
    with "1.prems" show ?thesis
      by (subst (asm) expand_copy.simps) (auto simp: Let_def split: if_splits)
  next
    case nz: False
    show ?thesis
    proof (cases "c = b - 1")
      case True
      with "1.prems" nz have "b' = b - 1"
        by (subst (asm) expand_copy.simps) (simp add: Let_def)
      with nz show ?thesis by simp
    next
      case False
      with "1.prems" nz have "expand_copy (a - 1) (b - 1) c (s[b - 1 := s ! (a - 1)]) = Some (s', b')"
        by (subst (asm) expand_copy.simps) (simp add: Let_def)
      with "1.IH"[OF _ refl refl _ refl] nz False have "b' < b - 1" by simp
      then show ?thesis by simp
    qed
  qed
qed

termination expand_loop
  by (relation "measure (\<lambda>(cScores, aDimension1, stack, pTensorScore1, pTensorScoreTop, aTensorScores).
                  pTensorScoreTop)")
     (auto simp del: expand_copy.simps dest: expand_copy_below)

declare expand_loop.simps [simp del]

text \<open>The splits \<open>1, 2, \<dots>\<close> of an expanded dimension (lines 405 to 411).\<close>

function expand_edges :: "nat list \<Rightarrow> nat \<Rightarrow> nat \<Rightarrow> nat list option" where
  "expand_edges aSplit iEdge cSlices =
     (if iEdge = 0 \<or> length aSplit < iEdge then None
      else
        let aSplit' = aSplit[iEdge - 1 := iEdge];
            iEdge' = iEdge + 1
        in
        if cSlices \<noteq> iEdge' then expand_edges aSplit' iEdge' cSlices else Some aSplit')"
  by pat_completeness auto
termination
  by (relation "measure (\<lambda>(aSplit, iEdge, cSlices). Suc (length aSplit) - iEdge)") auto

declare expand_edges.simps [simp del]

text \<open>The loop over the dimensions that sets the slice counts and the splits (lines 388
  to 415).\<close>

fun expand_splits ::
  "'a Allocator \<Rightarrow> 'a Tensor \<Rightarrow> nat \<Rightarrow> nat list \<Rightarrow> (ErrorEbm \<times> 'a Tensor \<times> 'a Allocator) option"
where
  "expand_splits mem t iDimension [] = None"
| "expand_splits mem t iDimension (cBins # rest) =
     (let cSlices = cBins in
      if length (m_aDimensions t) \<le> iDimension then None
      else
        case (if cSlices \<noteq> m_cSlices (m_aDimensions t ! iDimension) then
                (case SetCountSlices mem t iDimension cSlices of
                   None \<Rightarrow> None
                 | Some (error, t', mem') \<Rightarrow>
                     if error \<noteq> Error_None then Some (error, t', mem')
                     else
                       let pDimension = m_aDimensions t' ! iDimension in
                       case expand_edges (m_aSplits pDimension) 1 cSlices of
                         None \<Rightarrow> None
                       | Some aSplit \<Rightarrow>
                           Some (Error_None,
                                 t'\<lparr>m_aDimensions :=
                                      (m_aDimensions t')[iDimension := pDimension\<lparr>m_aSplits := aSplit\<rparr>]\<rparr>,
                                 mem'))
              else Some (Error_None, t, mem)) of
          None \<Rightarrow> None
        | Some (error, t', mem') \<Rightarrow>
            if error \<noteq> Error_None then Some (error, t', mem')
            else if rest = [] then Some (Error_None, t', mem')
            else expand_splits mem' t' (iDimension + 1) rest)"

definition Expand ::
  "'a Allocator \<Rightarrow> 'a Tensor \<Rightarrow> Term \<Rightarrow> (ErrorEbm \<times> 'a Tensor \<times> 'a Allocator) option"
where
  "Expand mem t pTerm =
     (if m_bExpanded t then Some (Error_None, t, mem)
      else
        let cDimensions = m_cDimensions_Term pTerm in
        if 0 \<noteq> cDimensions then
          (if length (m_aTermFeatures pTerm) < cDimensions then None
           else
             let aTermFeatures = take cDimensions (m_aTermFeatures pTerm) in
             case expand_init (m_cScores t) (m_aDimensions t) aTermFeatures of
               None \<Rightarrow> None
             | Some (cTensorScores1, aDimensionInfoStackExpand) \<Rightarrow>
                 let cNewTensorScores = wrap_size (m_cScores t * m_cTensorBins pTerm) in
                 case EnsureTensorScoreCapacity mem t cNewTensorScores of
                   (error, t1, mem1) \<Rightarrow>
                     if error \<noteq> Error_None then Some (error, t1, mem1)
                     else
                       case expand_loop (m_cScores t1) (m_aDimensions t1) aDimensionInfoStackExpand
                              cTensorScores1 cNewTensorScores (m_aTensorScores t1) of
                         None \<Rightarrow> None
                       | Some aTensorScores \<Rightarrow>
                           case expand_splits mem1 (t1\<lparr>m_aTensorScores := aTensorScores\<rparr>) 0
                                  aTermFeatures of
                             None \<Rightarrow> None
                           | Some (error, t2, mem2) \<Rightarrow>
                               if error \<noteq> Error_None then Some (error, t2, mem2)
                               else Some (Error_None, t2\<lparr>m_bExpanded := True\<rparr>, mem2))
        else Some (Error_None, t\<lparr>m_bExpanded := True\<rparr>, mem))"

subsection \<open>Add\<close>

text \<open>The tensor without dimensions (lines 472 to 479): \<open>pTo\<close> and \<open>pFrom\<close> advance
  together. The sum of two scores is the parameter \<open>fadd\<close>.\<close>

function add_flat ::
  "('a \<Rightarrow> 'a \<Rightarrow> 'a) \<Rightarrow> nat \<Rightarrow> nat \<Rightarrow> 'a list \<Rightarrow> 'a list \<Rightarrow> 'a list option"
where
  "add_flat fadd pTo pToEnd aTensorScores aRhsScores =
     (if length aTensorScores \<le> pTo \<or> length aRhsScores \<le> pTo then None
      else
        let aTensorScores' = aTensorScores[pTo := fadd (aTensorScores ! pTo) (aRhsScores ! pTo)];
            pTo' = pTo + 1
        in
        if pToEnd \<noteq> pTo' then add_flat fadd pTo' pToEnd aTensorScores' aRhsScores
        else Some aTensorScores')"
  by pat_completeness auto
termination
  by (relation "measure (\<lambda>(fadd, pTo, pToEnd, aTensorScores, aRhsScores). length aTensorScores - pTo)")
     auto

declare add_flat.simps [simp del]

text \<open>The forward count of the merged slices of one dimension (lines 523 to 542).\<close>

function add_count ::
  "nat list \<Rightarrow> nat list \<Rightarrow> nat \<Rightarrow> nat \<Rightarrow> nat \<Rightarrow> nat \<Rightarrow> nat \<Rightarrow> nat option"
where
  "add_count aSplits1 aSplits2 p1Cur p1End p2Cur p2End cNewSingleDimensionSlices =
     (if p2End = p2Cur then Some (cNewSingleDimensionSlices + (p1End - p1Cur))
      else if p1End = p1Cur then Some (cNewSingleDimensionSlices + (p2End - p2Cur))
      else if length aSplits1 \<le> p1Cur \<or> length aSplits2 \<le> p2Cur then None
      else
        let cNewSingleDimensionSlices' = cNewSingleDimensionSlices + 1;
            d1 = aSplits1 ! p1Cur;
            d2 = aSplits2 ! p2Cur;
            p1Cur' = (if d1 \<le> d2 then p1Cur + 1 else p1Cur);
            p2Cur' = (if d2 \<le> d1 then p2Cur + 1 else p2Cur)
        in add_count aSplits1 aSplits2 p1Cur' p1End p2Cur' p2End cNewSingleDimensionSlices')"
  by pat_completeness auto
termination
  by (relation "measure (\<lambda>(aSplits1, aSplits2, p1Cur, p1End, p2Cur, p2End, c).
                  (length aSplits1 - p1Cur) + (length aSplits2 - p2Cur))")
     (auto simp: Let_def)

declare add_count.simps [simp del]

text \<open>The first loop over the dimensions (lines 504 to 553): the score counts of the two
  tensors and of the result, and the stack. With a slice count of zero the end pointer
  \<^verbatim>\<open>&p1Cur[cSlices1 - 1]\<close> lies before the split buffer, which is undefined.\<close>

fun add_init ::
  "nat \<Rightarrow> nat \<Rightarrow> nat \<Rightarrow> DimensionInfo list \<Rightarrow> DimensionInfo list \<Rightarrow> nat \<Rightarrow>
   (nat \<times> nat \<times> nat \<times> DimensionInfoStack list) option"
where
  "add_init cTensorScores1 cTensorScores2 cNewTensorScores aDimension1 aDimension2 0 = None"
| "add_init cTensorScores1 cTensorScores2 cNewTensorScores
       (pDimensionFirst1 # aDimension1) (pDimensionFirst2 # aDimension2) (Suc n) =
     (let cSlices1 = m_cSlices pDimensionFirst1;
          cSlices2 = m_cSlices pDimensionFirst2;
          cTensorScores1' = wrap_size (cTensorScores1 * cSlices1);
          cTensorScores2' = wrap_size (cTensorScores2 * cSlices2);
          p1End = cSlices1 - 1;
          p2End = cSlices2 - 1
      in
      if cSlices1 = 0 \<or> cSlices2 = 0 then None
      else
        case add_count (m_aSplits pDimensionFirst1) (m_aSplits pDimensionFirst2) 0 p1End 0 p2End 1 of
          None \<Rightarrow> None
        | Some cNewSingleDimensionSlices \<Rightarrow>
            let pDimensionInfoStackFirst =
                  \<lparr> m_pSplit1 = p1End, m_pSplit2 = p2End, m_cNewSlices = cNewSingleDimensionSlices \<rparr>;
                cNewTensorScores' = wrap_size (cNewTensorScores * cNewSingleDimensionSlices)
            in
            if n = 0
            then Some (cTensorScores1', cTensorScores2', cNewTensorScores', [pDimensionInfoStackFirst])
            else
              case add_init cTensorScores1' cTensorScores2' cNewTensorScores' aDimension1 aDimension2 n of
                None \<Rightarrow> None
              | Some (c1, c2, c, stack) \<Rightarrow> Some (c1, c2, c, pDimensionInfoStackFirst # stack))"
| "add_init cTensorScores1 cTensorScores2 cNewTensorScores aDimension1 aDimension2 (Suc n) = None"

text \<open>The sum of one cell (lines 582 to 587): read below \<open>pTensorScore1Move\<close> in this
  tensor's buffer and below \<open>pTensorScore2Move\<close> in the other's, write below
  \<open>pTensorScoreTop\<close> in this tensor's buffer.\<close>

function add_copy ::
  "('a \<Rightarrow> 'a \<Rightarrow> 'a) \<Rightarrow> nat \<Rightarrow> nat \<Rightarrow> nat \<Rightarrow> nat \<Rightarrow> 'a list \<Rightarrow> 'a list \<Rightarrow> ('a list \<times> nat) option"
where
  "add_copy fadd pTensorScore1Move pTensorScore2Move pTensorScoreTop pTensorScoreTopEnd
       aTensorScores aRhsScores =
     (if pTensorScore1Move = 0 \<or> pTensorScore2Move = 0 \<or> pTensorScoreTop = 0 then None
      else
        let pTensorScore1Move' = pTensorScore1Move - 1;
            pTensorScore2Move' = pTensorScore2Move - 1;
            pTensorScoreTop' = pTensorScoreTop - 1
        in
        if length aTensorScores \<le> pTensorScore1Move' \<or> length aRhsScores \<le> pTensorScore2Move'
           \<or> length aTensorScores \<le> pTensorScoreTop'
        then None
        else
          let aTensorScores' =
                aTensorScores[pTensorScoreTop' :=
                  fadd (aTensorScores ! pTensorScore1Move') (aRhsScores ! pTensorScore2Move')]
          in
          if pTensorScoreTopEnd \<noteq> pTensorScoreTop'
          then add_copy fadd pTensorScore1Move' pTensorScore2Move' pTensorScoreTop' pTensorScoreTopEnd
                 aTensorScores' aRhsScores
          else Some (aTensorScores', pTensorScoreTop'))"
  by pat_completeness auto
termination
  by (relation "measure (\<lambda>(fadd, pTensorScore1Move, pTensorScore2Move, pTensorScoreTop,
                            pTensorScoreTopEnd, aTensorScores, aRhsScores). pTensorScoreTop)")
     auto

declare add_copy.simps [simp del]

text \<open>The move to the cell before (lines 606 to 668).\<close>

fun add_step ::
  "nat \<Rightarrow> nat \<Rightarrow> DimensionInfo list \<Rightarrow> DimensionInfo list \<Rightarrow> DimensionInfoStack list \<Rightarrow> nat \<Rightarrow> nat \<Rightarrow>
   (DimensionInfoStack list \<times> nat \<times> nat) option"
where
  "add_step multiplication1 multiplication2 (pDimensionSecond1 # aDimension1)
       (pDimensionSecond2 # aDimension2) (pDimensionInfoStackSecond # stack)
       pTensorScore1 pTensorScore2 =
     (let pSplit1 = m_pSplit1 pDimensionInfoStackSecond;
          pSplit2 = m_pSplit2 pDimensionInfoStackSecond;
          aSplits1 = m_aSplits pDimensionSecond1;
          aSplits2 = m_aSplits pDimensionSecond2
      in
      if 0 < pSplit1 then
        (if 0 < pSplit2 then
           (let pSplit1MinusOne = pSplit1 - 1;
                pSplit2MinusOne = pSplit2 - 1
            in
            if length aSplits1 \<le> pSplit1MinusOne \<or> length aSplits2 \<le> pSplit2MinusOne then None
            else
              let d1 = aSplits1 ! pSplit1MinusOne;
                  d2 = aSplits2 ! pSplit2MinusOne;
                  bMove1 = (d2 \<le> d1);
                  bMove2 = (d1 \<le> d2)
              in
              if (bMove1 \<and> pTensorScore1 < multiplication1) \<or> (bMove2 \<and> pTensorScore2 < multiplication2)
              then None
              else
                Some (pDimensionInfoStackSecond
                        \<lparr> m_pSplit1 := (if bMove1 then pSplit1MinusOne else pSplit1),
                          m_pSplit2 := (if bMove2 then pSplit2MinusOne else pSplit2) \<rparr> # stack,
                      if bMove1 then pTensorScore1 - multiplication1 else pTensorScore1,
                      if bMove2 then pTensorScore2 - multiplication2 else pTensorScore2))
         else if pTensorScore1 < multiplication1 then None
         else
           Some (pDimensionInfoStackSecond\<lparr>m_pSplit1 := pSplit1 - 1\<rparr> # stack,
                 pTensorScore1 - multiplication1, pTensorScore2))
      else
        (if 0 < pSplit2 then
           (if pTensorScore2 < multiplication2 then None
            else
              Some (pDimensionInfoStackSecond\<lparr>m_pSplit2 := pSplit2 - 1\<rparr> # stack,
                    pTensorScore1, pTensorScore2 - multiplication2))
         else if pTensorScore1 < multiplication1 \<or> pTensorScore2 < multiplication2 then None
         else
           (let pTensorScore1' = pTensorScore1 - multiplication1;
                pTensorScore2' = pTensorScore2 - multiplication2;
                cSlices1 = m_cSlices pDimensionSecond1;
                cSlices2 = m_cSlices pDimensionSecond2;
                multiplication1' = wrap_size (multiplication1 * cSlices1);
                multiplication2' = wrap_size (multiplication2 * cSlices2);
                pTensorScore1'' = pTensorScore1' + multiplication1';
                pTensorScore2'' = pTensorScore2' + multiplication2'
            in
            case add_step multiplication1' multiplication2' aDimension1 aDimension2 stack
                   pTensorScore1'' pTensorScore2'' of
              None \<Rightarrow> None
            | Some (stack', p1, p2) \<Rightarrow>
                Some (pDimensionInfoStackSecond
                        \<lparr> m_pSplit1 := cSlices1 - 1, m_pSplit2 := cSlices2 - 1 \<rparr> # stack',
                      p1, p2))))"
| "add_step multiplication1 multiplication2 aDimension1 aDimension2 stack pTensorScore1 pTensorScore2 =
     None"

text \<open>The loop over the cells (lines 578 to 669).\<close>

function add_loop ::
  "('a \<Rightarrow> 'a \<Rightarrow> 'a) \<Rightarrow> nat \<Rightarrow> DimensionInfo list \<Rightarrow> DimensionInfo list \<Rightarrow> DimensionInfoStack list \<Rightarrow>
   nat \<Rightarrow> nat \<Rightarrow> nat \<Rightarrow> 'a list \<Rightarrow> 'a list \<Rightarrow> 'a list option"
where
  "add_loop fadd cScores aDimension1 aDimension2 stack pTensorScore1 pTensorScore2 pTensorScoreTop
       aTensorScores aRhsScores =
     (if pTensorScoreTop < cScores then None
      else
        case add_copy fadd pTensorScore1 pTensorScore2 pTensorScoreTop (pTensorScoreTop - cScores)
               aTensorScores aRhsScores of
          None \<Rightarrow> None
        | Some (aTensorScores', pTensorScoreTop') \<Rightarrow>
            if pTensorScoreTop' = 0 then Some aTensorScores'
            else
              case add_step cScores cScores aDimension1 aDimension2 stack pTensorScore1 pTensorScore2 of
                None \<Rightarrow> None
              | Some (stack', pTensorScore1', pTensorScore2') \<Rightarrow>
                  add_loop fadd cScores aDimension1 aDimension2 stack' pTensorScore1' pTensorScore2'
                    pTensorScoreTop' aTensorScores' aRhsScores)"
  by pat_completeness auto
lemma add_copy_below: "add_copy f a1 a2 b c s r = Some (s', b') \<Longrightarrow> b' < b"
proof (induction f a1 a2 b c s r rule: add_copy.induct)
  case (1 f a1 a2 b c s r)
  show ?case
  proof (cases "a1 = 0 \<or> a2 = 0 \<or> b = 0 \<or> length s \<le> a1 - 1 \<or> length r \<le> a2 - 1
                 \<or> length s \<le> b - 1")
    case True
    with "1.prems" show ?thesis
      by (subst (asm) add_copy.simps) (auto simp: Let_def split: if_splits)
  next
    case nz: False
    show ?thesis
    proof (cases "c = b - 1")
      case True
      with "1.prems" nz have "b' = b - 1"
        by (subst (asm) add_copy.simps) (simp add: Let_def)
      with nz show ?thesis by simp
    next
      case False
      with "1.prems" nz
      have "add_copy f (a1 - 1) (a2 - 1) (b - 1) c (s[b - 1 := f (s ! (a1 - 1)) (r ! (a2 - 1))]) r
              = Some (s', b')"
        by (subst (asm) add_copy.simps) (simp add: Let_def)
      with "1.IH"[OF _ refl refl refl _ refl] nz False have "b' < b - 1" by simp
      then show ?thesis by simp
    qed
  qed
qed

termination add_loop
  by (relation "measure (\<lambda>(fadd, cScores, aDimension1, aDimension2, stack, pTensorScore1,
                            pTensorScore2, pTensorScoreTop, aTensorScores, aRhsScores).
                  pTensorScoreTop)")
     (auto simp del: add_copy.simps dest: add_copy_below)

declare add_loop.simps [simp del]

text \<open>The reverse merge of the splits of one dimension into this tensor's buffer (lines
  700 to 738).\<close>

function add_merge :: "nat list \<Rightarrow> nat list \<Rightarrow> nat \<Rightarrow> nat \<Rightarrow> nat \<Rightarrow> nat list option" where
  "add_merge aSplits1 aSplits2 p1Cur p2Cur pTopCur =
     (if pTopCur = p1Cur then Some aSplits1
      else if pTopCur = p2Cur then memcpy aSplits1 aSplits2 pTopCur
      else if p1Cur = 0 \<or> p2Cur = 0 \<or> pTopCur = 0 then None
      else
        let p1CurMinusOne = p1Cur - 1;
            p2CurMinusOne = p2Cur - 1
        in
        if length aSplits1 \<le> p1CurMinusOne \<or> length aSplits2 \<le> p2CurMinusOne
           \<or> length aSplits1 \<le> pTopCur - 1
        then None
        else
          let d1 = aSplits1 ! p1CurMinusOne;
              d2 = aSplits2 ! p2CurMinusOne;
              p1Cur' = (if d2 \<le> d1 then p1CurMinusOne else p1Cur);
              p2Cur' = (if d1 \<le> d2 then p2CurMinusOne else p2Cur);
              d = (if d1 \<le> d2 then d2 else d1);
              pTopCur' = pTopCur - 1
          in add_merge (aSplits1[pTopCur' := d]) aSplits2 p1Cur' p2Cur' pTopCur')"
  by pat_completeness auto
termination
  by (relation "measure (\<lambda>(aSplits1, aSplits2, p1Cur, p2Cur, pTopCur). pTopCur)") auto

declare add_merge.simps [simp del]

text \<open>The last loop over the dimensions (lines 681 to 743).\<close>

fun add_splits ::
  "'a Allocator \<Rightarrow> 'a Tensor \<Rightarrow> DimensionInfo list \<Rightarrow> DimensionInfoStack list \<Rightarrow> nat \<Rightarrow> nat \<Rightarrow>
   (ErrorEbm \<times> 'a Tensor \<times> 'a Allocator) option"
where
  "add_splits mem t aDimension2 stack iDimension 0 = None"
| "add_splits mem t (pDimension2Cur # aDimension2) (pDimensionInfoStackCur # stack) iDimension (Suc n) =
     (if length (m_aDimensions t) \<le> iDimension then None
      else
        let cNewSlices = m_cNewSlices pDimensionInfoStackCur;
            cOriginalSlicesBeforeSetting = m_cSlices (m_aDimensions t ! iDimension)
        in
        case SetCountSlices mem t iDimension cNewSlices of
          None \<Rightarrow> None
        | Some (error, t', mem') \<Rightarrow>
            if error \<noteq> Error_None then Some (error, t', mem')
            else
              let pDimension1Cur = m_aDimensions t' ! iDimension in
              case add_merge (m_aSplits pDimension1Cur) (m_aSplits pDimension2Cur)
                     (cOriginalSlicesBeforeSetting - 1) (m_cSlices pDimension2Cur - 1) (cNewSlices - 1) of
                None \<Rightarrow> None
              | Some aSplits \<Rightarrow>
                  let t'' = t'\<lparr>m_aDimensions :=
                                 (m_aDimensions t')[iDimension := pDimension1Cur\<lparr>m_aSplits := aSplits\<rparr>]\<rparr>
                  in
                  if n = 0 then Some (Error_None, t'', mem')
                  else add_splits mem' t'' aDimension2 stack (iDimension + 1) n)"
| "add_splits mem t aDimension2 stack iDimension (Suc n) = None"

definition Add ::
  "('a \<Rightarrow> 'a \<Rightarrow> 'a) \<Rightarrow> 'a Allocator \<Rightarrow> 'a Tensor \<Rightarrow> 'a Tensor \<Rightarrow>
   (ErrorEbm \<times> 'a Tensor \<times> 'a Allocator) option"
where
  "Add fadd mem t rhs =
     (if 0 = m_cDimensions t then
        (case add_flat fadd 0 (m_cScores t) (m_aTensorScores t) (m_aTensorScores rhs) of
           None \<Rightarrow> None
         | Some aTensorScores \<Rightarrow> Some (Error_None, t\<lparr>m_aTensorScores := aTensorScores\<rparr>, mem))
      else
        case add_init (m_cScores t) (m_cScores t) (m_cScores t) (m_aDimensions t) (m_aDimensions rhs)
               (m_cDimensions t) of
          None \<Rightarrow> None
        | Some (cTensorScores1, cTensorScores2, cNewTensorScores, dimensionStack) \<Rightarrow>
            case EnsureTensorScoreCapacity mem t cNewTensorScores of
              (error, t1, mem1) \<Rightarrow>
                if error \<noteq> Error_None then Some (error, t1, mem1)
                else
                  case add_loop fadd (m_cScores t1) (m_aDimensions t1) (m_aDimensions rhs) dimensionStack
                         cTensorScores1 cTensorScores2 cNewTensorScores
                         (m_aTensorScores t1) (m_aTensorScores rhs) of
                    None \<Rightarrow> None
                  | Some aTensorScores \<Rightarrow>
                      add_splits mem1 (t1\<lparr>m_aTensorScores := aTensorScores\<rparr>) (m_aDimensions rhs)
                        dimensionStack 0 (m_cDimensions t1))"

subsection \<open>Auxiliary notions and example data for the tensor\<close>

definition capacity_le :: "'a Tensor \<Rightarrow> 'a Tensor \<Rightarrow> bool" where
  "capacity_le t t' =
     (m_cTensorScoreCapacity t \<le> m_cTensorScoreCapacity t' \<and>
      list_all2 (\<lambda>d d'. m_cSliceCapacity d \<le> m_cSliceCapacity d') (m_aDimensions t) (m_aDimensions t'))"

definition clamped_sum :: "(real \<Rightarrow> real) \<Rightarrow> float_t \<Rightarrow> float_t \<Rightarrow> float_t" where
  "clamped_sum rnd stored addend =
     (let score = (if isnan addend then Finite 0 else addend);
          score = fl_add rnd stored score;
          score = (if fl_le score numeric_limits_lowest then numeric_limits_lowest else score)
      in if fl_le numeric_limits_max score then numeric_limits_max else score)"

definition live_score_count :: "'a Tensor \<Rightarrow> nat" where
  "live_score_count t =
     m_cScores t * prod_list (map m_cSlices (take (m_cDimensions t) (m_aDimensions t)))"

definition example_allocator :: "FloatScore Allocator" where
  "example_allocator = \<lparr> alloc_requests = [Some 0, Some 0], fresh_scores = (\<lambda>i. NaN),
      fresh_splits = (\<lambda>i. 0) \<rparr>"

text \<open>One dimension with the split 1, two cells with the scores 1 and 2.\<close>

definition example_tensor :: "FloatScore Tensor" where
  "example_tensor = \<lparr> m_cScores = 1, m_cDimensionsMax = 1, m_cDimensions = 1,
      m_cTensorScoreCapacity = 16, m_bExpanded = True, m_aTensorScores = [Finite 1, Finite 2],
      m_aDimensions = [\<lparr> m_cSlices = 2, m_cSliceCapacity = 2, m_aSplits = [1] \<rparr>] \<rparr>"

text \<open>The same tensor with NaN in its first cell.\<close>

definition nan_tensor :: "FloatScore Tensor" where
  "nan_tensor = example_tensor\<lparr>m_aTensorScores := [NaN, Finite 2]\<rparr>"

definition sparse_tensor :: "FloatScore Tensor" where
  "sparse_tensor = example_tensor\<lparr>m_bExpanded := False\<rparr>"

text \<open>One dimension with the split 2, two cells with the scores 10 and 20.\<close>

definition other_tensor :: "FloatScore Tensor" where
  "other_tensor = \<lparr> m_cScores = 1, m_cDimensionsMax = 1, m_cDimensions = 1,
      m_cTensorScoreCapacity = 16, m_bExpanded = False, m_aTensorScores = [Finite 10, Finite 20],
      m_aDimensions = [\<lparr> m_cSlices = 2, m_cSliceCapacity = 2, m_aSplits = [2] \<rparr>] \<rparr>"

text \<open>A term of one feature with three bins.\<close>

definition example_term :: Term where
  "example_term = \<lparr> m_cDimensions_Term = 1, m_cTensorBins = 3, m_aTermFeatures = [3] \<rparr>"

subsection \<open>The step function of a tensor\<close>

text \<open>
  The notions in which the properties of \<^verbatim>\<open>Expand\<close> and \<^verbatim>\<open>Add\<close> are stated. The slice
  of a bin \<open>b\<close> along a dimension is the count of the splits that are at most \<open>b\<close>: the
  slice \<open>k\<close> with \<open>splits[k - 1] \<le> b < splits[k]\<close>.
\<close>

definition slice_of :: "nat list \<Rightarrow> nat \<Rightarrow> nat" where
  "slice_of splits b = length (filter (\<lambda>s. s \<le> b) splits)"

text \<open>The offset of the cell with the coordinates \<open>is\<close> in a grid with the counts \<open>cs\<close>, the
  first dimension running fastest (the strides of lines 329 and 370).\<close>

fun cell_offset :: "nat list \<Rightarrow> nat list \<Rightarrow> nat" where
  "cell_offset (c # cs) (i # is) = i + c * cell_offset cs is"
| "cell_offset cs is = 0"

text \<open>The cell before a cell in that order, the last cell of a grid, and the coordinates
  that lie in a grid.\<close>

fun previous_cell :: "nat list \<Rightarrow> nat list \<Rightarrow> nat list" where
  "previous_cell (n # ns) (b # bs) = (if 0 < b then (b - 1) # bs else (n - 1) # previous_cell ns bs)"
| "previous_cell ns bs = []"

definition last_cell :: "nat list \<Rightarrow> nat list" where
  "last_cell ns = map (\<lambda>n. n - 1) ns"

definition valid_cell :: "nat list \<Rightarrow> nat list \<Rightarrow> bool" where
  "valid_cell ns bs = list_all2 (\<lambda>b n. b < n) bs ns"

text \<open>The splits in use of a dimension, and a dimension in a consistent state: at least
  one slice, the slices within the capacity, a split buffer that holds the capacity, and
  strictly increasing positive splits.\<close>

definition live_splits :: "DimensionInfo \<Rightarrow> nat list" where
  "live_splits d = take (m_cSlices d - 1) (m_aSplits d)"

definition wf_dimension :: "DimensionInfo \<Rightarrow> bool" where
  "wf_dimension d =
     (1 \<le> m_cSlices d \<and> m_cSlices d \<le> m_cSliceCapacity d \<and>
      m_cSliceCapacity d \<le> length (m_aSplits d) + 1 \<and>
      sorted_wrt (<) (live_splits d) \<and> list_all (\<lambda>s. 0 < s) (live_splits d))"

text \<open>A dimension whose splits lie below the bin count of its feature.\<close>

definition fits_bins :: "DimensionInfo \<Rightarrow> nat \<Rightarrow> bool" where
  "fits_bins d cBins = (1 \<le> cBins \<and> list_all (\<lambda>s. s < cBins) (live_splits d))"

abbreviation fits :: "DimensionInfo list \<Rightarrow> nat list \<Rightarrow> bool" where
  "fits ds ns \<equiv> list_all2 (\<lambda>d n. wf_dimension d \<and> fits_bins d n) ds ns"

text \<open>The cell of the tensor that covers the bins \<open>bs\<close>, and its offset.\<close>

fun source_cell :: "DimensionInfo list \<Rightarrow> nat list \<Rightarrow> nat list" where
  "source_cell (d # ds) (b # bs) = slice_of (live_splits d) b # source_cell ds bs"
| "source_cell ds bs = []"

definition source_offset :: "DimensionInfo list \<Rightarrow> nat list \<Rightarrow> nat" where
  "source_offset ds bs = cell_offset (map m_cSlices ds) (source_cell ds bs)"

text \<open>The stack of \<^verbatim>\<open>Expand\<close> when the cell to write is the one of the bins \<open>bs\<close>.\<close>

fun expand_stack :: "DimensionInfo list \<Rightarrow> nat list \<Rightarrow> nat list \<Rightarrow> DimensionInfoStackExpand list" where
  "expand_stack (d # ds) (n # ns) (b # bs) =
     \<lparr> m_pSplit1_Expand = slice_of (live_splits d) b, m_iEdge2 = b + 1, m_cNewSlices_Expand = n \<rparr>
       # expand_stack ds ns bs"
| "expand_stack ds ns bs = []"

text \<open>A tensor in a consistent state: a positive score count, the dimensions in use
  consistent, and a score buffer that holds the capacity and the live scores.\<close>

definition live_dimensions :: "'a Tensor \<Rightarrow> DimensionInfo list" where
  "live_dimensions t = take (m_cDimensions t) (m_aDimensions t)"

definition wf_tensor :: "'a Tensor \<Rightarrow> bool" where
  "wf_tensor t =
     (1 \<le> m_cScores t \<and> m_cDimensions t \<le> length (m_aDimensions t) \<and>
      list_all wf_dimension (live_dimensions t) \<and>
      m_cTensorScoreCapacity t div sizeof_FloatScore \<le> length (m_aTensorScores t) \<and>
      live_score_count t \<le> length (m_aTensorScores t))"

text \<open>The bin counts of the features of a term, and a term that is the term of a tensor:
  as many dimensions, the splits of every dimension below the bin count, the product of
  the bin counts in \<^verbatim>\<open>m_cTensorBins\<close>, and a score count of the full grid that is a
  \<^verbatim>\<open>size_t\<close>.\<close>

definition term_bins :: "Term \<Rightarrow> nat list" where
  "term_bins pTerm = take (m_cDimensions_Term pTerm) (m_aTermFeatures pTerm)"

definition wf_term :: "'a Tensor \<Rightarrow> Term \<Rightarrow> bool" where
  "wf_term t pTerm =
     (m_cDimensions_Term pTerm = m_cDimensions t \<and>
      m_cDimensions_Term pTerm \<le> length (m_aTermFeatures pTerm) \<and>
      list_all2 fits_bins (live_dimensions t) (term_bins pTerm) \<and>
      m_cTensorBins pTerm = prod_list (term_bins pTerm) \<and>
      m_cScores t * m_cTensorBins pTerm \<le> size_max)"

text \<open>The score \<open>k\<close> of the tensor at the bin coordinates \<open>bins\<close>.\<close>

definition sample :: "'a Tensor \<Rightarrow> nat list \<Rightarrow> nat \<Rightarrow> 'a" where
  "sample t bins k =
     m_aTensorScores t ! (m_cScores t * source_offset (live_dimensions t) bins + k)"

text \<open>A dimension with one slice for each of \<open>cBins\<close> bins: the split \<open>k\<close> is \<open>k + 1\<close>.\<close>

definition expanded_dimension :: "DimensionInfo \<Rightarrow> nat \<Rightarrow> bool" where
  "expanded_dimension d cBins =
     (m_cSlices d = cBins \<and> live_splits d = map (\<lambda>k. k + 1) [0..<cBins - 1])"

subsection \<open>The merge of two step functions\<close>

text \<open>
  The notions in which the property of \<^verbatim>\<open>Add\<close> is stated. The merged splits of a dimension
  are the sorted union of the splits of the two tensors, duplicates merged. The slice \<open>m\<close>
  of the merged dimension starts at the bin \<open>slice_start zs m\<close>.
\<close>

definition merged_splits :: "nat list \<Rightarrow> nat list \<Rightarrow> nat list" where
  "merged_splits xs ys = sort (remdups (xs @ ys))"

definition slice_start :: "nat list \<Rightarrow> nat \<Rightarrow> nat" where
  "slice_start zs m = (if m = 0 then 0 else zs ! (m - 1))"

definition merged_dimension :: "DimensionInfo \<Rightarrow> DimensionInfo \<Rightarrow> nat list" where
  "merged_dimension d1 d2 = merged_splits (live_splits d1) (live_splits d2)"

text \<open>The slice counts of the merged grid, the first bins of the slices of a cell of the
  merged grid, and the cell of the merged grid that covers the bins \<open>bs\<close>.\<close>

fun merged_counts :: "DimensionInfo list \<Rightarrow> DimensionInfo list \<Rightarrow> nat list" where
  "merged_counts (d1 # ds1) (d2 # ds2) = (length (merged_dimension d1 d2) + 1) # merged_counts ds1 ds2"
| "merged_counts ds1 ds2 = []"

fun merged_bins :: "DimensionInfo list \<Rightarrow> DimensionInfo list \<Rightarrow> nat list \<Rightarrow> nat list" where
  "merged_bins (d1 # ds1) (d2 # ds2) (m # ms) =
     slice_start (merged_dimension d1 d2) m # merged_bins ds1 ds2 ms"
| "merged_bins ds1 ds2 ms = []"

fun merged_cell :: "DimensionInfo list \<Rightarrow> DimensionInfo list \<Rightarrow> nat list \<Rightarrow> nat list" where
  "merged_cell (d1 # ds1) (d2 # ds2) (b # bs) =
     slice_of (merged_dimension d1 d2) b # merged_cell ds1 ds2 bs"
| "merged_cell ds1 ds2 bs = []"

text \<open>The stack of \<^verbatim>\<open>Add\<close> when the cell to write is the cell \<open>ms\<close> of the merged grid.\<close>

fun add_stack :: "DimensionInfo list \<Rightarrow> DimensionInfo list \<Rightarrow> nat list \<Rightarrow> DimensionInfoStack list" where
  "add_stack (d1 # ds1) (d2 # ds2) (m # ms) =
     \<lparr> m_pSplit1 = slice_of (live_splits d1) (slice_start (merged_dimension d1 d2) m),
       m_pSplit2 = slice_of (live_splits d2) (slice_start (merged_dimension d1 d2) m),
       m_cNewSlices = length (merged_dimension d1 d2) + 1 \<rparr> # add_stack ds1 ds2 ms"
| "add_stack ds1 ds2 ms = []"

abbreviation both_wf :: "DimensionInfo list \<Rightarrow> DimensionInfo list \<Rightarrow> bool" where
  "both_wf ds1 ds2 \<equiv> list_all2 (\<lambda>d1 d2. wf_dimension d1 \<and> wf_dimension d2) ds1 ds2"

text \<open>A dimension \<open>d\<close> that is the merge of \<open>d1\<close> and \<open>d2\<close>: its splits are the merged
  splits, its slice count is one more than the count of its splits, and at most
  the sum of the two slice counts less one.\<close>

definition merged_result :: "DimensionInfo \<Rightarrow> DimensionInfo \<Rightarrow> DimensionInfo \<Rightarrow> bool" where
  "merged_result d d1 d2 =
     (live_splits d = merged_splits (live_splits d1) (live_splits d2) \<and>
      m_cSlices d = length (live_splits d) + 1 \<and>
      m_cSlices d \<le> m_cSlices d1 + m_cSlices d2 - 1)"

abbreviation merged_results :: "DimensionInfo list \<Rightarrow> DimensionInfo list \<Rightarrow> DimensionInfo list \<Rightarrow> bool" where
  "merged_results ds ds1 ds2 \<equiv> list_all2 (\<lambda>d p. merged_result d (fst p) (snd p)) ds (zip ds1 ds2)"

text \<open>Two tensors that \<^verbatim>\<open>Add\<close> accepts: as many dimensions, at least one, as many scores
  per cell, and a score count of the merged grid that is a \<^verbatim>\<open>size_t\<close> (the assertion of
  line 546).\<close>

definition add_fits :: "'a Tensor \<Rightarrow> 'a Tensor \<Rightarrow> bool" where
  "add_fits t rhs =
     (m_cDimensions rhs = m_cDimensions t \<and> m_cScores rhs = m_cScores t \<and> 1 \<le> m_cDimensions t \<and>
      m_cScores t * prod_list (merged_counts (live_dimensions t) (live_dimensions rhs)) \<le> size_max)"

section \<open>Properties of the interaction scorer\<close>

lemma size_max_eq: "size_max = 18446744073709551615" by (simp add: size_max_def)

lemma flt_max_pos: "0 < flt_max" by (simp add: flt_max_def)

lemma flt_max_nonneg: "0 \<le> flt_max" using flt_max_pos by simp

lemma flt_max_ge_2: "2 \<le> flt_max" by (simp add: flt_max_def)

lemma spec_aux_Cons: "spec_aux_for_totals (b # bs) = 1 + b * spec_aux_for_totals bs"
  by (simp add: spec_aux_for_totals_def sum.lessThan_Suc_shift sum_distrib_left del: sum.lessThan_Suc)

lemma spec_aux_less: "\<forall>b\<in>set bins. 2 \<le> b \<Longrightarrow> bins \<noteq> [] \<Longrightarrow> spec_aux_for_totals bins < prod_list bins"
proof (induction bins)
  case Nil then show ?case by simp
next
  case (Cons b bs)
  show ?case
  proof (cases "bs = []")
    case True
    with Cons.prems show ?thesis by (simp add: spec_aux_for_totals_def)
  next
    case False
    with Cons have ih: "spec_aux_for_totals bs < prod_list bs" by simp
    from Cons.prems have b: "2 \<le> b" by simp
    have "1 + b * spec_aux_for_totals bs < b * (spec_aux_for_totals bs + 1)" using b by simp
    also have "\<dots> \<le> b * prod_list bs" using ih by (intro mult_le_mono2) simp
    finally show ?thesis
      by (simp add: spec_aux_Cons)
  qed
qed

lemma prod_list_pos: "\<forall>b\<in>set bins. (2::nat) \<le> b \<Longrightarrow> 0 < prod_list bins"
  by (induction bins) auto

lemma prod_take_le: "\<forall>b\<in>set bins. (2::nat) \<le> b \<Longrightarrow> prod_list (take k bins) \<le> prod_list bins"
proof (induction bins arbitrary: k)
  case Nil then show ?case by simp
next
  case (Cons b bs)
  show ?case
  proof (cases k)
    case 0
    then show ?thesis using prod_list_pos[of "b # bs"] Cons.prems by (simp del: prod_list.Cons) 
  next
    case (Suc j)
    then show ?thesis using Cons by (simp add: mult_le_mono2)
  qed
qed

lemma overflow_step_iff:
  assumes "\<forall>b\<in>set bins. (2::nat) \<le> b"
  shows "(\<exists>k\<le>length bins. size_max < prod_list (take k bins)) \<longleftrightarrow> size_max < prod_list bins"
proof
  assume "\<exists>k\<le>length bins. size_max < prod_list (take k bins)"
  then obtain k where "size_max < prod_list (take k bins)" by blast
  with prod_take_le[OF assms, of k] show "size_max < prod_list bins" by simp
next
  assume "size_max < prod_list bins"
  then show "\<exists>k\<le>length bins. size_max < prod_list (take k bins)"
    by (intro exI[of _ "length bins"]) simp
qed

lemma arena_loop_spec:
  assumes "\<forall>b\<in>set bins. 2 \<le> b" "bins \<noteq> []" "aux < main" "main \<le> size_max"
  shows "arena_loop aux main bins =
           Some (if size_max < main * prod_list bins then Inl Error_OutOfMemory
                 else Inr (aux + main * spec_aux_for_totals bins, main * prod_list bins))"
  using assms
proof (induction bins arbitrary: aux main)
  case Nil then show ?case by simp
next
  case (Cons b bs)
  from Cons.prems have b: "2 \<le> b" by simp
  show ?case
  proof (cases "size_max < main * b")
    case True
    have "0 < prod_list bs" using Cons.prems(1) prod_list_pos[of bs] by simp
    then have "main * b * 1 \<le> main * b * prod_list bs" by (intro mult_le_mono2) simp
    then have "main * b \<le> main * (b * prod_list bs)" by (simp only: mult.assoc mult_1_right)
    with True have "size_max < main * (b * prod_list bs)" by (rule less_le_trans)
    with True show ?thesis by (simp add: IsMultiplyError_def Let_def)
  next
    case False
    have "aux + main < 2 * main" using Cons.prems(3) by simp
    also have "\<dots> \<le> main * b" using b by (simp add: mult.commute)
    finally have lt: "aux + main < main * b" .
    with False have nowrap: "wrap_size (aux + main) = aux + main"
      by (simp add: wrap_size_def)
    show ?thesis
    proof (cases "bs = []")
      case True
      with False nowrap show ?thesis
        by (simp add: IsMultiplyError_def Let_def spec_aux_for_totals_def)
    next
      case bsne: False
      have "arena_loop (aux + main) (main * b) bs =
          Some (if size_max < main * b * prod_list bs then Inl Error_OutOfMemory
                else Inr (aux + main + main * b * spec_aux_for_totals bs, main * b * prod_list bs))"
        using Cons.prems(1) bsne lt False by (intro Cons.IH) auto
      with False nowrap bsne show ?thesis
        by (simp add: IsMultiplyError_def Let_def spec_aux_Cons mult.assoc add_mult_distrib2)
    qed
  qed
qed

text \<open>Claim C8. For a feature group whose features all have at least two bins, the
  sum of the prefix products of the bin counts is strictly below their product, and the
  sizing returns \<^verbatim>\<open>Error_OutOfMemory\<close> exactly when the product overflows at some
  multiplication step, when the main buckets plus \<open>max aux 4\<close> auxiliary buckets overflow,
  when the bucket size overflows, or when the bytes per bucket times the total bucket count
  overflow; otherwise it yields the product as the main bucket count and \<open>max aux 4\<close>
  auxiliary buckets on top of it.\<close>

theorem arena_size_spec:
  assumes "bins = take (m_cDimensions_FeatureGroup g) (m_FeatureGroupEntry g)"
    and "bins \<noteq> []"
    and "\<forall>b\<in>set bins. 2 \<le> b"
  shows "spec_aux_for_totals bins < spec_main_buckets bins \<and>
    arena_size ext core g =
      Some (let main_buckets = spec_main_buckets bins;
                aux_buckets = max (spec_aux_for_totals bins) 4;
                total_buckets = main_buckets + aux_buckets;
                c = m_runtimeLearningTypeOrCountTargetClasses core;
                bytes_per_bucket = GetHistogramBucketSize ext (IsClassification ext c) (GetVectorLength ext c)
            in
            if \<exists>k\<le>length bins. size_max < prod_list (take k bins) then Inl Error_OutOfMemory
            else if size_max < total_buckets then Inl Error_OutOfMemory
            else if GetHistogramBucketSizeOverflow ext (IsClassification ext c) (GetVectorLength ext c)
            then Inl Error_OutOfMemory
            else if size_max < bytes_per_bucket * total_buckets then Inl Error_OutOfMemory
            else Inr (bytes_per_bucket, total_buckets, main_buckets, bytes_per_bucket * total_buckets))"
proof -
  have less: "spec_aux_for_totals bins < spec_main_buckets bins"
    using spec_aux_less[OF assms(3) assms(2)] by (simp add: spec_main_buckets_def)
  have loop: "arena_loop 0 1 bins =
      Some (if size_max < prod_list bins then Inl Error_OutOfMemory
            else Inr (spec_aux_for_totals bins, prod_list bins))"
    using arena_loop_spec[OF assms(3) assms(2), of 0 1] by (simp add: size_max_eq)
  have m: "max (spec_aux_for_totals bins) 4 =
      (if spec_aux_for_totals bins < 4 then 4 else spec_aux_for_totals bins)" by simp
  show ?thesis
    unfolding arena_size_def assms(1)[symmetric] loop overflow_step_iff[OF assms(3)] 
    using less
    by (simp add: Let_def IsAddError_def IsMultiplyError_def spec_main_buckets_def m del: max.absorb1 max.absorb2 max.absorb3 max.absorb4)
qed

theorem arena_size_spec_witness:
  "list_all (\<lambda>b. 2 \<le> b) [5, 3::nat] \<and>
   spec_aux_for_totals [5, 3] < spec_main_buckets [5, 3] \<and>
   arena_size example_collaborators example_core example_group = Some (Inr (32, 21, 15, 672))"
proof -
  have h1: "[5, 3] = take (m_cDimensions_FeatureGroup example_group) (m_FeatureGroupEntry example_group)"
    by (simp add: example_group_def)
  have h2: "[5, 3::nat] \<noteq> []" by simp
  have h3: "\<forall>b\<in>set [5, 3::nat]. 2 \<le> b" by simp
  have aux: "spec_aux_for_totals [5, 3] = 6"
    by (simp add: spec_aux_for_totals_def lessThan_Suc eval_nat_numeral)
  have ov: "\<not> (\<exists>k\<le>length [5, 3::nat]. size_max < prod_list (take k [5, 3]))"
    unfolding overflow_step_iff[OF h3] by (simp add: size_max_eq)
  have ev: "GetHistogramBucketSize example_collaborators b n = 32"
    "GetHistogramBucketSizeOverflow example_collaborators b n = False" for b n
    by (simp_all add: example_collaborators_def)
  from arena_size_spec [OF h1 h2 h3, of example_collaborators example_core] h3 show ?thesis
    unfolding Let_def aux ev overflow_step_iff[OF h3] spec_main_buckets_def
    by (simp add: size_max_eq)
qed

lemma fl_of_real_valid: "fl_valid (fl_of_real rnd x)"
  by (simp add: fl_valid_def fl_of_real_def Let_def)

lemma fl_div_valid: "fl_valid (fl_div rnd a b)"
  using flt_max_nonneg
  by (cases a; cases b) (auto simp: fl_of_real_valid, auto simp: fl_valid_def)

lemma classify_gain_range:
  "classify_gain g = k_illegalGainDouble \<or> (\<exists>x. 0 \<le> x \<and> x \<le> flt_max \<and> classify_gain g = Finite x)"
  using flt_max_nonneg
  by (cases g) (auto simp: classify_gain_def numeric_limits_max_def numeric_limits_lowest_def Let_def)

text \<open>Claim C4. With two significant dimensions, a sized and allocated arena and a
  non-null output, the raw gain of the partitioner is divided by the total weight and then
  classified: NaN or \<open>+\<infinity>\<close> stores the illegal-gain sentinel, a value below the lowest
  finite value stores the sentinel, a value from the lowest finite value up to but excluding
  zero stores zero, any other value is stored as it is; the call returns
  \<^verbatim>\<open>Error_None\<close> in all four cases.\<close>

theorem classify_normalised_gain:
  assumes "m_cSignificantDimensions g = 2"
    and "arena_size ext core g = Some (Inr (cBytesPerHistogramBucket, cTotalBuckets, cMain, cBytesBuffer))"
    and "GetHistogramBucketBase ext cBytesBuffer"
    and "bestGain = fl_div rnd (PartitionTwoDimensionalInteraction ext
            (take (m_cDimensions_FeatureGroup g) (m_FeatureGroupEntry g)) options cMin) (m_weightTotal core)"
  shows "\<exists>out. CalcInteractionStrengthInternal rnd ext core g options cMin (Some v) = Some (Error_None, Some out) \<and>
     (isnan bestGain \<or> bestGain = PosInf \<longrightarrow> out = k_illegalGainDouble) \<and>
     (fl_lt bestGain numeric_limits_lowest \<longrightarrow> out = k_illegalGainDouble) \<and>
     (fl_le numeric_limits_lowest bestGain \<and> fl_lt bestGain (Finite 0) \<longrightarrow> out = Finite 0) \<and>
     (fl_le (Finite 0) bestGain \<and> bestGain \<noteq> PosInf \<longrightarrow> out = bestGain)"
proof -
  have run: "CalcInteractionStrengthInternal rnd ext core g options cMin (Some v) =
      Some (Error_None, Some (classify_gain bestGain))"
    using assms by (simp add: CalcInteractionStrengthInternal_def Let_def)
  have v: "fl_valid bestGain" unfolding assms(4) by (rule fl_div_valid)
  have c: "(isnan bestGain \<or> bestGain = PosInf \<longrightarrow> classify_gain bestGain = k_illegalGainDouble) \<and>
     (fl_lt bestGain numeric_limits_lowest \<longrightarrow> classify_gain bestGain = k_illegalGainDouble) \<and>
     (fl_le numeric_limits_lowest bestGain \<and> fl_lt bestGain (Finite 0) \<longrightarrow> classify_gain bestGain = Finite 0) \<and>
     (fl_le (Finite 0) bestGain \<and> bestGain \<noteq> PosInf \<longrightarrow> classify_gain bestGain = bestGain)"
    using v flt_max_pos
    by (cases bestGain)
       (auto simp: classify_gain_def numeric_limits_max_def numeric_limits_lowest_def Let_def
          k_illegalGainDouble_def fl_valid_def)
  show ?thesis using run c by blast
qed

theorem classify_normalised_gain_witness:
  "m_cSignificantDimensions example_group = 2 \<and>
   arena_size example_collaborators example_core example_group = Some (Inr (32, 21, 15, 672)) \<and>
   GetHistogramBucketBase example_collaborators 672 \<and>
   CalcInteractionStrengthInternal id example_collaborators example_core example_group 0 1 (Some NaN)
     = Some (Error_None, Some (Finite 2))"
proof -
  have h1: "m_cSignificantDimensions example_group = 2" by (simp add: example_group_def)
  have h2: "arena_size example_collaborators example_core example_group = Some (Inr (32, 21, 15, 672))"
    by (simp add: arena_size_def example_group_def example_collaborators_def example_core_def
        IsMultiplyError_def IsAddError_def wrap_size_def size_max_eq Let_def)
  have h3: "GetHistogramBucketBase example_collaborators 672" by (simp add: example_collaborators_def)
  have g: "fl_div id (PartitionTwoDimensionalInteraction example_collaborators
            (take (m_cDimensions_FeatureGroup example_group) (m_FeatureGroupEntry example_group)) 0 1)
            (m_weightTotal example_core) = Finite 2"
    using flt_max_ge_2 by (simp add: example_collaborators_def example_core_def fl_of_real_def)
  from classify_normalised_gain [OF h1 h2 h3 g[symmetric], where v = NaN] h1 h2 h3
  show ?thesis by auto
qed

lemma feature_loop_unfold:
  "0 < n \<Longrightarrow> feature_loop pInteractionCore featureIndexes i n avgInteractionStrengthOut entries =
     (if length featureIndexes \<le> i then None
      else
        let indexFeatureInterop = featureIndexes ! i in
        if indexFeatureInterop < 0 then Some (Inl (Error_IllegalParamValue, avgInteractionStrengthOut))
        else if int (length (m_aFeatures pInteractionCore)) \<le> indexFeatureInterop
        then Some (Inl (Error_IllegalParamValue, avgInteractionStrengthOut))
        else
          let iFeature = nat indexFeatureInterop;
              cBins = m_aFeatures pInteractionCore ! iFeature
          in
          if cBins \<le> 1
          then Some (Inl (Error_None, store_out avgInteractionStrengthOut (Finite 0)))
          else if n - 1 = 0 then Some (Inr (entries @ [cBins]))
          else feature_loop pInteractionCore featureIndexes (i + 1) (n - 1) avgInteractionStrengthOut
                 (entries @ [cBins]))"
  by (cases n) (simp_all add: Let_def)

lemma feature_loop_good:
  assumes "i + n \<le> length idx" "0 < n"
    and "\<forall>j. i \<le> j \<and> j < i + n \<longrightarrow>
           0 \<le> idx ! j \<and> idx ! j < int (length (m_aFeatures core)) \<and> 1 < m_aFeatures core ! nat (idx ! j)"
  shows "feature_loop core idx i n out entries =
           Some (Inr (entries @ map (\<lambda>j. m_aFeatures core ! nat (idx ! j)) [i..<i + n]))"
  using assms
proof (induction n arbitrary: i entries)
  case 0 then show ?case by simp
next
  case (Suc n)
  from Suc.prems have here: "0 \<le> idx ! i" "idx ! i < int (length (m_aFeatures core))"
      "1 < m_aFeatures core ! nat (idx ! i)" "i < length idx"
    by (auto dest: spec[of _ i])
  show ?case
  proof (cases "n = 0")
    case True
    with here show ?thesis by (simp add: Let_def)
  next
    case False
    have "feature_loop core idx (i + 1) n out (entries @ [m_aFeatures core ! nat (idx ! i)]) =
        Some (Inr ((entries @ [m_aFeatures core ! nat (idx ! i)]) @
           map (\<lambda>j. m_aFeatures core ! nat (idx ! j)) [i + 1..<i + 1 + n]))"
      using Suc.prems False by (intro Suc.IH) auto
    with here False show ?thesis by (simp add: Let_def upt_conv_Cons)
  qed
qed

lemma feature_loop_bad:
  assumes "k < length idx" "i \<le> k" "k < i + n"
    and "idx ! k < 0 \<or> int (length (m_aFeatures core)) \<le> idx ! k"
    and "\<forall>j. i \<le> j \<and> j < k \<longrightarrow>
           0 \<le> idx ! j \<and> idx ! j < int (length (m_aFeatures core)) \<and> 1 < m_aFeatures core ! nat (idx ! j)"
  shows "feature_loop core idx i n out entries = Some (Inl (Error_IllegalParamValue, out))"
  using assms
proof (induction n arbitrary: i entries)
  case 0 then show ?case by simp
next
  case (Suc n)
  show ?case
  proof (cases "i = k")
    case True
    with Suc.prems show ?thesis by (auto simp: Let_def)
  next
    case False
    with Suc.prems have ik: "i < k" by simp
    with Suc.prems have here: "0 \<le> idx ! i" "idx ! i < int (length (m_aFeatures core))"
      "1 < m_aFeatures core ! nat (idx ! i)" "i < length idx"
      by (auto dest: spec[of _ i])
    from ik Suc.prems have n: "n \<noteq> 0" by simp
    have "feature_loop core idx (i + 1) n out (entries @ [m_aFeatures core ! nat (idx ! i)]) =
        Some (Inl (Error_IllegalParamValue, out))"
      using Suc.prems ik by (intro Suc.IH) auto
    with here n show ?thesis by (simp add: Let_def)
  qed
qed

lemma feature_loop_single_bin:
  assumes "k < length idx" "i \<le> k" "k < i + n"
    and "0 \<le> idx ! k" "idx ! k < int (length (m_aFeatures core))" "m_aFeatures core ! nat (idx ! k) \<le> 1"
    and "\<forall>j. i \<le> j \<and> j < k \<longrightarrow>
           0 \<le> idx ! j \<and> idx ! j < int (length (m_aFeatures core)) \<and> 1 < m_aFeatures core ! nat (idx ! j)"
  shows "feature_loop core idx i n out entries = Some (Inl (Error_None, store_out out (Finite 0)))"
  using assms
proof (induction n arbitrary: i entries)
  case 0 then show ?case by simp
next
  case (Suc n)
  show ?case
  proof (cases "i = k")
    case True
    with Suc.prems show ?thesis by (auto simp: Let_def)
  next
    case False
    with Suc.prems have ik: "i < k" by simp
    with Suc.prems have here: "0 \<le> idx ! i" "idx ! i < int (length (m_aFeatures core))"
      "1 < m_aFeatures core ! nat (idx ! i)" "i < length idx"
      by (auto dest: spec[of _ i])
    from ik Suc.prems have n: "n \<noteq> 0" by simp
    have "feature_loop core idx (i + 1) n out (entries @ [m_aFeatures core ! nat (idx ! i)]) =
        Some (Inl (Error_None, store_out out (Finite 0)))"
      using Suc.prems ik by (intro Suc.IH) auto
    with here n show ?thesis by (simp add: Let_def)
  qed
qed

lemma feature_loop_cases:
  assumes "i + n \<le> length idx" "0 < n"
  shows "feature_loop core idx i n out entries = Some (Inl (Error_IllegalParamValue, out)) \<or>
         feature_loop core idx i n out entries = Some (Inl (Error_None, store_out out (Finite 0))) \<or>
         (\<exists>es. feature_loop core idx i n out entries = Some (Inr es) \<and> length es = length entries + n)"
  using assms
proof (induction n arbitrary: i entries)
  case 0 then show ?case by simp
next
  case (Suc n)
  show ?case
  proof (cases "n = 0")
    case True
    with Suc.prems show ?thesis by (simp add: Let_def)
  next
    case False
    have "i + 1 + n \<le> length idx" "0 < n" using Suc.prems False by auto
    from Suc.IH[OF this, of "entries @ [m_aFeatures core ! nat (idx ! i)]"] Suc.prems False show ?thesis
      by (auto simp add: Let_def)
  qed
qed

lemma arena_loop_Inl: "arena_loop a m bins = Some (Inl e) \<Longrightarrow> e = Error_OutOfMemory"
  by (induction bins arbitrary: a m) (auto simp: Let_def split: if_splits)

lemma arena_loop_None: "arena_loop a m bins = None \<Longrightarrow> bins = []"
  by (induction bins arbitrary: a m) (auto simp: Let_def split: if_splits)

lemma arena_size_Inl: "arena_size ext core g = Some (Inl e) \<Longrightarrow> e = Error_OutOfMemory"
  by (auto simp: arena_size_def Let_def split: option.splits sum.splits if_splits dest: arena_loop_Inl)

lemma arena_size_None:
  "arena_size ext core g = None \<Longrightarrow> take (m_cDimensions_FeatureGroup g) (m_FeatureGroupEntry g) = []"
  by (auto simp: arena_size_def Let_def split: option.splits sum.splits if_splits dest: arena_loop_None)

lemma internal_cases:
  assumes "take (m_cDimensions_FeatureGroup g) (m_FeatureGroupEntry g) \<noteq> []"
  shows
  "CalcInteractionStrengthInternal rnd ext core g options cMin (Some w) = Some (Error_OutOfMemory, Some w) \<or>
   CalcInteractionStrengthInternal rnd ext core g options cMin (Some w) = Some (Error_None, Some k_illegalGainDouble) \<or>
   (\<exists>b. CalcInteractionStrengthInternal rnd ext core g options cMin (Some w) = Some (Error_None, Some (classify_gain b)))"
proof (cases "arena_size ext core g")
  case None
  with assms arena_size_None show ?thesis by blast
next
  case (Some r)
  show ?thesis
  proof (cases r)
    case (Inl e)
    with Some arena_size_Inl have "e = Error_OutOfMemory" by blast
    with Some Inl show ?thesis by (simp add: CalcInteractionStrengthInternal_def)
  next
    case (Inr t)
    then show ?thesis using Some
      by (cases t) (auto simp: CalcInteractionStrengthInternal_def Let_def store_out_def)
  qed
qed

lemma sentinel_finite: "\<not> isnan k_illegalGainDouble" "\<not> isinf k_illegalGainDouble"
  by (simp_all add: k_illegalGainDouble_def numeric_limits_lowest_def)

lemma legal_output_simps:
  "legal_output (Finite 0)" "legal_output k_illegalGainDouble" "legal_output (classify_gain b)"
  using classify_gain_range[of b] by (auto simp: legal_output_def)

lemma legal_output_finite: "legal_output w \<Longrightarrow> \<not> isnan w \<and> \<not> isinf w"
  using sentinel_finite by (auto simp: legal_output_def)

text \<open>Claim C6. A call with a non-null output (and an index array that holds the
  entries it announces) returns, and the output then holds zero, a non-negative finite gain or
  the illegal-gain sentinel, never NaN or an infinity. What the cell held before the call
  does not matter, since the sentinel is stored on entry; on every return code other than
  \<^verbatim>\<open>Error_None\<close> the sentinel is still there.\<close>

theorem output_always_legal:
  assumes "case featureIndexes of None \<Rightarrow> True | Some idx \<Rightarrow> nat countDimensions \<le> length idx"
  shows "\<exists>err w.
      CalcInteractionStrength rnd ext interactionHandle countDimensions featureIndexes options cMin (Some v)
        = Some (err, Some w) \<and>
      (w = Finite 0 \<or> (\<exists>x. 0 \<le> x \<and> x \<le> flt_max \<and> w = Finite x) \<or> w = k_illegalGainDouble) \<and>
      \<not> isnan w \<and> \<not> isinf w \<and>
      (err \<noteq> Error_None \<longrightarrow> w = k_illegalGainDouble) \<and>
      CalcInteractionStrength rnd ext interactionHandle countDimensions featureIndexes options cMin (Some v)
        = CalcInteractionStrength rnd ext interactionHandle countDimensions featureIndexes options cMin
            (Some k_illegalGainDouble)"
proof -
  let ?call = "CalcInteractionStrength rnd ext interactionHandle countDimensions featureIndexes options cMin"
  have same: "?call (Some v) = ?call (Some k_illegalGainDouble)"
    by (simp add: CalcInteractionStrength_def store_out_def)
  have "\<exists>err w. ?call (Some v) = Some (err, Some w) \<and> legal_output w \<and>
          (err \<noteq> Error_None \<longrightarrow> w = k_illegalGainDouble)"
  proof (cases interactionHandle)
    case None
    then show ?thesis by (simp add: CalcInteractionStrength_def store_out_def legal_output_simps)
  next
    case (Some core)
    show ?thesis
    proof (cases "countDimensions \<le> 0")
      case True
      with Some show ?thesis
        by (simp add: CalcInteractionStrength_def store_out_def legal_output_simps Let_def)
    next
      case pos: False
      show ?thesis
      proof (cases featureIndexes)
        case None
        with Some pos show ?thesis
          by (simp add: CalcInteractionStrength_def store_out_def legal_output_simps Let_def)
      next
        case idx: (Some idx)
        show ?thesis
        proof (cases "int k_cDimensionsMax < countDimensions")
          case True
          with Some pos idx show ?thesis
            by (simp add: CalcInteractionStrength_def store_out_def legal_output_simps Let_def)
        next
          case small: False
          let ?n = "nat countDimensions"
          have n: "0 + ?n \<le> length idx" "0 < ?n" using assms idx pos by auto
          note fl = feature_loop_cases[OF n, of core "Some k_illegalGainDouble" "[]"]
          have unfold: "?call (Some v) =
            (case feature_loop core idx 0 ?n (Some k_illegalGainDouble) [] of
               None \<Rightarrow> None
             | Some (Inl r) \<Rightarrow> Some r
             | Some (Inr entries) \<Rightarrow>
                 if 0 = m_cSamples core then Some (Error_None, Some (Finite 0))
                 else if 1 = m_runtimeLearningTypeOrCountTargetClasses core then Some (Error_None, Some (Finite 0))
                 else CalcInteractionStrengthInternal rnd ext core
                        \<lparr> m_cDimensions_FeatureGroup = ?n, m_cSignificantDimensions = ?n, m_FeatureGroupEntry = entries \<rparr>
                        options
                        (if 1 \<le> cMin then (if int size_max < cMin then size_max else nat cMin) else 1)
                        (Some k_illegalGainDouble))"
            using Some pos idx small
            by (simp add: CalcInteractionStrength_def store_out_def Let_def split: option.splits sum.splits)
          from fl show ?thesis
          proof (elim disjE exE conjE)
            assume "feature_loop core idx 0 ?n (Some k_illegalGainDouble) [] =
                Some (Inl (Error_IllegalParamValue, Some k_illegalGainDouble))"
            then show ?thesis unfolding unfold by (simp add: legal_output_simps)
          next
            assume "feature_loop core idx 0 ?n (Some k_illegalGainDouble) [] =
                Some (Inl (Error_None, store_out (Some k_illegalGainDouble) (Finite 0)))"
            then show ?thesis unfolding unfold by (simp add: legal_output_simps store_out_def)
          next
            fix es
            assume es: "feature_loop core idx 0 ?n (Some k_illegalGainDouble) [] = Some (Inr es)"
              and len: "length es = length ([]::nat list) + ?n"
            let ?g = "\<lparr> m_cDimensions_FeatureGroup = ?n, m_cSignificantDimensions = ?n, m_FeatureGroupEntry = es \<rparr>"
            have ne: "take (m_cDimensions_FeatureGroup ?g) (m_FeatureGroupEntry ?g) \<noteq> []"
              using len n by auto
            let ?m = "if 1 \<le> cMin then (if int size_max < cMin then size_max else nat cMin) else 1"
            note ic = internal_cases[OF ne, of rnd ext core options ?m k_illegalGainDouble]
            show ?thesis unfolding unfold es using ic
              by (auto simp: legal_output_simps simp del: One_nat_def)
          qed
        qed
      qed
    qed
  qed
  then obtain err w where r: "?call (Some v) = Some (err, Some w)" "legal_output w"
     "err \<noteq> Error_None \<longrightarrow> w = k_illegalGainDouble" by blast
  from r(2) legal_output_finite have "\<not> isnan w \<and> \<not> isinf w" by blast
  with r same show ?thesis unfolding legal_output_def by blast
qed

theorem output_always_legal_witness:
  "(case Some [1, 2] of None \<Rightarrow> True | Some idx \<Rightarrow> nat 2 \<le> length idx) \<and>
   CalcInteractionStrength id example_collaborators (Some example_core) 2 (Some [1, 2]) 0 1 (Some NaN)
     = Some (Error_None, Some (Finite 2))"
proof -
  have h: "case Some [1, 2::int] of None \<Rightarrow> True | Some idx \<Rightarrow> nat 2 \<le> length idx" by simp
  have run: "CalcInteractionStrength id example_collaborators (Some example_core) 2 (Some [1, 2]) 0 1 (Some NaN)
     = Some (Error_None, Some (Finite 2))"
    using flt_max_ge_2 flt_max_pos
    by (simp add: CalcInteractionStrength_def CalcInteractionStrengthInternal_def arena_size_def
        example_collaborators_def example_core_def store_out_def k_cDimensionsMax_def
        feature_loop_unfold IsMultiplyError_def IsAddError_def wrap_size_def size_max_eq Let_def
        classify_gain_def fl_of_real_def numeric_limits_max_def numeric_limits_lowest_def)
  from output_always_legal [OF h, of id example_collaborators "Some example_core" 0 1 NaN] run h
  show ?thesis by simp
qed

lemma least_bad:
  fixes P :: "nat \<Rightarrow> bool"
  assumes "P k"
  obtains k' where "k' \<le> k" "P k'" "\<forall>j<k'. \<not> P j"
proof -
  let ?k = "LEAST j. P j"
  have "P ?k" using assms by (rule LeastI)
  moreover have "?k \<le> k" using assms by (rule Least_le)
  moreover have "\<forall>j<?k. \<not> P j" using not_less_Least by blast
  ultimately show ?thesis using that by blast
qed

text \<open>Claim C5, amended. The range check and the single-bin test are made entry
  by entry, in array order, in one loop, and the first entry that fails either test decides
  the call. An index that is negative or not below the feature count yields
  \<^verbatim>\<open>Error_IllegalParamValue\<close>, with the sentinel in the output, whenever no earlier entry
  of the array refers to a feature with at most one bin. An index in range that refers to
  a feature with at most one bin yields \<^verbatim>\<open>Error_None\<close> with zero in the output, whenever
  every earlier entry is in range and refers to a feature with more than one bin; the
  entries after it are not read.\<close>

theorem out_of_range_index_first:
  assumes "0 < countDimensions" and "countDimensions \<le> int k_cDimensionsMax"
    and "nat countDimensions \<le> length idx" and "k < nat countDimensions"
  shows
    "((idx ! k < 0 \<or> int (length (m_aFeatures core)) \<le> idx ! k) \<and>
      (\<forall>j<k. 0 \<le> idx ! j \<and> idx ! j < int (length (m_aFeatures core)) \<longrightarrow>
               1 < m_aFeatures core ! nat (idx ! j))
      \<longrightarrow> CalcInteractionStrength rnd ext (Some core) countDimensions (Some idx) options cMin out
            = Some (Error_IllegalParamValue, store_out out k_illegalGainDouble)) \<and>
     ((0 \<le> idx ! k \<and> idx ! k < int (length (m_aFeatures core)) \<and>
       m_aFeatures core ! nat (idx ! k) \<le> 1) \<and>
      (\<forall>j<k. 0 \<le> idx ! j \<and> idx ! j < int (length (m_aFeatures core)) \<and>
               1 < m_aFeatures core ! nat (idx ! j))
      \<longrightarrow> CalcInteractionStrength rnd ext (Some core) countDimensions (Some idx) options cMin out
            = Some (Error_None, store_out out (Finite 0)))"
proof (intro conjI impI)
  assume a: "(idx ! k < 0 \<or> int (length (m_aFeatures core)) \<le> idx ! k) \<and>
      (\<forall>j<k. 0 \<le> idx ! j \<and> idx ! j < int (length (m_aFeatures core)) \<longrightarrow>
               1 < m_aFeatures core ! nat (idx ! j))"
  let ?bad = "\<lambda>j. idx ! j < 0 \<or> int (length (m_aFeatures core)) \<le> idx ! j"
  from a have "?bad k" by simp
  then obtain k' where k': "k' \<le> k" "?bad k'" "\<forall>j<k'. \<not> ?bad j"
    by (rule least_bad[of ?bad k])
  have good: "\<forall>j. 0 \<le> j \<and> j < k' \<longrightarrow>
           0 \<le> idx ! j \<and> idx ! j < int (length (m_aFeatures core)) \<and> 1 < m_aFeatures core ! nat (idx ! j)"
    using k' a by (metis le_less_trans linorder_not_less order_less_imp_le)
  have "feature_loop core idx 0 (nat countDimensions) (store_out out k_illegalGainDouble) []
      = Some (Inl (Error_IllegalParamValue, store_out out k_illegalGainDouble))"
    using assms(3,4) k'(1,2) good by (intro feature_loop_bad[of k']) auto
  then show "CalcInteractionStrength rnd ext (Some core) countDimensions (Some idx) options cMin out
            = Some (Error_IllegalParamValue, store_out out k_illegalGainDouble)"
    using assms(1,2) by (simp add: CalcInteractionStrength_def Let_def)
next
  assume b: "(0 \<le> idx ! k \<and> idx ! k < int (length (m_aFeatures core)) \<and>
       m_aFeatures core ! nat (idx ! k) \<le> 1) \<and>
      (\<forall>j<k. 0 \<le> idx ! j \<and> idx ! j < int (length (m_aFeatures core)) \<and>
               1 < m_aFeatures core ! nat (idx ! j))"
  have "feature_loop core idx 0 (nat countDimensions) (store_out out k_illegalGainDouble) []
      = Some (Inl (Error_None, store_out (store_out out k_illegalGainDouble) (Finite 0)))"
    using assms(3,4) b by (intro feature_loop_single_bin[of k]) auto
  moreover have "store_out (store_out out k_illegalGainDouble) (Finite 0) = store_out out (Finite 0)"
    by (cases out) (simp_all add: store_out_def)
  ultimately show "CalcInteractionStrength rnd ext (Some core) countDimensions (Some idx) options cMin out
            = Some (Error_None, store_out out (Finite 0))"
    using assms(1,2) by (simp add: CalcInteractionStrength_def Let_def)
qed

theorem out_of_range_index_first_witness:
  "(0::int) < 2 \<and> 2 \<le> int k_cDimensionsMax \<and> nat 2 \<le> length [1, - 1 :: int] \<and> 1 < nat 2 \<and>
   CalcInteractionStrength id example_collaborators (Some example_core) 2 (Some [1, - 1]) 0 1 (Some NaN)
     = Some (Error_IllegalParamValue, Some k_illegalGainDouble) \<and>
   nat 2 \<le> length [1, 0 :: int] \<and>
   CalcInteractionStrength id example_collaborators (Some example_core) 2 (Some [1, 0]) 0 1 (Some NaN)
     = Some (Error_None, Some (Finite 0))"
proof -
  have h1: "(0::int) < 2" by simp
  have h2: "2 \<le> int k_cDimensionsMax" by (simp add: k_cDimensionsMax_def)
  have h3: "nat 2 \<le> length [1, - 1 :: int]" by simp
  have h3': "nat 2 \<le> length [1, 0 :: int]" by simp
  have h4: "1 < nat 2" by simp
  have bad: "([1, - 1 :: int] ! 1 < 0 \<or> int (length (m_aFeatures example_core)) \<le> [1, - 1] ! 1) \<and>
      (\<forall>j<1. 0 \<le> [1, - 1 :: int] ! j \<and> [1, - 1] ! j < int (length (m_aFeatures example_core)) \<longrightarrow>
               1 < m_aFeatures example_core ! nat ([1, - 1] ! j))"
    by (simp add: example_core_def)
  have single: "(0 \<le> [1, 0 :: int] ! 1 \<and> [1, 0 :: int] ! 1 < int (length (m_aFeatures example_core)) \<and>
       m_aFeatures example_core ! nat ([1, 0 :: int] ! 1) \<le> 1) \<and>
      (\<forall>j<1. 0 \<le> [1, 0 :: int] ! j \<and> [1, 0] ! j < int (length (m_aFeatures example_core)) \<and>
               1 < m_aFeatures example_core ! nat ([1, 0] ! j))"
    by (simp add: example_core_def)
  from out_of_range_index_first [OF h1 h2 h3 h4, of example_core id example_collaborators 0 1 "Some NaN"] bad
  have r1: "CalcInteractionStrength id example_collaborators (Some example_core) 2 (Some [1, - 1]) 0 1 (Some NaN)
     = Some (Error_IllegalParamValue, Some k_illegalGainDouble)"
    by (simp add: store_out_def)
  from out_of_range_index_first [OF h1 h2 h3' h4, of example_core id example_collaborators 0 1 "Some NaN"] single
  have r2: "CalcInteractionStrength id example_collaborators (Some example_core) 2 (Some [1, 0]) 0 1 (Some NaN)
     = Some (Error_None, Some (Finite 0))"
    by (simp add: store_out_def)
  from h1 h2 h3 h3' h4 r1 r2 show ?thesis by (simp only: simp_thms)
qed

text \<open>Claim C5 as stated fails: with the index array \<open>[0, -1]\<close>, where feature 0 has
  one bin, the loop returns at the first entry with \<^verbatim>\<open>Error_None\<close> and zero, and the
  negative index is never looked at.\<close>

theorem single_bin_before_bad_index:
  "CalcInteractionStrength id example_collaborators (Some example_core) 2 (Some [0, - 1]) 0 1 (Some NaN)
     = Some (Error_None, Some (Finite 0))"
  by (simp add: CalcInteractionStrength_def example_core_def store_out_def k_cDimensionsMax_def
        feature_loop_unfold Let_def)

text \<open>Claim C7, amended. A call that passes the input validation with a dimension
  count other than two leaves the illegal-gain sentinel in the output; it returns
  \<^verbatim>\<open>Error_None\<close> when the arena can be sized and its buffer obtained, and
  \<^verbatim>\<open>Error_OutOfMemory\<close> otherwise.\<close>

theorem higher_order_interaction:
  assumes "0 < countDimensions" and "countDimensions \<noteq> 2" and "countDimensions \<le> int k_cDimensionsMax"
    and "nat countDimensions \<le> length idx"
    and "\<forall>j<nat countDimensions. 0 \<le> idx ! j \<and> idx ! j < int (length (m_aFeatures core)) \<and>
               1 < m_aFeatures core ! nat (idx ! j)"
    and "m_cSamples core \<noteq> 0" and "m_runtimeLearningTypeOrCountTargetClasses core \<noteq> 1"
    and "g = \<lparr> m_cDimensions_FeatureGroup = nat countDimensions, m_cSignificantDimensions = nat countDimensions,
               m_FeatureGroupEntry = map (\<lambda>j. m_aFeatures core ! nat (idx ! j)) [0..<nat countDimensions] \<rparr>"
  shows "CalcInteractionStrength rnd ext (Some core) countDimensions (Some idx) options cMin (Some v) =
     Some (if \<exists>cBytesPerBucket cTotal cMain cBytes.
                arena_size ext core g = Some (Inr (cBytesPerBucket, cTotal, cMain, cBytes)) \<and>
                GetHistogramBucketBase ext cBytes
           then Error_None else Error_OutOfMemory,
           Some k_illegalGainDouble)"
proof -
  let ?n = "nat countDimensions"
  have fl: "feature_loop core idx 0 ?n (Some k_illegalGainDouble) [] =
      Some (Inr ([] @ map (\<lambda>j. m_aFeatures core ! nat (idx ! j)) [0..<0 + ?n]))"
    using assms(1,4,5) by (intro feature_loop_good) auto
  have n2: "?n \<noteq> 2" using assms(1,2) by auto
  have ne: "take (m_cDimensions_FeatureGroup g) (m_FeatureGroupEntry g) \<noteq> []"
    using assms(1) by (simp add: assms(8))
  have int: "CalcInteractionStrengthInternal rnd ext core g options m (Some k_illegalGainDouble) =
     Some (if \<exists>cBytesPerBucket cTotal cMain cBytes.
                arena_size ext core g = Some (Inr (cBytesPerBucket, cTotal, cMain, cBytes)) \<and>
                GetHistogramBucketBase ext cBytes
           then Error_None else Error_OutOfMemory,
           Some k_illegalGainDouble)" for m
  proof (cases "arena_size ext core g")
    case None
    with ne arena_size_None show ?thesis by blast
  next
    case (Some r)
    show ?thesis
    proof (cases r)
      case (Inl e)
      with Some arena_size_Inl have "e = Error_OutOfMemory" by blast
      with Some Inl show ?thesis by (simp add: CalcInteractionStrengthInternal_def)
    next
      case (Inr t)
      obtain a b c d where t: "t = (a, b, c, d)" by (cases t)
      have "m_cSignificantDimensions g \<noteq> 2" using n2 by (simp add: assms(8))
      then show ?thesis using Some Inr t
        by (simp add: CalcInteractionStrengthInternal_def store_out_def)
    qed
  qed
  show ?thesis
    using assms(1,3,6,7) fl int
    by (simp add: CalcInteractionStrength_def Let_def store_out_def assms(8))
qed

theorem higher_order_interaction_witness:
  "CalcInteractionStrength id example_collaborators (Some example_core) 3 (Some [1, 2, 3]) 0 1 (Some NaN) =
     Some (Error_None, Some k_illegalGainDouble)"
proof -
  let ?g = "\<lparr> m_cDimensions_FeatureGroup = nat 3, m_cSignificantDimensions = nat 3,
               m_FeatureGroupEntry = map (\<lambda>j. m_aFeatures example_core ! nat ([1, 2, 3] ! j)) [0..<nat 3] \<rparr>"
  have h1: "(0::int) < 3" and h2: "(3::int) \<noteq> 2" by simp_all
  have h3: "3 \<le> int k_cDimensionsMax" by (simp add: k_cDimensionsMax_def)
  have h4: "nat 3 \<le> length [1, 2, 3 :: int]" by simp
  have h5: "\<forall>j<nat 3. 0 \<le> [1, 2, 3 :: int] ! j \<and> [1, 2, 3] ! j < int (length (m_aFeatures example_core)) \<and>
               1 < m_aFeatures example_core ! nat ([1, 2, 3] ! j)"
    by (auto simp: example_core_def numeral_3_eq_3 less_Suc_eq)
  have h6: "m_cSamples example_core \<noteq> 0" by (simp add: example_core_def)
  have h7: "m_runtimeLearningTypeOrCountTargetClasses example_core \<noteq> 1" by (simp add: example_core_def)
  have m: "map (\<lambda>j. m_aFeatures example_core ! nat ([1, 2, 3] ! j)) [0..<nat 3] = [5, 3, 4]"
    by (simp add: example_core_def upt_conv_Cons)
  have ar: "arena_size example_collaborators example_core ?g = Some (Inr (32, 81, 60, 2592))"
    unfolding m
    by (simp add: arena_size_def example_collaborators_def example_core_def
        IsMultiplyError_def IsAddError_def wrap_size_def size_max_eq Let_def)
  from higher_order_interaction [OF h1 h2 h3 h4 h5 h6 h7 refl, of id example_collaborators 0 1 NaN]
  show ?thesis unfolding ar by (simp add: example_collaborators_def)
qed

text \<open>Claim C7 as stated fails: three features of \<open>2 ^ 22\<close> bins pass the validation,
  and the product of the bin counts overflows, so the call returns
  \<^verbatim>\<open>Error_OutOfMemory\<close>.\<close>

theorem higher_order_overflow:
  "CalcInteractionStrength id example_collaborators (Some wide_core) 3 (Some [0, 1, 2]) 0 1 (Some NaN) =
     Some (Error_OutOfMemory, Some k_illegalGainDouble)"
  by (simp add: CalcInteractionStrength_def CalcInteractionStrengthInternal_def arena_size_def
        example_collaborators_def wide_core_def store_out_def k_cDimensionsMax_def
        feature_loop_unfold IsMultiplyError_def IsAddError_def wrap_size_def size_max_eq Let_def)

section \<open>Properties of the tensor operations\<close>

lemma sizeof_UIntSplit_pos: "0 < sizeof_UIntSplit" by (simp add: sizeof_UIntSplit_def)

lemma sizeof_FloatScore_pos: "0 < sizeof_FloatScore" by (simp add: sizeof_FloatScore_def)

lemma length_resize [simp]: "length (resize fresh n buf) = n"
  by (simp add: resize_def)

lemma nth_resize: "i < n \<Longrightarrow> i < length buf \<Longrightarrow> resize fresh n buf ! i = buf ! i"
  by (simp add: resize_def nth_append)

lemma take_resize: "length buf \<le> n \<Longrightarrow> take (length buf) (resize fresh n buf) = buf"
  by (simp add: resize_def)

lemma realloc_cases:
  "realloc mem buf cBytes = (r, mem') \<Longrightarrow>
     r = None \<or> r = Some (resize (fresh_splits mem) (cBytes div sizeof_UIntSplit) buf)"
  by (auto simp: realloc_def split: list.splits option.splits)

text \<open>Claim C9. When \<open>cSlices\<close> exceeds the slice capacity of the dimension,
  \<^verbatim>\<open>SetCountSlices\<close> returns \<^verbatim>\<open>Error_None\<close> or \<^verbatim>\<open>Error_OutOfMemory\<close>. It
  returns \<^verbatim>\<open>Error_OutOfMemory\<close> exactly when an overflow test or the reallocation fails,
  and the tensor is then unchanged. In every other case it returns \<^verbatim>\<open>Error_None\<close>, the
  split buffer of the dimension has the new capacity
  \<open>max (n - 1) ((n - 1) + (n - 1) div 2)\<close> with its old content in front, the slice capacity is
  one more, the slice count is \<open>cSlices\<close>, and nothing else has changed.\<close>

theorem set_count_slices_grows:
  assumes "iDimension < length (m_aDimensions t)"
    and "m_cSliceCapacity (m_aDimensions t ! iDimension) < cSlices"
  shows "\<exists>error t' mem'.
     SetCountSlices mem t iDimension cSlices = Some (error, t', mem') \<and>
     (error = Error_None \<or> error = Error_OutOfMemory) \<and>
     (error = Error_OutOfMemory \<longrightarrow> t' = t) \<and>
     (error = Error_OutOfMemory \<longleftrightarrow>
        IsAddError (cSlices - 1) ((cSlices - 1) div 2) \<or>
        IsMultiplyError sizeof_UIntSplit ((cSlices - 1) + (cSlices - 1) div 2) \<or>
        fst (realloc mem (m_aSplits (m_aDimensions t ! iDimension))
               (sizeof_UIntSplit * ((cSlices - 1) + (cSlices - 1) div 2))) = None) \<and>
     (error = Error_None \<longrightarrow>
        (let pOld = m_aDimensions t ! iDimension;
             pNew = m_aDimensions t' ! iDimension;
             cNewSplitCapacity = max (cSlices - 1) ((cSlices - 1) + (cSlices - 1) div 2)
         in m_cSliceCapacity pNew = cNewSplitCapacity + 1 \<and>
            length (m_aSplits pNew) = cNewSplitCapacity \<and>
            m_cSlices pNew = cSlices \<and>
            (\<forall>i < min (length (m_aSplits pOld)) cNewSplitCapacity. m_aSplits pNew ! i = m_aSplits pOld ! i) \<and>
            t' = t\<lparr>m_aDimensions := (m_aDimensions t)[iDimension := pNew]\<rparr>))"
proof -
  let ?c = "(cSlices - 1) + (cSlices - 1) div 2"
  have mx: "max (cSlices - 1) ?c = ?c" by simp
  obtain r mem' where re: "realloc mem (m_aSplits (m_aDimensions t ! iDimension)) (sizeof_UIntSplit * ?c) = (r, mem')"
    by (cases "realloc mem (m_aSplits (m_aDimensions t ! iDimension)) (sizeof_UIntSplit * ?c)")
  from realloc_cases[OF re] sizeof_UIntSplit_pos
  have r: "r = None \<or> r = Some (resize (fresh_splits mem) ?c (m_aSplits (m_aDimensions t ! iDimension)))"
    by simp
  show ?thesis
    unfolding mx using assms re r
    by (auto simp: SetCountSlices_def Let_def nth_resize)
qed

lemma capacity_le_refl [simp]: "capacity_le t t"
  by (simp add: capacity_le_def list_all2_refl)

lemma capacity_le_trans: "capacity_le t t' \<Longrightarrow> capacity_le t' t'' \<Longrightarrow> capacity_le t t''"
  unfolding capacity_le_def list_all2_conv_all_nth
  by (fastforce intro: le_trans)

lemma capacity_le_scores [simp]: "capacity_le t (t\<lparr>m_aTensorScores := s\<rparr>)"
  by (simp add: capacity_le_def list_all2_refl)

lemma capacity_le_expanded [simp]: "capacity_le t (t\<lparr>m_bExpanded := b\<rparr>)"
  by (simp add: capacity_le_def list_all2_refl)

lemma capacity_le_dimension:
  assumes "i < length (m_aDimensions t)" "m_cSliceCapacity (m_aDimensions t ! i) \<le> m_cSliceCapacity d"
  shows "capacity_le t (t\<lparr>m_aDimensions := (m_aDimensions t)[i := d]\<rparr>)"
  using assms
  by (auto simp: capacity_le_def list_all2_conv_all_nth nth_list_update)

lemma Reset_capacity: "Reset t = Some t' \<Longrightarrow> capacity_le t t'"
proof -
  assume a: "Reset t = Some t'"
  let ?n = "m_cDimensions t"
  have "list_all2 (\<lambda>d d'. m_cSliceCapacity d \<le> m_cSliceCapacity d')
          (take ?n (m_aDimensions t) @ drop ?n (m_aDimensions t))
          (map (\<lambda>d. d\<lparr>m_cSlices := 1\<rparr>) (take ?n (m_aDimensions t)) @ drop ?n (m_aDimensions t))"
    by (intro list_all2_appendI) (simp_all add: list_all2_conv_all_nth)
  with a show ?thesis
    by (auto simp: Reset_def capacity_le_def split: if_splits)
qed

lemma SetCountSlices_capacity:
  assumes "SetCountSlices mem t i n = Some (e, t', mem')"
  shows "capacity_le t t'"
proof -
  from assms have i: "i < length (m_aDimensions t)"
    by (auto simp: SetCountSlices_def split: if_splits)
  show ?thesis
  proof (cases "m_cSliceCapacity (m_aDimensions t ! i) < n")
    case True
    have "m_cSliceCapacity (m_aDimensions t ! i) \<le> (n - 1) + (n - 1) div 2 + 1" using True by simp
    with assms i True show ?thesis
      by (auto simp: SetCountSlices_def Let_def split: if_splits prod.splits option.splits
            intro!: capacity_le_dimension)
  next
    case False
    with assms i show ?thesis
      by (auto simp: SetCountSlices_def Let_def intro!: capacity_le_dimension)
  qed
qed

lemma AlignedGrow_capacity:
  "AlignedGrow mem buf cOld cReq = (e, buf', cNew, mem') \<Longrightarrow> cOld \<le> cNew"
  by (auto simp: AlignedGrow_def Let_def split: if_splits list.splits option.splits)

lemma EnsureTensorScoreCapacity_capacity:
  assumes "EnsureTensorScoreCapacity mem t n = (e, t', mem')"
  shows "capacity_le t t'"
  using assms
  by (auto simp: EnsureTensorScoreCapacity_def Let_def capacity_le_def list_all2_refl
        split: if_splits prod.splits dest: AlignedGrow_capacity)

lemma capacity_le_splits:
  assumes "i < length (m_aDimensions t)"
  shows "capacity_le t (t\<lparr>m_aDimensions := (m_aDimensions t)[i := (m_aDimensions t ! i)\<lparr>m_aSplits := s\<rparr>]\<rparr>)"
  using assms by (intro capacity_le_dimension) simp_all

lemma SetCountSlices_length:
  "SetCountSlices mem t i n = Some (e, t', mem') \<Longrightarrow>
     length (m_aDimensions t') = length (m_aDimensions t) \<and> i < length (m_aDimensions t)"
  by (auto simp: SetCountSlices_def Let_def split: if_splits prod.splits option.splits)

lemma copy_dimensions_capacity:
  "copy_dimensions mem t rhs i n c = Some (e, t', mem', c') \<Longrightarrow> capacity_le t t'"
proof (induction n arbitrary: mem t i c)
  case 0
  then show ?case by simp
next
  case (Suc n)
  from Suc.prems obtain e1 t1 mem1 where
    s: "SetCountSlices mem t i (m_cSlices (rhs ! i)) = Some (e1, t1, mem1)"
    by (auto simp: Let_def split: if_splits option.splits)
  note c1 = SetCountSlices_capacity[OF s] and l1 = SetCountSlices_length[OF s]
  show ?case
  proof (cases "e1 = Error_None")
    case False
    with Suc.prems s have "t' = t1" by (auto simp: Let_def split: if_splits)
    with c1 show ?thesis by simp
  next
    case True
    with Suc.prems s obtain sp where
      r: "copy_dimensions mem1
            (t1\<lparr>m_aDimensions := (m_aDimensions t1)[i := (m_aDimensions t1 ! i)\<lparr>m_aSplits := sp\<rparr>]\<rparr>)
            rhs (i + 1) n (wrap_size (c * m_cSlices (rhs ! i))) = Some (e, t', mem', c')"
      by (auto simp: Let_def split: if_splits option.splits)
    have "capacity_le t1 (t1\<lparr>m_aDimensions := (m_aDimensions t1)[i := (m_aDimensions t1 ! i)\<lparr>m_aSplits := sp\<rparr>]\<rparr>)"
      using l1 by (intro capacity_le_splits) simp
    with c1 Suc.IH[OF r] show ?thesis by (blast intro: capacity_le_trans)
  qed
qed

lemma Copy_capacity:
  assumes "Copy mem t rhs = Some (e, t', mem')"
  shows "capacity_le t t'"
proof -
  from assms obtain e1 t1 mem1 c where
    cd: "copy_dimensions mem t (m_aDimensions rhs) 0 (m_cDimensions t) (m_cScores t) = Some (e1, t1, mem1, c)"
    by (auto simp: Copy_def split: option.splits)
  note c1 = copy_dimensions_capacity[OF cd]
  show ?thesis
  proof (cases "e1 = Error_None")
    case False
    with assms cd have "t' = t1" by (simp add: Copy_def)
    with c1 show ?thesis by simp
  next
    case True
    obtain e2 t2 mem2 where en: "EnsureTensorScoreCapacity mem1 t1 c = (e2, t2, mem2)"
      by (cases "EnsureTensorScoreCapacity mem1 t1 c")
    note c2 = EnsureTensorScoreCapacity_capacity[OF en]
    from assms cd True en have "t' = t2 \<or> (\<exists>s. t' = t2\<lparr>m_aTensorScores := s, m_bExpanded := m_bExpanded rhs\<rparr>)"
      by (auto simp: Copy_def split: if_splits option.splits)
    then have "capacity_le t2 t'"
      by (auto simp: capacity_le_def list_all2_refl)
    with c1 c2 show ?thesis by (blast intro: capacity_le_trans)
  qed
qed

lemma Multiply_capacity:
  "MultiplyAndCheckForIssues rnd t v = Some (b, t') \<Longrightarrow> capacity_le t t'"
  by (auto simp: MultiplyAndCheckForIssues_def Let_def split: option.splits)

lemma AddExpanded_capacity:
  "AddExpandedWithBadValueProtection rnd t from = Some t' \<Longrightarrow> capacity_le t t'"
  by (auto simp: AddExpandedWithBadValueProtection_def split: option.splits)

lemma expand_splits_capacity:
  "expand_splits mem t i bins = Some (e, t', mem') \<Longrightarrow> capacity_le t t'"
proof (induction bins arbitrary: mem t i)
  case Nil
  then show ?case by simp
next
  case (Cons b bins)
  let ?one = "(if b \<noteq> m_cSlices (m_aDimensions t ! i) then
                (case SetCountSlices mem t i b of
                   None \<Rightarrow> None
                 | Some (error, t', mem') \<Rightarrow>
                     if error \<noteq> Error_None then Some (error, t', mem')
                     else
                       let pDimension = m_aDimensions t' ! i in
                       case expand_edges (m_aSplits pDimension) 1 b of
                         None \<Rightarrow> None
                       | Some aSplit \<Rightarrow>
                           Some (Error_None,
                                 t'\<lparr>m_aDimensions :=
                                      (m_aDimensions t')[i := pDimension\<lparr>m_aSplits := aSplit\<rparr>]\<rparr>,
                                 mem'))
              else Some (Error_None, t, mem))"
  from Cons.prems obtain e1 t1 mem1 where one: "?one = Some (e1, t1, mem1)"
    by (auto simp: Let_def split: if_splits option.splits)
  have c1: "capacity_le t t1"
  proof (cases "b \<noteq> m_cSlices (m_aDimensions t ! i)")
    case False
    with one show ?thesis by simp
  next
    case True
    with one obtain e0 t0 mem0 where s: "SetCountSlices mem t i b = Some (e0, t0, mem0)"
      by (auto split: option.splits)
    note c0 = SetCountSlices_capacity[OF s] and l0 = SetCountSlices_length[OF s]
    from one True s have "t1 = t0 \<or>
        (\<exists>sp. t1 = t0\<lparr>m_aDimensions := (m_aDimensions t0)[i := (m_aDimensions t0 ! i)\<lparr>m_aSplits := sp\<rparr>]\<rparr>)"
      by (auto simp: Let_def split: if_splits option.splits)
    then have "capacity_le t0 t1" using l0 by (auto intro!: capacity_le_splits)
    with c0 show ?thesis by (blast intro: capacity_le_trans)
  qed
  from Cons.prems one have "t' = t1 \<or> expand_splits mem1 t1 (i + 1) bins = Some (e, t', mem')"
    by (auto simp: Let_def split: if_splits)
  with c1 Cons.IH show ?case by (blast intro: capacity_le_trans)
qed

lemma Expand_capacity:
  assumes "Expand mem t pTerm = Some (e, t', mem')"
  shows "capacity_le t t'"
proof (cases "m_bExpanded t \<or> m_cDimensions_Term pTerm = 0")
  case True
  with assms show ?thesis by (auto simp: Expand_def Let_def split: if_splits)
next
  case False
  from assms False obtain c1 stack where
    "expand_init (m_cScores t) (m_aDimensions t)
        (take (m_cDimensions_Term pTerm) (m_aTermFeatures pTerm)) = Some (c1, stack)"
    by (auto simp: Expand_def Let_def split: if_splits option.splits)
  note init = this
  let ?n = "wrap_size (m_cScores t * m_cTensorBins pTerm)"
  obtain e1 t1 mem1 where en: "EnsureTensorScoreCapacity mem t ?n = (e1, t1, mem1)"
    by (cases "EnsureTensorScoreCapacity mem t ?n")
  note c1 = EnsureTensorScoreCapacity_capacity[OF en]
  show ?thesis
  proof (cases "e1 = Error_None")
    case e: False
    with assms False init en have "t' = t1"
      by (auto simp: Expand_def Let_def split: if_splits)
    with c1 show ?thesis by simp
  next
    case e: True
    with assms False init en obtain s e2 t2 mem2 where
      sp: "expand_splits mem1 (t1\<lparr>m_aTensorScores := s\<rparr>) 0
             (take (m_cDimensions_Term pTerm) (m_aTermFeatures pTerm)) = Some (e2, t2, mem2)"
      and t': "t' = t2 \<or> t' = t2\<lparr>m_bExpanded := True\<rparr>"
      by (auto simp: Expand_def Let_def split: if_splits option.splits)
    have "capacity_le t1 (t1\<lparr>m_aTensorScores := s\<rparr>)" by simp
    moreover note expand_splits_capacity[OF sp]
    moreover have "capacity_le t2 t'" using t' by auto
    ultimately show ?thesis using c1 by (blast intro: capacity_le_trans)
  qed
qed

lemma add_splits_capacity:
  "add_splits mem t rhs stack i n = Some (e, t', mem') \<Longrightarrow> capacity_le t t'"
proof (induction n arbitrary: mem t rhs stack i)
  case 0
  then show ?case by simp
next
  case (Suc n)
  from Suc.prems obtain d2 aDimension2 st stack' where
    l: "rhs = d2 # aDimension2" "stack = st # stack'"
    by (cases rhs; cases stack) auto
  from Suc.prems l obtain e1 t1 mem1 where
    s: "SetCountSlices mem t i (m_cNewSlices st) = Some (e1, t1, mem1)"
    by (auto simp: Let_def split: if_splits option.splits)
  note c1 = SetCountSlices_capacity[OF s] and l1 = SetCountSlices_length[OF s]
  show ?case
  proof (cases "e1 = Error_None")
    case False
    with Suc.prems l s have "t' = t1" by (auto simp: Let_def split: if_splits)
    with c1 show ?thesis by simp
  next
    case True
    with Suc.prems l s obtain sp where
      sp: "add_merge (m_aSplits (m_aDimensions t1 ! i)) (m_aSplits d2)
             (m_cSlices (m_aDimensions t ! i) - 1) (m_cSlices d2 - 1) (m_cNewSlices st - 1) = Some sp"
      by (auto simp: Let_def split: if_splits option.splits)
    let ?t2 = "t1\<lparr>m_aDimensions := (m_aDimensions t1)[i := (m_aDimensions t1 ! i)\<lparr>m_aSplits := sp\<rparr>]\<rparr>"
    have c2: "capacity_le t1 ?t2" using l1 by (intro capacity_le_splits) simp
    from Suc.prems l s True sp
    have "t' = ?t2 \<or> add_splits mem1 ?t2 aDimension2 stack' (i + 1) n = Some (e, t', mem')"
      by (auto simp: Let_def split: if_splits)
    then have "capacity_le ?t2 t'" using Suc.IH by auto
    with c1 c2 show ?thesis by (blast intro: capacity_le_trans)
  qed
qed

lemma Add_capacity:
  assumes "Add fadd mem t rhs = Some (e, t', mem')"
  shows "capacity_le t t'"
proof (cases "m_cDimensions t = 0")
  case True
  with assms show ?thesis by (auto simp: Add_def split: option.splits)
next
  case False
  from assms False obtain c1 c2 c stack where
    init: "add_init (m_cScores t) (m_cScores t) (m_cScores t) (m_aDimensions t) (m_aDimensions rhs)
               (m_cDimensions t) = Some (c1, c2, c, stack)"
    by (auto simp: Add_def split: option.splits)
  obtain e1 t1 mem1 where en: "EnsureTensorScoreCapacity mem t c = (e1, t1, mem1)"
    by (cases "EnsureTensorScoreCapacity mem t c")
  note cap1 = EnsureTensorScoreCapacity_capacity[OF en]
  show ?thesis
  proof (cases "e1 = Error_None")
    case e: False
    with assms False init en have "t' = t1" by (auto simp: Add_def)
    with cap1 show ?thesis by simp
  next
    case e: True
    with assms False init en obtain s where
      sp: "add_splits mem1 (t1\<lparr>m_aTensorScores := s\<rparr>) (m_aDimensions rhs) stack 0 (m_cDimensions t1)
             = Some (e, t', mem')"
      by (auto simp: Add_def split: option.splits)
    have "capacity_le t1 (t1\<lparr>m_aTensorScores := s\<rparr>)" by simp
    with add_splits_capacity[OF sp] cap1 show ?thesis by (blast intro: capacity_le_trans)
  qed
qed

lemma wrap_size_id: "n \<le> size_max \<Longrightarrow> wrap_size n = n"
  by (simp add: wrap_size_def)

lemma wrap_size_mult_left: "wrap_size (wrap_size a * b) = wrap_size (a * b)"
  by (simp add: wrap_size_def mod_mult_left_eq)

lemma count_scores_wrap:
  "wrap_size (count_scores c ds) = wrap_size (c * prod_list (map m_cSlices ds))"
proof (induction ds arbitrary: c)
  case Nil
  then show ?case by simp
next
  case (Cons d ds)
  have "wrap_size (count_scores c (d # ds)) = wrap_size (wrap_size (c * m_cSlices d) * prod_list (map m_cSlices ds))"
    using Cons.IH by simp
  also have "\<dots> = wrap_size (c * m_cSlices d * prod_list (map m_cSlices ds))"
    by (rule wrap_size_mult_left)
  finally show ?case by (simp add: mult.assoc)
qed

lemma count_scores_le: "c \<le> size_max \<Longrightarrow> count_scores c ds \<le> size_max"
proof (induction ds arbitrary: c)
  case Nil
  then show ?case by simp
next
  case (Cons d ds)
  have "wrap_size (c * m_cSlices d) \<le> size_max" by (simp add: wrap_size_def)
  then show ?case using Cons.IH by simp
qed

lemma count_scores_exact:
  assumes "c * prod_list (map m_cSlices ds) \<le> size_max" "c \<le> size_max"
  shows "count_scores c ds = c * prod_list (map m_cSlices ds)"
proof -
  have "count_scores c ds = wrap_size (count_scores c ds)"
    using count_scores_le[OF assms(2)] by (simp add: wrap_size_id)
  also have "\<dots> = wrap_size (c * prod_list (map m_cSlices ds))" by (rule count_scores_wrap)
  also have "\<dots> = c * prod_list (map m_cSlices ds)" using assms(1) by (rule wrap_size_id)
  finally show ?thesis .
qed

lemma count_tensor_scores_exact:
  assumes "m_cDimensions t \<le> length (m_aDimensions t)" "live_score_count t \<le> size_max"
    "m_cScores t \<le> size_max"
  shows "count_tensor_scores t = Some (live_score_count t)"
  using assms count_scores_exact[of "m_cScores t" "take (m_cDimensions t) (m_aDimensions t)"]
  by (simp add: count_tensor_scores_def live_score_count_def)

lemma add_expanded_loop_step:
  "add_expanded_loop rnd from i e scores =
     (if length from \<le> i \<or> length scores \<le> i then None
      else if e \<noteq> i + 1
           then add_expanded_loop rnd from (i + 1) e (scores[i := clamped_sum rnd (scores ! i) (from ! i)])
           else Some (scores[i := clamped_sum rnd (scores ! i) (from ! i)]))"
  by (subst add_expanded_loop.simps) (simp add: Let_def clamped_sum_def)

lemma add_expanded_loop_map:
  assumes "i < e" "e \<le> length scores" "e \<le> length from"
  shows "add_expanded_loop rnd from i e scores =
           Some (take i scores @ map (\<lambda>j. clamped_sum rnd (scores ! j) (from ! j)) [i..<e] @ drop e scores)"
  using assms
proof (induction "e - i" arbitrary: i scores)
  case 0
  then show ?case by simp
next
  case (Suc k)
  let ?v = "clamped_sum rnd (scores ! i) (from ! i)"
  have i: "i < length scores" "i < length from" using Suc.prems by simp_all
  show ?case
  proof (cases "e = i + 1")
    case True
    have "scores[i := ?v] = take i scores @ [?v] @ drop (i + 1) scores"
      using i by (simp add: upd_conv_take_nth_drop)
    with True i show ?thesis
      by (subst add_expanded_loop_step) simp
  next
    case False
    with Suc.prems have lt: "i + 1 < e" by simp
    have k: "k = e - (i + 1)" using Suc.hyps(2) by simp
    have ih: "add_expanded_loop rnd from (i + 1) e (scores[i := ?v]) =
        Some (take (i + 1) (scores[i := ?v]) @
              map (\<lambda>j. clamped_sum rnd (scores[i := ?v] ! j) (from ! j)) [i + 1..<e] @
              drop e (scores[i := ?v]))"
      using Suc.prems lt by (intro Suc.hyps(1)[OF k]) simp_all
    have t: "take (i + 1) (scores[i := ?v]) = take i scores @ [?v]"
      using i by (simp add: take_Suc_conv_app_nth)
    have m: "map (\<lambda>j. clamped_sum rnd (scores[i := ?v] ! j) (from ! j)) [i + 1..<e] =
             map (\<lambda>j. clamped_sum rnd (scores ! j) (from ! j)) [i + 1..<e]"
      by (rule map_cong) auto
    have d: "drop e (scores[i := ?v]) = drop e scores" using lt by simp
    have u: "[i..<e] = i # [i + 1..<e]" using Suc.prems(1) by (simp add: upt_conv_Cons)
    note ih' = ih[unfolded t m d]
    show ?thesis
      using False i ih'
      by (subst add_expanded_loop_step) (simp add: u)
  qed
qed

lemma clamped_sum_not_inf: "\<not> isinf (clamped_sum rnd a b)"
  by (cases a; cases b)
     (auto simp: clamped_sum_def fl_of_real_def numeric_limits_lowest_def numeric_limits_max_def Let_def)

lemma clamped_sum_nan:
  "isnan (clamped_sum rnd a b) \<longleftrightarrow> isnan a \<or> (a = PosInf \<and> b = NegInf) \<or> (a = NegInf \<and> b = PosInf)"
  by (cases a; cases b)
     (auto simp: clamped_sum_def fl_of_real_def numeric_limits_lowest_def numeric_limits_max_def Let_def)

lemma clamped_sum_range:
  "\<not> isnan (clamped_sum rnd a b) \<Longrightarrow>
     fl_le numeric_limits_lowest (clamped_sum rnd a b) \<and> fl_le (clamped_sum rnd a b) numeric_limits_max"
  using flt_max_pos
  by (cases a; cases b)
     (auto simp: clamped_sum_def fl_of_real_def numeric_limits_lowest_def numeric_limits_max_def Let_def)

text \<open>Claim C3, amended. On a tensor whose live scores lie in its buffer and in
  \<open>aFromScores\<close>, \<^verbatim>\<open>AddExpandedWithBadValueProtection\<close> returns, leaves the cells beyond
  the live scores alone, and replaces every live score by the clamped sum of it and the
  addend, a NaN addend counting as zero. No live score is an infinity afterwards. A live
  score is NaN afterwards exactly when it was NaN before, or was an infinity and the addend
  the opposite infinity; every other live score lies between the lowest and the highest
  finite value.\<close>

theorem add_expanded_clamped:
  assumes "m_cDimensions t \<le> length (m_aDimensions t)"
    and "0 < live_score_count t"
    and "live_score_count t \<le> length (m_aTensorScores t)"
    and "length (m_aTensorScores t) \<le> size_max"
    and "live_score_count t \<le> length aFromScores"
  shows "\<exists>aNew.
      AddExpandedWithBadValueProtection rnd t aFromScores = Some (t\<lparr>m_aTensorScores := aNew\<rparr>) \<and>
      length aNew = length (m_aTensorScores t) \<and>
      (\<forall>i. live_score_count t \<le> i \<and> i < length aNew \<longrightarrow> aNew ! i = m_aTensorScores t ! i) \<and>
      (\<forall>i<live_score_count t.
         aNew ! i = clamped_sum rnd (m_aTensorScores t ! i) (aFromScores ! i) \<and>
         \<not> isinf (aNew ! i) \<and>
         (isnan (aNew ! i) \<longleftrightarrow>
            isnan (m_aTensorScores t ! i) \<or>
            (m_aTensorScores t ! i = PosInf \<and> aFromScores ! i = NegInf) \<or>
            (m_aTensorScores t ! i = NegInf \<and> aFromScores ! i = PosInf)) \<and>
         (\<not> isnan (aNew ! i) \<longrightarrow>
            fl_le numeric_limits_lowest (aNew ! i) \<and> fl_le (aNew ! i) numeric_limits_max))"
proof -
  let ?n = "live_score_count t"
  let ?old = "m_aTensorScores t"
  let ?new = "take 0 ?old @ map (\<lambda>j. clamped_sum rnd (?old ! j) (aFromScores ! j)) [0..<?n] @ drop ?n ?old"
  have S: "m_cScores t \<le> size_max"
  proof -
    have "m_cScores t \<le> ?n" using assms(2) by (cases "prod_list (map m_cSlices (take (m_cDimensions t) (m_aDimensions t)))") (auto simp: live_score_count_def)
    with assms(3,4) show ?thesis by simp
  qed
  have cnt: "count_tensor_scores t = Some ?n"
    using assms(1,3,4) S by (intro count_tensor_scores_exact) simp_all
  have loop: "add_expanded_loop rnd aFromScores 0 ?n ?old = Some ?new"
    using assms(2,3,5) by (rule add_expanded_loop_map)
  have run: "AddExpandedWithBadValueProtection rnd t aFromScores = Some (t\<lparr>m_aTensorScores := ?new\<rparr>)"
    by (simp add: AddExpandedWithBadValueProtection_def cnt loop)
  have len: "length ?new = length ?old" using assms(3) by simp
  have hi: "\<forall>i. ?n \<le> i \<and> i < length ?new \<longrightarrow> ?new ! i = ?old ! i"
    using assms(3) by (auto simp: nth_append)
  have lo: "?new ! i = clamped_sum rnd (?old ! i) (aFromScores ! i)" if "i < ?n" for i
    using that by (simp add: nth_append)
  show ?thesis
    using run len hi lo clamped_sum_not_inf clamped_sum_nan clamped_sum_range
    by (intro exI[of _ ?new]) (simp del: take_0 drop_all)
qed

lemma list2_eq: "length xs = 2 \<Longrightarrow> xs = [xs ! 0, xs ! 1]"
  by (cases xs; cases "tl xs") auto

theorem add_expanded_clamped_witness:
  "m_cDimensions example_tensor \<le> length (m_aDimensions example_tensor) \<and>
   0 < live_score_count example_tensor \<and>
   live_score_count example_tensor \<le> length (m_aTensorScores example_tensor) \<and>
   length (m_aTensorScores example_tensor) \<le> size_max \<and>
   live_score_count example_tensor \<le> length [NaN, PosInf] \<and>
   AddExpandedWithBadValueProtection id example_tensor [NaN, PosInf]
     = Some (example_tensor\<lparr>m_aTensorScores := [Finite 1, numeric_limits_max]\<rparr>)"
proof -
  have n: "live_score_count example_tensor = 2"
    by (simp add: live_score_count_def example_tensor_def)
  have h1: "m_cDimensions example_tensor \<le> length (m_aDimensions example_tensor)"
    by (simp add: example_tensor_def)
  have h2: "0 < live_score_count example_tensor" by (simp add: n)
  have h3: "live_score_count example_tensor \<le> length (m_aTensorScores example_tensor)"
    by (simp add: n) (simp add: example_tensor_def)
  have h4: "length (m_aTensorScores example_tensor) \<le> size_max"
    by (simp add: example_tensor_def size_max_eq)
  have h5: "live_score_count example_tensor \<le> length [NaN, PosInf]" by (simp add: n)
  from add_expanded_clamped [OF h1 h2 h3 h4 h5, of id] obtain aNew where
    run: "AddExpandedWithBadValueProtection id example_tensor [NaN, PosInf]
            = Some (example_tensor\<lparr>m_aTensorScores := aNew\<rparr>)"
    and len: "length aNew = length (m_aTensorScores example_tensor)"
    and val: "\<forall>i<live_score_count example_tensor.
         aNew ! i = clamped_sum id (m_aTensorScores example_tensor ! i) ([NaN, PosInf] ! i)"
    by blast
  have l2: "length aNew = 2" using len by (simp add: example_tensor_def)
  have v0: "aNew ! 0 = Finite 1"
    using val flt_max_pos unfolding n
    by (simp add: example_tensor_def clamped_sum_def fl_of_real_def numeric_limits_lowest_def
          numeric_limits_max_def flt_max_def)
  have v1: "aNew ! 1 = numeric_limits_max"
    using val flt_max_pos unfolding n
    by (simp add: example_tensor_def clamped_sum_def numeric_limits_lowest_def numeric_limits_max_def)
  have "aNew = [Finite 1, numeric_limits_max]"
    using list2_eq[OF l2] v0 v1 by simp
  with run h1 h2 h3 h4 h5 show ?thesis by simp
qed

text \<open>Claim C3 as stated fails: a stored NaN stays. The sum of NaN and the addend is
  NaN, and neither comparison of the two clamps holds for NaN.\<close>

theorem stored_nan_stays:
  "AddExpandedWithBadValueProtection id nan_tensor [Finite 0, Finite 0]
     = Some (nan_tensor\<lparr>m_aTensorScores := [NaN, Finite 2]\<rparr>)"
proof -
  have "count_tensor_scores nan_tensor = Some 2"
    by (simp add: count_tensor_scores_def nan_tensor_def example_tensor_def wrap_size_def size_max_eq)
  moreover have "add_expanded_loop id [Finite 0, Finite 0] 0 2 [NaN, Finite 2] = Some [NaN, Finite 2]"
    using flt_max_pos
    by (simp add: add_expanded_loop_step clamped_sum_def fl_of_real_def numeric_limits_lowest_def
          numeric_limits_max_def flt_max_def)
  ultimately show ?thesis
    by (simp add: AddExpandedWithBadValueProtection_def nan_tensor_def example_tensor_def)
qed

theorem set_count_slices_grows_witness:
  "0 < length (m_aDimensions example_tensor) \<and>
   m_cSliceCapacity (m_aDimensions example_tensor ! 0) < 4 \<and>
   SetCountSlices example_allocator example_tensor 0 4 =
     Some (Error_None,
           example_tensor\<lparr>m_aDimensions :=
             [\<lparr> m_cSlices = 4, m_cSliceCapacity = 5, m_aSplits = [1, 0, 0, 0] \<rparr>]\<rparr>,
           example_allocator\<lparr>alloc_requests := [Some 0]\<rparr>) \<and>
   SetCountSlices (example_allocator\<lparr>alloc_requests := [None]\<rparr>) example_tensor 0 4 =
     Some (Error_OutOfMemory, example_tensor, example_allocator\<lparr>alloc_requests := []\<rparr>)"
proof -
  have h1: "0 < length (m_aDimensions example_tensor)" by (simp add: example_tensor_def)
  have h2: "m_cSliceCapacity (m_aDimensions example_tensor ! 0) < 4" by (simp add: example_tensor_def)
  have ok: "SetCountSlices example_allocator example_tensor 0 4 =
     Some (Error_None,
           example_tensor\<lparr>m_aDimensions :=
             [\<lparr> m_cSlices = 4, m_cSliceCapacity = 5, m_aSplits = [1, 0, 0, 0] \<rparr>]\<rparr>,
           example_allocator\<lparr>alloc_requests := [Some 0]\<rparr>)"
    by (simp add: SetCountSlices_def example_tensor_def example_allocator_def realloc_def resize_def
          IsAddError_def IsMultiplyError_def size_max_eq sizeof_UIntSplit_def Let_def upt_conv_Cons)
  from set_count_slices_grows [OF h1 h2, of "example_allocator\<lparr>alloc_requests := [None]\<rparr>"]
  obtain error t' mem' where
    r: "SetCountSlices (example_allocator\<lparr>alloc_requests := [None]\<rparr>) example_tensor 0 4
          = Some (error, t', mem')"
    and oom: "error = Error_OutOfMemory \<longrightarrow> t' = example_tensor"
    and fails: "error = Error_OutOfMemory \<longleftrightarrow>
                IsAddError (4 - 1) ((4 - 1) div 2) \<or>
                IsMultiplyError sizeof_UIntSplit ((4 - 1) + (4 - 1) div 2) \<or>
                fst (realloc (example_allocator\<lparr>alloc_requests := [None]\<rparr>)
                  (m_aSplits (m_aDimensions example_tensor ! 0))
                  (sizeof_UIntSplit * ((4 - 1) + (4 - 1) div 2))) = None"
    by (elim exE conjE) (rule that; assumption)
  have "fst (realloc (example_allocator\<lparr>alloc_requests := [None]\<rparr>)
                  (m_aSplits (m_aDimensions example_tensor ! 0))
                  (sizeof_UIntSplit * ((4 - 1) + (4 - 1) div 2))) = None"
    by (simp add: realloc_def example_allocator_def)
  with fails oom have e: "error = Error_OutOfMemory" "t' = example_tensor" by simp_all
  have "mem' = example_allocator\<lparr>alloc_requests := []\<rparr>"
    using r
    by (simp add: SetCountSlices_def example_tensor_def example_allocator_def realloc_def
          IsAddError_def IsMultiplyError_def size_max_eq sizeof_UIntSplit_def Let_def)
  with r e h1 h2 ok show ?thesis by simp
qed

text \<open>Claim C10. Whatever an operation among \<^verbatim>\<open>Reset\<close>,
  \<^verbatim>\<open>SetCountSlices\<close>, \<^verbatim>\<open>EnsureTensorScoreCapacity\<close>, \<^verbatim>\<open>Copy\<close>,
  \<^verbatim>\<open>MultiplyAndCheckForIssues\<close>, \<^verbatim>\<open>Expand\<close>, \<^verbatim>\<open>Add\<close> and
  \<^verbatim>\<open>AddExpandedWithBadValueProtection\<close> returns, with whatever error code, the score
  capacity and the slice capacity of every dimension of the tensor it leaves are at least
  what they were before.\<close>

theorem capacity_never_shrinks:
  "(Reset tr = Some tr' \<longrightarrow> capacity_le tr tr') \<and>
   (SetCountSlices mem t iDimension cSlices = Some (e1, t1, mem1) \<longrightarrow> capacity_le t t1) \<and>
   (EnsureTensorScoreCapacity mem t cTensorScores = (e2, t2, mem2) \<longrightarrow> capacity_le t t2) \<and>
   (Copy mem t rhs = Some (e3, t3, mem3) \<longrightarrow> capacity_le t t3) \<and>
   (MultiplyAndCheckForIssues rnd tr v = Some (bBad, tm) \<longrightarrow> capacity_le tr tm) \<and>
   (Expand mem t pTerm = Some (e4, t4, mem4) \<longrightarrow> capacity_le t t4) \<and>
   (Add fadd mem t rhs = Some (e5, t5, mem5) \<longrightarrow> capacity_le t t5) \<and>
   (AddExpandedWithBadValueProtection rnd tr aFromScores = Some ta \<longrightarrow> capacity_le tr ta)"
  by (intro conjI impI)
     (erule Reset_capacity SetCountSlices_capacity EnsureTensorScoreCapacity_capacity Copy_capacity
        Multiply_capacity Expand_capacity Add_capacity AddExpanded_capacity)+

lemma flt_max_ge_1000: "1000 \<le> flt_max"
  by (simp add: flt_max_def)

lemma fl_of_real_id: "\<bar>x\<bar> \<le> 1000 \<Longrightarrow> fl_of_real id x = Finite x"
  using flt_max_ge_1000 by (auto simp: fl_of_real_def)

lemmas example_defs = sparse_tensor_def other_tensor_def example_tensor_def example_allocator_def
  example_term_def

lemmas alloc_defs = EnsureTensorScoreCapacity_def AlignedGrow_def SetCountSlices_def realloc_def
  resize_def memcpy_def IsMultiplyError_def IsAddError_def wrap_size_def size_max_eq
  sizeof_FloatScore_def sizeof_UIntSplit_def Let_def upt_conv_Cons

theorem capacity_never_shrinks_witness:
  "capacity_le sparse_tensor
     (sparse_tensor\<lparr>m_aTensorScores := [Finite 0, Finite 2],
        m_aDimensions := [\<lparr> m_cSlices = 1, m_cSliceCapacity = 2, m_aSplits = [1] \<rparr>]\<rparr>) \<and>
   capacity_le sparse_tensor
     (sparse_tensor\<lparr>m_aDimensions := [\<lparr> m_cSlices = 4, m_cSliceCapacity = 5, m_aSplits = [1, 0, 0, 0] \<rparr>]\<rparr>) \<and>
   capacity_le sparse_tensor
     (sparse_tensor\<lparr>m_cTensorScoreCapacity := 40,
        m_aTensorScores := [Finite 1, Finite 2, NaN, NaN, NaN]\<rparr>) \<and>
   capacity_le sparse_tensor other_tensor \<and>
   capacity_le sparse_tensor (sparse_tensor\<lparr>m_aTensorScores := [Finite 2, Finite 4]\<rparr>) \<and>
   capacity_le sparse_tensor
     (sparse_tensor\<lparr>m_cTensorScoreCapacity := 24, m_bExpanded := True,
        m_aTensorScores := [Finite 1, Finite 2, Finite 2],
        m_aDimensions := [\<lparr> m_cSlices = 3, m_cSliceCapacity = 4, m_aSplits = [1, 2, 0] \<rparr>]\<rparr>) \<and>
   capacity_le sparse_tensor
     (sparse_tensor\<lparr>m_cTensorScoreCapacity := 24,
        m_aTensorScores := [Finite 11, Finite 12, Finite 22],
        m_aDimensions := [\<lparr> m_cSlices = 3, m_cSliceCapacity = 4, m_aSplits = [1, 2, 0] \<rparr>]\<rparr>) \<and>
   capacity_le sparse_tensor (sparse_tensor\<lparr>m_aTensorScores := [Finite 1, numeric_limits_max]\<rparr>)"
proof -
  let ?m1 = "example_allocator\<lparr>alloc_requests := [Some 0]\<rparr>"
  let ?m0 = "example_allocator\<lparr>alloc_requests := []\<rparr>"
  let ?reset = "sparse_tensor\<lparr>m_aTensorScores := [Finite 0, Finite 2],
        m_aDimensions := [\<lparr> m_cSlices = 1, m_cSliceCapacity = 2, m_aSplits = [1] \<rparr>]\<rparr>"
  let ?set = "sparse_tensor\<lparr>m_aDimensions := [\<lparr> m_cSlices = 4, m_cSliceCapacity = 5, m_aSplits = [1, 0, 0, 0] \<rparr>]\<rparr>"
  let ?ens = "sparse_tensor\<lparr>m_cTensorScoreCapacity := 40,
        m_aTensorScores := [Finite 1, Finite 2, NaN, NaN, NaN]\<rparr>"
  let ?mul = "sparse_tensor\<lparr>m_aTensorScores := [Finite 2, Finite 4]\<rparr>"
  let ?exp = "sparse_tensor\<lparr>m_cTensorScoreCapacity := 24, m_bExpanded := True,
        m_aTensorScores := [Finite 1, Finite 2, Finite 2],
        m_aDimensions := [\<lparr> m_cSlices = 3, m_cSliceCapacity = 4, m_aSplits = [1, 2, 0] \<rparr>]\<rparr>"
  let ?add = "sparse_tensor\<lparr>m_cTensorScoreCapacity := 24,
        m_aTensorScores := [Finite 11, Finite 12, Finite 22],
        m_aDimensions := [\<lparr> m_cSlices = 3, m_cSliceCapacity = 4, m_aSplits = [1, 2, 0] \<rparr>]\<rparr>"
  let ?clamp = "sparse_tensor\<lparr>m_aTensorScores := [Finite 1, numeric_limits_max]\<rparr>"
  have reset: "Reset sparse_tensor = Some ?reset"
    by (simp add: Reset_def example_defs)
  have setc: "SetCountSlices example_allocator sparse_tensor 0 4 = Some (Error_None, ?set, ?m1)"
    by (simp add: example_defs alloc_defs)
  have ens: "EnsureTensorScoreCapacity example_allocator sparse_tensor 5 = (Error_None, ?ens, ?m1)"
    by (simp add: example_defs alloc_defs)
  have copy: "Copy example_allocator sparse_tensor other_tensor = Some (Error_None, other_tensor, example_allocator)"
    by (simp add: Copy_def example_defs alloc_defs)
  have mul: "MultiplyAndCheckForIssues id sparse_tensor (Finite 2) = Some (False, ?mul)"
    by (simp add: MultiplyAndCheckForIssues_def count_tensor_scores_def multiply_loop.simps
          fl_of_real_id example_defs alloc_defs)
  have expand: "Expand example_allocator sparse_tensor example_term = Some (Error_None, ?exp, ?m0)"
    by (simp add: Expand_def expand_loop.simps expand_copy.simps expand_edges.simps
          example_defs alloc_defs)
  have add: "Add (fl_add id) example_allocator sparse_tensor other_tensor = Some (Error_None, ?add, ?m0)"
    by (simp add: Add_def add_count.simps add_loop.simps add_copy.simps add_merge.simps
          fl_of_real_id example_defs alloc_defs)
  have clamp: "AddExpandedWithBadValueProtection id sparse_tensor [NaN, PosInf] = Some ?clamp"
    using flt_max_ge_1000
    by (simp add: AddExpandedWithBadValueProtection_def count_tensor_scores_def add_expanded_loop_step
          clamped_sum_def fl_of_real_id numeric_limits_max_def numeric_limits_lowest_def
          example_defs alloc_defs)
  from capacity_never_shrinks [of sparse_tensor ?reset example_allocator sparse_tensor 0 4
      Error_None ?set ?m1 5 Error_None ?ens ?m1 other_tensor Error_None other_tensor
      example_allocator id "Finite 2" False ?mul example_term Error_None ?exp ?m0 "fl_add id"
      Error_None ?add ?m0 "[NaN, PosInf]" ?clamp]
    reset setc ens copy mul expand add clamp
  show ?thesis by (simp only: simp_thms)
qed

section \<open>The step function: slices and cells\<close>

lemma slice_of_card: "distinct xs \<Longrightarrow> slice_of xs b = card {x \<in> set xs. x \<le> b}"
  by (simp add: slice_of_def distinct_length_filter Int_def conj_commute)

lemma strict_sorted_distinct: "sorted_wrt (<) (xs::nat list) \<Longrightarrow> distinct xs"
  by (induction xs) auto

lemma slice_of_le_length: "slice_of xs b \<le> length xs"
  by (simp add: slice_of_def)

lemma slice_of_mono: "b \<le> b' \<Longrightarrow> slice_of xs b \<le> slice_of xs b'"
  unfolding slice_of_def
  by (induction xs) auto

lemma filter_le_take:
  "sorted_wrt (<) (xs::nat list) \<Longrightarrow> filter (\<lambda>s. s \<le> b) xs = take (slice_of xs b) xs"
proof (induction xs)
  case Nil
  then show ?case by (simp add: slice_of_def)
next
  case (Cons x xs)
  show ?case
  proof (cases "x \<le> b")
    case True
    with Cons show ?thesis by (simp add: slice_of_def)
  next
    case False
    with Cons.prems have "\<forall>y\<in>set xs. \<not> y \<le> b" by auto
    then have "filter (\<lambda>s. s \<le> b) xs = []" by (simp add: filter_empty_conv)
    with False show ?thesis by (simp add: slice_of_def)
  qed
qed

lemma nth_below_slice:
  assumes "sorted_wrt (<) (xs::nat list)" "i < slice_of xs b"
  shows "xs ! i \<le> b"
proof -
  have "xs ! i = take (slice_of xs b) xs ! i" using assms(2) by simp
  also have "\<dots> = filter (\<lambda>s. s \<le> b) xs ! i" using filter_le_take[OF assms(1)] by simp
  finally have "xs ! i \<in> set (filter (\<lambda>s. s \<le> b) xs)"
    using assms(2) by (metis nth_mem slice_of_def)
  then show ?thesis by simp
qed

lemma nth_above_slice:
  assumes "sorted_wrt (<) (xs::nat list)" "slice_of xs b \<le> i" "i < length xs"
  shows "b < xs ! i"
proof (rule ccontr)
  assume "\<not> b < xs ! i"
  then have "xs ! i \<in> set (filter (\<lambda>s. s \<le> b) xs)" using assms(3) by simp
  then have "xs ! i \<in> set (take (slice_of xs b) xs)" using filter_le_take[OF assms(1)] by simp
  then obtain j where j: "j < slice_of xs b" "j < length xs" "xs ! j = xs ! i"
    by (auto simp: in_set_conv_nth)
  with assms(1,3) strict_sorted_distinct have "j = i" by (simp add: nth_eq_iff_index_eq)
  with j assms(2) show False by simp
qed

text \<open>The last split at or below \<open>z\<close> is \<open>z\<close> exactly when \<open>z\<close> is a split.\<close>

lemma last_split_below:
  assumes "sorted_wrt (<) (xs::nat list)" "0 < slice_of xs z"
  shows "xs ! (slice_of xs z - 1) \<le> z"
    and "z \<le> xs ! (slice_of xs z - 1) \<longleftrightarrow> z \<in> set xs"
proof -
  let ?s = "slice_of xs z"
  show le: "xs ! (?s - 1) \<le> z" using assms by (intro nth_below_slice) simp_all
  have len: "?s - 1 < length xs" using assms(2) slice_of_le_length[of xs z] by simp
  show "z \<le> xs ! (?s - 1) \<longleftrightarrow> z \<in> set xs"
  proof
    assume "z \<le> xs ! (?s - 1)"
    with le have "xs ! (?s - 1) = z" by simp
    with len show "z \<in> set xs" by (metis nth_mem)
  next
    assume "z \<in> set xs"
    then obtain j where j: "j < length xs" "xs ! j = z" by (auto simp: in_set_conv_nth)
    have "j < ?s"
    proof (rule ccontr)
      assume "\<not> j < ?s"
      then have "z < xs ! j" using assms(1) j(1) by (intro nth_above_slice) simp_all
      with j show False by simp
    qed
    then have "j \<le> ?s - 1" by simp
    then have "xs ! j \<le> xs ! (?s - 1)"
      using assms(1) len by (cases "j = ?s - 1") (auto simp: sorted_wrt_iff_nth_less less_imp_le)
    with j show "z \<le> xs ! (?s - 1)" by simp
  qed
qed

lemma no_slice_no_split: "slice_of xs z = 0 \<Longrightarrow> z \<notin> set xs"
  by (auto simp: slice_of_def filter_empty_conv)

text \<open>Stepping down over a gap without splits.\<close>

lemma slice_of_gap:
  assumes "distinct xs" "r < z" "\<forall>x\<in>set xs. \<not> (r < x \<and> x < z)"
  shows "slice_of xs r = (if z \<in> set xs then slice_of xs z - 1 else slice_of xs z)"
proof -
  have eq: "{x \<in> set xs. x \<le> z} = {x \<in> set xs. x \<le> r} \<union> ({z} \<inter> set xs)"
    using assms(2,3) by (auto simp: not_less)
  have disj: "{x \<in> set xs. x \<le> r} \<inter> ({z} \<inter> set xs) = {}" using assms(2) by auto
  have "card {x \<in> set xs. x \<le> z} = card {x \<in> set xs. x \<le> r} + card ({z} \<inter> set xs)"
    unfolding eq by (intro card_Un_disjoint) (use disj in auto)
  then show ?thesis
    using assms(1) by (auto simp: slice_of_card)
qed

lemma slice_of_same:
  assumes "distinct xs" "r \<le> b" "\<forall>x\<in>set xs. \<not> (r < x \<and> x \<le> b)"
  shows "slice_of xs b = slice_of xs r"
proof -
  have "{x \<in> set xs. x \<le> b} = {x \<in> set xs. x \<le> r}"
    using assms(2,3) by (auto simp: not_less)
  then show ?thesis using assms(1) by (simp add: slice_of_card)
qed

lemma strict_sorted_nth_ge:
  assumes "sorted_wrt (<) (xs::nat list)" "\<forall>x\<in>set xs. 0 < x" "i < length xs"
  shows "i + 1 \<le> xs ! i"
  using assms(3)
proof (induction i)
  case 0
  then show ?case using assms(2) by (simp add: Suc_leI)
next
  case (Suc i)
  then have "xs ! i < xs ! Suc i" using assms(1) by (simp add: sorted_wrt_iff_nth_less)
  with Suc show ?case by simp
qed

lemma slice_of_le_bin:
  assumes "sorted_wrt (<) (xs::nat list)" "\<forall>x\<in>set xs. 0 < x"
  shows "slice_of xs b \<le> b"
proof (rule ccontr)
  assume "\<not> slice_of xs b \<le> b"
  then have lt: "b < slice_of xs b" by simp
  then have "xs ! b \<le> b" using assms(1) by (rule nth_below_slice[rotated])
  moreover have "b + 1 \<le> xs ! b"
    using assms lt slice_of_le_length[of xs b] by (intro strict_sorted_nth_ge) simp_all
  ultimately show False by simp
qed

lemma slice_of_all:
  "\<forall>x\<in>set xs. x \<le> b \<Longrightarrow> slice_of xs b = length xs"
  by (simp add: slice_of_def)

lemma slice_of_zero: "\<forall>x\<in>set xs. 0 < x \<Longrightarrow> slice_of xs 0 = 0"
  by (auto simp: slice_of_def filter_empty_conv)

subsection \<open>cells\<close>

lemma valid_cell_Cons [simp]:
  "valid_cell (n # ns) (b # bs) \<longleftrightarrow> b < n \<and> valid_cell ns bs"
  by (simp add: valid_cell_def)

lemma valid_cell_Nil [simp]: "valid_cell [] bs \<longleftrightarrow> bs = []" "valid_cell ns [] \<longleftrightarrow> ns = []"
  by (auto simp: valid_cell_def)

lemma valid_cell_length: "valid_cell ns bs \<Longrightarrow> length bs = length ns"
  by (simp add: valid_cell_def list_all2_lengthD)

lemma valid_cell_ConsD:
  "valid_cell (n # ns) bs \<Longrightarrow> \<exists>b bs'. bs = b # bs' \<and> b < n \<and> valid_cell ns bs'"
  by (cases bs) auto

lemma cell_offset_less: "valid_cell ns bs \<Longrightarrow> cell_offset ns bs < prod_list ns"
proof (induction ns arbitrary: bs)
  case Nil
  then show ?case by simp
next
  case (Cons n ns)
  then obtain b bs' where bs: "bs = b # bs'" "b < n" "valid_cell ns bs'"
    using valid_cell_ConsD by blast
  with Cons.IH have "cell_offset ns bs' + 1 \<le> prod_list ns" by (simp add: Suc_leI)
  then have "n * (cell_offset ns bs' + 1) \<le> n * prod_list ns" by (rule mult_le_mono2)
  with bs show ?case by simp
qed

lemma cell_offset_inj:
  "valid_cell ns bs \<Longrightarrow> valid_cell ns bs' \<Longrightarrow> cell_offset ns bs = cell_offset ns bs' \<Longrightarrow> bs = bs'"
proof (induction ns arbitrary: bs bs')
  case Nil
  then show ?case by simp
next
  case (Cons n ns)
  from Cons.prems obtain b cs where bs: "bs = b # cs" "b < n" "valid_cell ns cs"
    using valid_cell_ConsD by blast
  from Cons.prems obtain b' cs' where bs': "bs' = b' # cs'" "b' < n" "valid_cell ns cs'"
    using valid_cell_ConsD by blast
  from Cons.prems(3) bs bs' have eq: "b + n * cell_offset ns cs = b' + n * cell_offset ns cs'" by simp
  then have "(b + n * cell_offset ns cs) mod n = (b' + n * cell_offset ns cs') mod n" by simp
  with bs(2) bs'(2) have b: "b = b'" by simp
  with eq bs(2) have "cell_offset ns cs = cell_offset ns cs'" by simp
  with Cons.IH bs bs' b show ?case by simp
qed

lemma previous_cell_valid:
  "valid_cell ns bs \<Longrightarrow> 0 < cell_offset ns bs \<Longrightarrow> valid_cell ns (previous_cell ns bs)"
proof (induction ns arbitrary: bs)
  case Nil
  then show ?case by simp
next
  case (Cons n ns)
  then obtain b bs' where bs: "bs = b # bs'" "b < n" "valid_cell ns bs'"
    using valid_cell_ConsD by blast
  show ?case
  proof (cases "0 < b")
    case True
    with bs show ?thesis by simp
  next
    case False
    with Cons.prems(2) bs have "0 < cell_offset ns bs'" by (cases "cell_offset ns bs'") auto
    with Cons.IH bs False show ?thesis by simp
  qed
qed

lemma previous_cell_offset:
  "valid_cell ns bs \<Longrightarrow> 0 < cell_offset ns bs \<Longrightarrow>
     cell_offset ns (previous_cell ns bs) + 1 = cell_offset ns bs"
proof (induction ns arbitrary: bs)
  case Nil
  then show ?case by simp
next
  case (Cons n ns)
  then obtain b bs' where bs: "bs = b # bs'" "b < n" "valid_cell ns bs'"
    using valid_cell_ConsD by blast
  show ?case
  proof (cases "0 < b")
    case True
    with bs show ?thesis by simp
  next
    case False
    with Cons.prems(2) bs have pos: "0 < cell_offset ns bs'" by (cases "cell_offset ns bs'") auto
    from Cons.IH[OF bs(3) pos] have "n * (cell_offset ns (previous_cell ns bs') + 1) = n * cell_offset ns bs'"
      by simp
    with bs False show ?thesis by (simp add: algebra_simps)
  qed
qed

lemma last_cell_valid: "\<forall>n\<in>set ns. 0 < n \<Longrightarrow> valid_cell ns (last_cell ns)"
  by (induction ns) (auto simp: last_cell_def)

lemma last_cell_offset: "\<forall>n\<in>set ns. 0 < n \<Longrightarrow> cell_offset ns (last_cell ns) + 1 = prod_list ns"
proof (induction ns)
  case Nil
  then show ?case by (simp add: last_cell_def)
next
  case (Cons n ns)
  then have ih: "cell_offset ns (last_cell ns) + 1 = prod_list ns" and n: "0 < n" by simp_all
  have "n - 1 + n * cell_offset ns (last_cell ns) + 1 = n * (cell_offset ns (last_cell ns) + 1)"
    using n by (simp add: algebra_simps)
  with ih show ?case by (simp add: last_cell_def)
qed

lemma cell_offset_mono:
  "list_all2 (\<le>) cs ns \<Longrightarrow> list_all2 (\<le>) is bs \<Longrightarrow> length is = length cs \<Longrightarrow>
     cell_offset cs is \<le> cell_offset ns bs"
proof (induction cs arbitrary: ns "is" bs)
  case Nil
  then show ?case by simp
next
  case (Cons c cs)
  from Cons.prems(1) obtain n ns' where ns: "ns = n # ns'" "c \<le> n" "list_all2 (\<le>) cs ns'"
    by (auto simp: list_all2_Cons1)
  from Cons.prems(3) obtain i is' where "is": "is = i # is'" "length is' = length cs"
    by (cases "is") auto
  from Cons.prems(2) "is" obtain b bs' where bs: "bs = b # bs'" "i \<le> b" "list_all2 (\<le>) is' bs'"
    by (auto simp: list_all2_Cons1)
  have "cell_offset cs is' \<le> cell_offset ns' bs'" using ns "is" bs by (intro Cons.IH)
  then have "c * cell_offset cs is' \<le> n * cell_offset ns' bs'" using ns(2) by (rule mult_le_mono[rotated])
  with ns "is" bs show ?case by simp
qed

lemma cell_offset_zero_first:
  "valid_cell ns bs \<Longrightarrow> cell_offset ns bs = 0 \<Longrightarrow> bs' \<noteq> bs \<Longrightarrow> valid_cell ns bs' \<Longrightarrow>
     0 < cell_offset ns bs'"
  using cell_offset_inj by (cases "cell_offset ns bs'") auto

section \<open>Expand\<close>

lemma wf_dimension_splits:
  assumes "wf_dimension d"
  shows "length (live_splits d) = m_cSlices d - 1"
    and "sorted_wrt (<) (live_splits d)"
    and "distinct (live_splits d)"
    and "\<forall>s\<in>set (live_splits d). 0 < s"
    and "i < m_cSlices d - 1 \<Longrightarrow> m_aSplits d ! i = live_splits d ! i"
    and "i < m_cSlices d - 1 \<Longrightarrow> i < length (m_aSplits d)"
    and "1 \<le> m_cSlices d"
  using assms
  by (auto simp: wf_dimension_def live_splits_def list_all_iff strict_sorted_distinct)

lemma slice_of_previous_bin:
  assumes "wf_dimension d" "0 < b"
  shows "slice_of (live_splits d) (b - 1) =
           (if b \<in> set (live_splits d) then slice_of (live_splits d) b - 1 else slice_of (live_splits d) b)"
  using assms wf_dimension_splits(3)[OF assms(1)]
  by (intro slice_of_gap) auto

lemma slice_of_last_bin:
  assumes "wf_dimension d" "fits_bins d n"
  shows "slice_of (live_splits d) (n - 1) = m_cSlices d - 1"
proof -
  have "\<forall>x\<in>set (live_splits d). x \<le> n - 1"
    using assms(2) by (auto simp: fits_bins_def list_all_iff)
  then show ?thesis
    using wf_dimension_splits(1)[OF assms(1)] by (simp add: slice_of_all)
qed

lemma prod_slices_pos: "list_all2 (\<lambda>d n. wf_dimension d \<and> fits_bins d n) ds ns \<Longrightarrow>
    0 < prod_list (map m_cSlices ds)"
  by (induction ds ns rule: list_all2_induct) (auto simp: wf_dimension_def)

lemma expand_step_correct:
  assumes "list_all2 (\<lambda>d n. wf_dimension d \<and> fits_bins d n) ds ns"
    and "valid_cell ns bs" and "0 < cell_offset ns bs"
    and "mult * prod_list (map m_cSlices ds) \<le> size_max"
  shows "expand_step mult (ds @ rest) (expand_stack ds ns bs)
            (mult * (cell_offset (map m_cSlices ds) (source_cell ds bs) + 1)) =
         Some (expand_stack ds ns (previous_cell ns bs),
               mult * (cell_offset (map m_cSlices ds) (source_cell ds (previous_cell ns bs)) + 1))"
  using assms
proof (induction ds ns arbitrary: bs mult rule: list_all2_induct)
  case Nil
  then show ?case by simp
next
  case (Cons d ds n ns)
  from Cons.prems(1) obtain b bs' where bs: "bs = b # bs'" "b < n" "valid_cell ns bs'"
    using valid_cell_ConsD by blast
  note wf = Cons.hyps(1)[THEN conjunct1] and fb = Cons.hyps(1)[THEN conjunct2]
  note sp = wf_dimension_splits[OF wf]
  let ?xs = "live_splits d"
  let ?s = "slice_of ?xs b"
  let ?c = "m_cSlices d"
  let ?cs = "map m_cSlices ds"
  let ?off = "cell_offset ?cs (source_cell ds bs')"
  have c1: "1 \<le> ?c" by (rule sp(7))
  have s_le: "?s \<le> ?c - 1" using slice_of_le_length[of ?xs b] sp(1) by simp
  show ?case
  proof (cases "0 < ?s")
    case True
    have idx: "?s - 1 < ?c - 1" using True s_le by simp
    have rd: "m_aSplits d ! (?s - 1) = ?xs ! (?s - 1)" "?s - 1 < length (m_aSplits d)"
      using sp(5,6)[OF idx] by simp_all
    have mv: "b \<le> ?xs ! (?s - 1) \<longleftrightarrow> b \<in> set ?xs"
      using last_split_below(2)[OF sp(2) True] .
    have "?xs ! (?s - 1) \<le> b" using last_split_below(1)[OF sp(2) True] .
    moreover have "0 < ?xs ! (?s - 1)" using sp(4) idx sp(1) by simp
    ultimately have bpos: "0 < b" by simp
    have prev: "slice_of ?xs (b - 1) = (if b \<in> set ?xs then ?s - 1 else ?s)"
      using slice_of_previous_bin[OF wf bpos] .
    have ge: "mult \<le> mult * (?s + ?c * ?off + 1)" by simp
    have sub: "mult * (?s + ?c * ?off + 1) - mult = mult * (?s - 1 + ?c * ?off + 1)"
      using True by (cases ?s) (simp_all add: algebra_simps)
    obtain s' where s': "?s = Suc s'" using True by (cases ?s) auto
    show ?thesis
      using bs bpos rd mv prev s'
      by (auto simp: Let_def not_less algebra_simps)
  next
    case s0: False
    then have s0': "?s = 0" by simp
    show ?thesis
    proof (cases "0 < b")
      case True
      have "b \<notin> set ?xs" using no_slice_no_split[OF s0'] .
      then have prev: "slice_of ?xs (b - 1) = 0"
        using slice_of_previous_bin[OF wf True] s0' by simp
      show ?thesis using True bs s0' prev by (simp add: Let_def)
    next
      case False
      then have b0: "b = 0" by simp
      from Cons.prems(2) bs b0 have pos: "0 < cell_offset ns bs'"
        by (cases "cell_offset ns bs'") auto
      have ppos: "0 < prod_list ?cs" using Cons.hyps(2) by (rule prod_slices_pos)
      have "mult * ?c * 1 \<le> mult * ?c * prod_list ?cs" using ppos by (intro mult_le_mono2) simp
      moreover have "mult * ?c * prod_list ?cs \<le> size_max" using Cons.prems(3) by (simp add: mult.assoc)
      ultimately have fit: "mult * ?c \<le> size_max" by linarith
      then have wr: "wrap_size (mult * ?c) = mult * ?c" by (rule wrap_size_id)
      have fit': "mult * ?c * prod_list ?cs \<le> size_max" using Cons.prems(3) by (simp add: mult.assoc)
      have last: "slice_of ?xs (n - 1) = ?c - 1" using slice_of_last_bin[OF wf fb] .
      have n1: "1 \<le> n" using fb by (simp add: fits_bins_def)
      define P where "P = mult * (cell_offset (map m_cSlices (d # ds)) (source_cell (d # ds) bs) + 1)"
      define Q where "Q = mult * ?c * (?off + 1)"
      define R where "R = mult * ?c * (cell_offset ?cs (source_cell ds (previous_cell ns bs')) + 1)"
      define R' where "R' = mult * (cell_offset (map m_cSlices (d # ds))
                                (source_cell (d # ds) (previous_cell (n # ns) bs)) + 1)"
      have ih: "expand_step (mult * ?c) (ds @ rest) (expand_stack ds ns bs') Q =
                  Some (expand_stack ds ns (previous_cell ns bs'), R)"
        unfolding Q_def R_def using Cons.IH[OF bs(3) pos fit'] .
      have p1: "\<not> P < mult" unfolding P_def by simp
      have p2: "P - mult + mult * ?c = Q"
        unfolding P_def Q_def using bs b0 s0' by (simp add: algebra_simps)
      have q: "R = R'"
        unfolding R_def R'_def using c1 bs b0 last by (cases ?c) (simp_all add: algebra_simps)
      have "expand_step mult ((d # ds) @ rest) (expand_stack (d # ds) (n # ns) bs) P =
              Some (expand_stack (d # ds) (n # ns) (previous_cell (n # ns) bs), R)"
        using bs b0 s0' wr p1 p2 ih last n1 by (simp add: Let_def)
      then show ?thesis unfolding q unfolding P_def R'_def .
    qed
  qed
qed

lemma slices_le_bins:
  assumes "wf_dimension d" "fits_bins d n"
  shows "m_cSlices d \<le> n"
proof -
  have "slice_of (live_splits d) (n - 1) \<le> n - 1"
    using wf_dimension_splits(2,4)[OF assms(1)] by (rule slice_of_le_bin)
  then have "m_cSlices d - 1 \<le> n - 1" using slice_of_last_bin[OF assms] by simp
  moreover have "1 \<le> n" using assms(2) by (simp add: fits_bins_def)
  ultimately show ?thesis by simp
qed

lemma source_offset_le:
  assumes "fits ds ns" "valid_cell ns bs"
  shows "source_offset ds bs \<le> cell_offset ns bs"
  unfolding source_offset_def using assms
proof (induction ds ns arbitrary: bs rule: list_all2_induct)
  case Nil
  then show ?case by simp
next
  case (Cons d ds n ns)
  from Cons.prems obtain b bs' where bs: "bs = b # bs'" "b < n" "valid_cell ns bs'"
    using valid_cell_ConsD by blast
  have a: "slice_of (live_splits d) b \<le> b"
    using wf_dimension_splits(2,4)[OF Cons.hyps(1)[THEN conjunct1]] by (rule slice_of_le_bin)
  have b: "m_cSlices d \<le> n" using Cons.hyps(1) slices_le_bins by blast
  have c: "cell_offset (map m_cSlices ds) (source_cell ds bs') \<le> cell_offset ns bs'"
    using Cons.IH[OF bs(3)] .
  show ?case using bs a b c by (simp add: add_mono mult_le_mono)
qed

lemma expand_copy_correct:
  assumes "0 < S" "S \<le> p1" "p1 \<le> tp" "tp \<le> length scores"
  shows "\<exists>scores'. expand_copy p1 tp (tp - S) scores = Some (scores', tp - S) \<and>
           length scores' = length scores \<and>
           (\<forall>i<length scores. scores' ! i =
              (if tp - S \<le> i \<and> i < tp then scores ! (i + p1 - tp) else scores ! i))"
  using assms
proof (induction S arbitrary: p1 tp scores)
  case 0
  then show ?case by simp
next
  case (Suc k)
  let ?s1 = "scores[tp - 1 := scores ! (p1 - 1)]"
  have nz: "p1 \<noteq> 0" "tp \<noteq> 0" "\<not> length scores \<le> p1 - 1" "\<not> length scores \<le> tp - 1"
    using Suc.prems by simp_all
  show ?case
  proof (cases "k = 0")
    case True
    have "expand_copy p1 tp (tp - Suc k) scores = Some (?s1, tp - Suc k)"
      using nz True by (subst expand_copy.simps) (simp add: Let_def)
    moreover have "\<forall>i<length scores. ?s1 ! i =
              (if tp - Suc k \<le> i \<and> i < tp then scores ! (i + p1 - tp) else scores ! i)"
      using True Suc.prems by (auto simp: nth_list_update)
    ultimately show ?thesis by simp
  next
    case False
    have ne: "tp - Suc k \<noteq> tp - 1" using False Suc.prems by linarith
    have e: "tp - Suc k = tp - 1 - k" by simp
    have rec: "expand_copy p1 tp (tp - Suc k) scores = expand_copy (p1 - 1) (tp - 1) (tp - 1 - k) ?s1"
      unfolding e[symmetric] using nz ne by (subst expand_copy.simps) (simp add: Let_def)
    have "\<exists>scores'. expand_copy (p1 - 1) (tp - 1) (tp - 1 - k) ?s1 = Some (scores', tp - 1 - k) \<and>
           length scores' = length ?s1 \<and>
           (\<forall>i<length ?s1. scores' ! i =
              (if tp - 1 - k \<le> i \<and> i < tp - 1 then ?s1 ! (i + (p1 - 1) - (tp - 1)) else ?s1 ! i))"
      using False Suc.prems by (intro Suc.IH) simp_all
    then obtain scores' where r: "expand_copy (p1 - 1) (tp - 1) (tp - 1 - k) ?s1 = Some (scores', tp - 1 - k)"
      "length scores' = length scores"
      "\<forall>i<length scores. scores' ! i =
              (if tp - 1 - k \<le> i \<and> i < tp - 1 then ?s1 ! (i + (p1 - 1) - (tp - 1)) else ?s1 ! i)"
      by auto
    have "\<forall>i<length scores. scores' ! i =
              (if tp - Suc k \<le> i \<and> i < tp then scores ! (i + p1 - tp) else scores ! i)"
    proof (intro allI impI)
      fix i assume i: "i < length scores"
      show "scores' ! i = (if tp - Suc k \<le> i \<and> i < tp then scores ! (i + p1 - tp) else scores ! i)"
      proof (cases "tp - 1 - k \<le> i \<and> i < tp - 1")
        case True
        then have a: "i < tp" "tp - Suc k \<le> i" by linarith+
        have b: "scores' ! i = ?s1 ! (i + (p1 - 1) - (tp - 1))" using r(3) i True by simp
        have c: "i + (p1 - 1) - (tp - 1) \<noteq> tp - 1" using Suc.prems True by linarith
        have d: "i + (p1 - 1) - (tp - 1) = i + p1 - tp" using Suc.prems True by linarith
        have "?s1 ! (i + (p1 - 1) - (tp - 1)) = scores ! (i + p1 - tp)"
          using c unfolding d by (simp add: nth_list_update)
        then show ?thesis using a b by simp
      next
        case False
        then show ?thesis using r(3) i Suc.prems by (auto simp: nth_list_update)
      qed
    qed
    then show ?thesis using rec r(1,2) by simp
  qed
qed

lemma expand_loop_correct:
  assumes "fits ds ns" "valid_cell ns bs" "0 < S"
    and "S * prod_list (map m_cSlices ds) \<le> size_max"
    and "S * prod_list ns \<le> length cur"
    and "length old = length cur"
    and "\<forall>i < S * (cell_offset ns bs + 1). cur ! i = old ! i"
  shows "\<exists>fin. expand_loop S (ds @ rest) (expand_stack ds ns bs)
                  (S * (source_offset ds bs + 1)) (S * (cell_offset ns bs + 1)) cur = Some fin \<and>
           length fin = length cur \<and>
           (\<forall>i. S * (cell_offset ns bs + 1) \<le> i \<longrightarrow> i < length cur \<longrightarrow> fin ! i = cur ! i) \<and>
           (\<forall>bs'. valid_cell ns bs' \<longrightarrow> cell_offset ns bs' \<le> cell_offset ns bs \<longrightarrow>
              (\<forall>k<S. fin ! (S * cell_offset ns bs' + k) = old ! (S * source_offset ds bs' + k)))"
  using assms(2,5,6,7)
proof (induction "cell_offset ns bs" arbitrary: bs cur)
  case 0
  let ?tp = "S * (cell_offset ns bs + 1)"
  let ?p1 = "S * (source_offset ds bs + 1)"
  have so: "source_offset ds bs = 0" using source_offset_le[OF assms(1) "0.prems"(1)] "0.hyps" by simp
  have tp: "?tp = S" "?p1 = S" using "0.hyps" so by simp_all
  have "S \<le> length cur"
  proof -
    have "cell_offset ns bs < prod_list ns" using "0.prems"(1) by (rule cell_offset_less)
    then have "S \<le> S * prod_list ns" by simp
    then show ?thesis using "0.prems"(2) by (rule le_trans)
  qed
  from expand_copy_correct[OF assms(3) _ _ this, of S] obtain fin where
    f: "expand_copy S S (S - S) cur = Some (fin, S - S)" "length fin = length cur"
       "\<forall>i<length cur. fin ! i = (if S - S \<le> i \<and> i < S then cur ! (i + S - S) else cur ! i)"
    by auto
  have run: "expand_loop S (ds @ rest) (expand_stack ds ns bs) ?p1 ?tp cur = Some fin"
    unfolding tp using f(1) by (subst expand_loop.simps) simp
  have a: "\<forall>i. ?tp \<le> i \<longrightarrow> i < length cur \<longrightarrow> fin ! i = cur ! i"
    unfolding tp using f(3) by simp
  have b: "\<forall>bs'. valid_cell ns bs' \<longrightarrow> cell_offset ns bs' \<le> cell_offset ns bs \<longrightarrow>
              (\<forall>k<S. fin ! (S * cell_offset ns bs' + k) = old ! (S * source_offset ds bs' + k))"
  proof (intro allI impI)
    fix bs' k assume v: "valid_cell ns bs'" and le: "cell_offset ns bs' \<le> cell_offset ns bs" and k: "k < S"
    have "bs' = bs" using cell_offset_inj[OF v "0.prems"(1)] le "0.hyps" by simp
    then have z: "cell_offset ns bs' = 0" "source_offset ds bs' = 0" using "0.hyps" so by simp_all
    have "k < length cur" using k \<open>S \<le> length cur\<close> by simp
    then have "fin ! k = cur ! k" using f(3) k by simp
    also have "\<dots> = old ! k" using "0.prems"(4) k tp by simp
    finally show "fin ! (S * cell_offset ns bs' + k) = old ! (S * source_offset ds bs' + k)"
      using z by simp
  qed
  show ?case using run f(2) a b by blast
next
  case (Suc m)
  let ?off = "cell_offset ns bs"
  let ?src = "source_offset ds bs"
  let ?tp = "S * (?off + 1)"
  let ?p1 = "S * (?src + 1)"
  let ?pb = "previous_cell ns bs"
  have pos: "0 < ?off" using Suc.hyps(2) by simp
  have sle: "?src \<le> ?off" using source_offset_le[OF assms(1) Suc.prems(1)] .
  have lt: "?off < prod_list ns" using Suc.prems(1) by (rule cell_offset_less)
  have tpl: "?tp \<le> length cur"
  proof -
    have "S * (?off + 1) \<le> S * prod_list ns" using lt by (intro mult_le_mono2) simp
    then show ?thesis using Suc.prems(2) by simp
  qed
  have p1top: "?p1 \<le> ?tp" using sle by simp
  have Sp1: "S \<le> ?p1" by simp
  have tS: "?tp - S = S * ?off" by (simp add: algebra_simps)
  from expand_copy_correct[OF assms(3) Sp1 p1top tpl] obtain mid where
    f: "expand_copy ?p1 ?tp (S * ?off) cur = Some (mid, S * ?off)" "length mid = length cur"
       "\<forall>i<length cur. mid ! i = (if S * ?off \<le> i \<and> i < ?tp then cur ! (i + ?p1 - ?tp) else cur ! i)"
    unfolding tS by auto
  have pv: "valid_cell ns ?pb" using previous_cell_valid[OF Suc.prems(1) pos] .
  have po: "cell_offset ns ?pb + 1 = ?off" using previous_cell_offset[OF Suc.prems(1) pos] .
  then have pm: "m = cell_offset ns ?pb" using Suc.hyps(2) by simp
  have step: "expand_step S (ds @ rest) (expand_stack ds ns bs) ?p1 =
                Some (expand_stack ds ns ?pb, S * (source_offset ds ?pb + 1))"
    unfolding source_offset_def using expand_step_correct[OF assms(1) Suc.prems(1) pos assms(4)] .
  have tp': "S * ?off = S * (cell_offset ns ?pb + 1)" using po by simp
  have midold: "\<forall>i < S * (cell_offset ns ?pb + 1). mid ! i = old ! i"
  proof (intro allI impI)
    fix i assume "i < S * (cell_offset ns ?pb + 1)"
    then have i: "i < S * ?off" unfolding tp' .
    then have "i < ?tp" by simp
    then have "i < length cur" using tpl by simp
    then have "mid ! i = cur ! i" using f(3) i by simp
    then show "mid ! i = old ! i" using Suc.prems(4) \<open>i < ?tp\<close> by simp
  qed
  have ml: "S * prod_list ns \<le> length mid" "length old = length mid"
    using Suc.prems(2,3) f(2) by simp_all
  from Suc.hyps(1)[OF pm pv ml midold] obtain fin where
    r: "expand_loop S (ds @ rest) (expand_stack ds ns ?pb)
          (S * (source_offset ds ?pb + 1)) (S * (cell_offset ns ?pb + 1)) mid = Some fin"
       "length fin = length mid"
       "\<forall>i. S * (cell_offset ns ?pb + 1) \<le> i \<longrightarrow> i < length mid \<longrightarrow> fin ! i = mid ! i"
       "\<forall>bs'. valid_cell ns bs' \<longrightarrow> cell_offset ns bs' \<le> cell_offset ns ?pb \<longrightarrow>
              (\<forall>k<S. fin ! (S * cell_offset ns bs' + k) = old ! (S * source_offset ds bs' + k))"
    by blast
  have nz: "S * ?off \<noteq> 0" using pos assms(3) by simp
  have ge: "\<not> ?tp < S" by simp
  have run: "expand_loop S (ds @ rest) (expand_stack ds ns bs) ?p1 ?tp cur = Some fin"
    using f(1) step r(1) nz ge tS tp' assms(3) by (subst expand_loop.simps) simp
  have a: "\<forall>i. ?tp \<le> i \<longrightarrow> i < length cur \<longrightarrow> fin ! i = cur ! i"
  proof (intro allI impI)
    fix i assume i: "?tp \<le> i" "i < length cur"
    then have "S * (cell_offset ns ?pb + 1) \<le> i" unfolding tp'[symmetric] by simp
    then have "fin ! i = mid ! i" using r(3) i f(2) by simp
    also have "\<dots> = cur ! i" using f(3) i by simp
    finally show "fin ! i = cur ! i" .
  qed
  have b: "\<forall>bs'. valid_cell ns bs' \<longrightarrow> cell_offset ns bs' \<le> ?off \<longrightarrow>
              (\<forall>k<S. fin ! (S * cell_offset ns bs' + k) = old ! (S * source_offset ds bs' + k))"
  proof (intro allI impI)
    fix bs' k assume v: "valid_cell ns bs'" and le: "cell_offset ns bs' \<le> ?off" and k: "k < S"
    show "fin ! (S * cell_offset ns bs' + k) = old ! (S * source_offset ds bs' + k)"
    proof (cases "cell_offset ns bs' = ?off")
      case True
      then have e: "bs' = bs" using cell_offset_inj[OF v Suc.prems(1)] by simp
      let ?i = "S * ?off + k"
      have i1: "S * ?off \<le> ?i" "?i < ?tp" using k by simp_all
      then have il: "?i < length cur" using tpl by simp
      have "S * (cell_offset ns ?pb + 1) \<le> ?i" unfolding tp'[symmetric] by simp
      then have "fin ! ?i = mid ! ?i" using r(3) il f(2) by simp
      also have "\<dots> = cur ! (?i + ?p1 - ?tp)" using f(3) il i1 by simp
      also have "?i + ?p1 - ?tp = S * ?src + k" by (simp add: algebra_simps)
      also have "cur ! (S * ?src + k) = old ! (S * ?src + k)"
      proof -
        have "S * ?src + k < S * ?src + S" using k by simp
        also have "\<dots> = ?p1" by simp
        also have "\<dots> \<le> ?tp" by (rule p1top)
        finally show ?thesis using Suc.prems(4) by simp
      qed
      finally show ?thesis using e by simp
    next
      case False
      then have "cell_offset ns bs' \<le> cell_offset ns ?pb" using le po by simp
      then show ?thesis using r(4) v k by simp
    qed
  qed
  show ?case using run r(2) f(2) a b by simp
qed

lemma prod_slices_le_bins: "fits ds ns \<Longrightarrow> prod_list (map m_cSlices ds) \<le> prod_list ns"
  by (induction ds ns rule: list_all2_induct) (auto intro: mult_le_mono slices_le_bins)

lemma fits_bins_pos: "fits ds ns \<Longrightarrow> \<forall>n\<in>set ns. 0 < n"
  by (induction ds ns rule: list_all2_induct) (auto simp: fits_bins_def)

lemma fits_slices_pos: "fits ds ns \<Longrightarrow> \<forall>c\<in>set (map m_cSlices ds). 0 < c"
  by (induction ds ns rule: list_all2_induct) (auto simp: wf_dimension_def)

lemma source_cell_last: "fits ds ns \<Longrightarrow> source_cell ds (last_cell ns) = last_cell (map m_cSlices ds)"
  by (induction ds ns rule: list_all2_induct) (auto simp: last_cell_def slice_of_last_bin[unfolded One_nat_def])

lemma source_offset_last:
  assumes "fits ds ns"
  shows "source_offset ds (last_cell ns) + 1 = prod_list (map m_cSlices ds)"
  unfolding source_offset_def source_cell_last[OF assms]
  using fits_slices_pos[OF assms] by (rule last_cell_offset)

lemma expand_init_correct:
  assumes "fits ds ns" "ns \<noteq> []" "c * prod_list (map m_cSlices ds) \<le> size_max"
  shows "expand_init c (ds @ rest) ns =
           Some (c * prod_list (map m_cSlices ds), expand_stack ds ns (last_cell ns))"
  using assms
proof (induction ds ns arbitrary: c rule: list_all2_induct)
  case Nil
  then show ?case by simp
next
  case (Cons d ds n ns)
  have pp: "0 < prod_list (map m_cSlices ds)" using Cons.hyps(2) by (rule prod_slices_pos)
  then have "c * m_cSlices d \<le> c * m_cSlices d * prod_list (map m_cSlices ds)" by simp
  moreover have tot: "c * m_cSlices d * prod_list (map m_cSlices ds) \<le> size_max"
    using Cons.prems(2) by (simp add: mult.assoc)
  ultimately have "c * m_cSlices d \<le> size_max" by (rule le_trans)
  then have wr: "wrap_size (c * m_cSlices d) = c * m_cSlices d" by (rule wrap_size_id)
  have n1: "1 \<le> n" using Cons.hyps(1) by (simp add: fits_bins_def)
  have last: "slice_of (live_splits d) (n - 1) = m_cSlices d - 1"
    using Cons.hyps(1) slice_of_last_bin by blast
  have len: "length ds = length ns" using Cons.hyps(2) by (rule list_all2_lengthD)
  show ?case
  proof (cases "ns = []")
    case True
    then have "ds = []" using len by simp
    then show ?thesis using True wr n1 last by (simp add: last_cell_def Let_def)
  next
    case False
    have ih: "expand_init (c * m_cSlices d) (ds @ rest) ns =
           Some (c * m_cSlices d * prod_list (map m_cSlices ds), expand_stack ds ns (last_cell ns))"
      using Cons.IH[OF False tot] .
    show ?thesis using False wr n1 last ih by (simp add: last_cell_def mult.assoc Let_def)
  qed
qed

lemma nth_resize_old: "i < n \<Longrightarrow> i < length buf \<Longrightarrow> resize fresh n buf ! i = buf ! i"
  by (simp add: resize_def nth_append)

lemma length_resize_eq: "length (resize fresh n buf) = n"
  by (simp add: resize_def)

lemma ensure_capacity_correct:
  assumes "m_cTensorScoreCapacity t div sizeof_FloatScore \<le> length (m_aTensorScores t)"
    and "EnsureTensorScoreCapacity mem t c = (error, t1, mem1)"
  shows "(error = Error_None \<or> error = Error_OutOfMemory) \<and>
         t1 = t\<lparr>m_aTensorScores := m_aTensorScores t1,
                m_cTensorScoreCapacity := m_cTensorScoreCapacity t1\<rparr> \<and>
         (error = Error_None \<longrightarrow> c \<le> length (m_aTensorScores t1) \<and>
            (\<forall>i. i < c \<longrightarrow> i < length (m_aTensorScores t) \<longrightarrow>
               m_aTensorScores t1 ! i = m_aTensorScores t ! i))"
proof (cases "IsMultiplyError sizeof_FloatScore c")
  case True
  then show ?thesis using assms(2) by (auto simp: EnsureTensorScoreCapacity_def)
next
  case nm: False
  show ?thesis
  proof (cases "m_cTensorScoreCapacity t < sizeof_FloatScore * c")
    case False
    then have "c \<le> m_cTensorScoreCapacity t div sizeof_FloatScore"
      by (simp add: sizeof_FloatScore_def)
    then have "c \<le> length (m_aTensorScores t)" using assms(1) by simp
    then show ?thesis using assms(2) nm False
      by (auto simp: EnsureTensorScoreCapacity_def AlignedGrow_def Let_def)
  next
    case True
    show ?thesis
    proof (cases "alloc_requests mem")
      case Nil
      then show ?thesis using assms(2) nm True
        by (auto simp: EnsureTensorScoreCapacity_def AlignedGrow_def Let_def)
    next
      case (Cons r rs)
      show ?thesis
      proof (cases r)
        case None
        then show ?thesis using assms(2) nm True Cons
          by (auto simp: EnsureTensorScoreCapacity_def AlignedGrow_def Let_def)
      next
        case (Some spare)
        let ?n = "(sizeof_FloatScore * c + spare) div sizeof_FloatScore"
        have cn: "c \<le> ?n" by (simp add: sizeof_FloatScore_def)
        have "t1 = t\<lparr>m_aTensorScores := resize (fresh_scores mem) ?n (m_aTensorScores t),
                     m_cTensorScoreCapacity := sizeof_FloatScore * c + spare\<rparr>" "error = Error_None"
          using assms(2) nm True Cons Some
          by (auto simp: EnsureTensorScoreCapacity_def AlignedGrow_def Let_def)
        moreover have "c \<le> length (resize (fresh_scores mem) ?n (m_aTensorScores t))"
          using cn by (simp add: length_resize_eq)
        moreover have "\<forall>i. i < c \<longrightarrow> i < length (m_aTensorScores t) \<longrightarrow>
            resize (fresh_scores mem) ?n (m_aTensorScores t) ! i = m_aTensorScores t ! i"
          using cn by (auto intro: nth_resize_old)
        ultimately show ?thesis by simp
      qed
    qed
  qed
qed

lemma expand_edges_correct:
  assumes "0 < i" "i < n" "n - 1 \<le> length buf"
  shows "\<exists>buf'. expand_edges buf i n = Some buf' \<and> length buf' = length buf \<and>
           (\<forall>k<length buf. buf' ! k = (if i - 1 \<le> k \<and> k < n - 1 then k + 1 else buf ! k))"
  using assms
proof (induction "n - i" arbitrary: i buf)
  case 0
  then show ?case by simp
next
  case (Suc m)
  let ?b1 = "buf[i - 1 := i]"
  have ok: "\<not> (i = 0 \<or> length buf < i)" using Suc.prems by simp
  show ?case
  proof (cases "n = i + 1")
    case True
    have "expand_edges buf i n = Some ?b1"
      using ok True by (subst expand_edges.simps) (simp add: Let_def)
    moreover have "\<forall>k<length buf. ?b1 ! k = (if i - 1 \<le> k \<and> k < n - 1 then k + 1 else buf ! k)"
      using True Suc.prems by (auto simp: nth_list_update)
    ultimately show ?thesis by simp
  next
    case False
    have rec: "expand_edges buf i n = expand_edges ?b1 (i + 1) n"
      using ok False by (subst expand_edges.simps) (simp add: Let_def)
    have "\<exists>buf'. expand_edges ?b1 (i + 1) n = Some buf' \<and> length buf' = length ?b1 \<and>
           (\<forall>k<length ?b1. buf' ! k = (if i + 1 - 1 \<le> k \<and> k < n - 1 then k + 1 else ?b1 ! k))"
      using Suc.hyps(2) Suc.prems False by (intro Suc.hyps(1)) simp_all
    then obtain buf' where r: "expand_edges ?b1 (i + 1) n = Some buf'" "length buf' = length buf"
      "\<forall>k<length buf. buf' ! k = (if i \<le> k \<and> k < n - 1 then k + 1 else ?b1 ! k)"
      by auto
    have "\<forall>k<length buf. buf' ! k = (if i - 1 \<le> k \<and> k < n - 1 then k + 1 else buf ! k)"
    proof (intro allI impI)
      fix k assume k: "k < length buf"
      show "buf' ! k = (if i - 1 \<le> k \<and> k < n - 1 then k + 1 else buf ! k)"
      proof (cases "k = i - 1")
        case True
        then have "\<not> i \<le> k" "i - 1 \<le> k" "k < n - 1" using Suc.prems by linarith+
        then show ?thesis using r(3) k True by (simp add: nth_list_update)
      next
        case False
        then have "(i \<le> k) = (i - 1 \<le> k)" using Suc.prems(1) by linarith
        then show ?thesis using r(3) k False by (simp add: nth_list_update)
      qed
    qed
    then show ?thesis using rec r(1,2) by simp
  qed
qed

lemma full_splits:
  assumes "sorted_wrt (<) (xs::nat list)" "\<forall>x\<in>set xs. 0 < x \<and> x < n" "length xs = n - 1"
  shows "xs = [1..<n]"
proof -
  have d: "distinct xs" using assms(1) by (rule strict_sorted_distinct)
  have sub: "set xs \<subseteq> {1..<n}" using assms(2) by auto
  have "card (set xs) = n - 1" using d assms(3) by (simp add: distinct_card)
  then have "card (set xs) = card {1..<n}" by simp
  then have eq: "set xs = {1..<n}" using sub by (simp add: card_subset_eq)
  have s: "sorted xs" using assms(1) by (simp add: strict_sorted_iff)
  have "xs = sorted_list_of_set (set xs)" using s d by (simp add: sorted_list_of_set.idem_if_sorted_distinct)
  then show ?thesis using eq by simp
qed

lemma upt_as_map: "[1..<n] = map (\<lambda>k. k + 1) [0..<n - 1]"
proof (cases n)
  case 0
  then show ?thesis by simp
next
  case (Suc m)
  then show ?thesis using map_Suc_upt[of 0 m] by simp
qed

lemma SetCountSlices_correct:
  assumes "i < length (m_aDimensions t)"
    and "m_cSliceCapacity (m_aDimensions t ! i) \<le> length (m_aSplits (m_aDimensions t ! i)) + 1"
  shows "\<exists>error t' mem'. SetCountSlices mem t i n = Some (error, t', mem') \<and>
           (error = Error_None \<or> error = Error_OutOfMemory) \<and>
           (error = Error_None \<longrightarrow>
              (\<exists>d'. t' = t\<lparr>m_aDimensions := (m_aDimensions t)[i := d']\<rparr> \<and>
                 m_cSlices d' = n \<and> n \<le> m_cSliceCapacity d' \<and>
                 m_cSliceCapacity d' \<le> length (m_aSplits d') + 1 \<and>
                 (\<forall>k. k < length (m_aSplits (m_aDimensions t ! i)) \<longrightarrow> k < length (m_aSplits d') \<longrightarrow>
                    m_aSplits d' ! k = m_aSplits (m_aDimensions t ! i) ! k)))"
proof -
  let ?d = "m_aDimensions t ! i"
  have nb: "\<not> length (m_aDimensions t) \<le> i" using assms(1) by simp
  show ?thesis
  proof (cases "m_cSliceCapacity ?d < n")
    case False
    let ?d' = "?d\<lparr>m_cSlices := n\<rparr>"
    have "SetCountSlices mem t i n =
            Some (Error_None, t\<lparr>m_aDimensions := (m_aDimensions t)[i := ?d']\<rparr>, mem)"
      using nb False by (simp add: SetCountSlices_def Let_def)
    moreover have "m_cSlices ?d' = n \<and> n \<le> m_cSliceCapacity ?d' \<and>
                 m_cSliceCapacity ?d' \<le> length (m_aSplits ?d') + 1 \<and>
                 (\<forall>k. k < length (m_aSplits ?d) \<longrightarrow> k < length (m_aSplits ?d') \<longrightarrow>
                    m_aSplits ?d' ! k = m_aSplits ?d ! k)"
      using False assms(2) by simp
    ultimately show ?thesis by blast
  next
    case True
    let ?cap = "(n - 1) + (n - 1) div 2"
    show ?thesis
    proof (cases "IsAddError (n - 1) ((n - 1) div 2) \<or> IsMultiplyError sizeof_UIntSplit ?cap")
      case e: True
      then have "SetCountSlices mem t i n = Some (Error_OutOfMemory, t, mem)"
        using nb True by (auto simp: SetCountSlices_def Let_def)
      then show ?thesis by simp
    next
      case ne: False
      obtain r mem' where re: "realloc mem (m_aSplits ?d) (sizeof_UIntSplit * ?cap) = (r, mem')"
        by (cases "realloc mem (m_aSplits ?d) (sizeof_UIntSplit * ?cap)") auto
      show ?thesis
      proof (cases r)
        case None
        then have "SetCountSlices mem t i n = Some (Error_OutOfMemory, t, mem')"
          using nb True ne re by (simp add: SetCountSlices_def Let_def)
        then show ?thesis by simp
      next
        case (Some new)
        let ?d' = "?d\<lparr>m_aSplits := new, m_cSliceCapacity := ?cap + 1, m_cSlices := n\<rparr>"
        have run: "SetCountSlices mem t i n =
            Some (Error_None, t\<lparr>m_aDimensions := (m_aDimensions t)[i := ?d']\<rparr>, mem')"
          using nb True ne re Some by (simp add: SetCountSlices_def Let_def)
        have new: "new = resize (fresh_splits mem) ((sizeof_UIntSplit * ?cap) div sizeof_UIntSplit) (m_aSplits ?d)"
          using re Some by (auto simp: realloc_def split: list.splits option.splits)
        then have new': "new = resize (fresh_splits mem) ?cap (m_aSplits ?d)"
          by (simp add: sizeof_UIntSplit_def)
        have len: "length new = ?cap" unfolding new' by (rule length_resize_eq)
        have pres: "\<forall>k. k < length (m_aSplits ?d) \<longrightarrow> k < length new \<longrightarrow> new ! k = m_aSplits ?d ! k"
          unfolding len unfolding new' by (auto intro: nth_resize_old)
        have "m_cSlices ?d' = n \<and> n \<le> m_cSliceCapacity ?d' \<and>
                 m_cSliceCapacity ?d' \<le> length (m_aSplits ?d') + 1 \<and>
                 (\<forall>k. k < length (m_aSplits ?d) \<longrightarrow> k < length (m_aSplits ?d') \<longrightarrow>
                    m_aSplits ?d' ! k = m_aSplits ?d ! k)"
          using len pres by simp
        then show ?thesis using run by blast
      qed
    qed
  qed
qed

lemma expanded_dimension_full:
  assumes "wf_dimension d" "fits_bins d n" "m_cSlices d = n"
  shows "expanded_dimension d n"
proof -
  have "live_splits d = [1..<n]"
  proof (rule full_splits)
    show "sorted_wrt (<) (live_splits d)" using wf_dimension_splits(2)[OF assms(1)] .
    show "\<forall>x\<in>set (live_splits d). 0 < x \<and> x < n"
      using wf_dimension_splits(4)[OF assms(1)] assms(2) by (auto simp: fits_bins_def list_all_iff)
    show "length (live_splits d) = n - 1" using wf_dimension_splits(1)[OF assms(1)] assms(3) by simp
  qed
  then show ?thesis using assms(3) upt_as_map by (simp add: expanded_dimension_def)
qed

lemma expanded_dimension_edges:
  assumes "m_cSlices d = n" "n - 1 \<le> length (m_aSplits d)"
    and "\<forall>k<length (m_aSplits d). m_aSplits d ! k = (if 1 - 1 \<le> k \<and> k < n - 1 then k + 1 else old ! k)"
  shows "expanded_dimension d n"
proof -
  have "take (n - 1) (m_aSplits d) = map (\<lambda>k. k + 1) [0..<n - 1]"
    using assms(2,3) by (intro nth_equalityI) auto
  then show ?thesis using assms(1) by (simp add: expanded_dimension_def live_splits_def)
qed

lemma expand_dimension_correct:
  assumes "wf_dimension d" "fits_bins d n" "m_aDimensions t = pre @ d # rest" "length pre = i"
  shows "\<exists>error t' mem'.
           (if n \<noteq> m_cSlices (m_aDimensions t ! i) then
                (case SetCountSlices mem t i n of
                   None \<Rightarrow> None
                 | Some (error, t', mem') \<Rightarrow>
                     if error \<noteq> Error_None then Some (error, t', mem')
                     else
                       let pDimension = m_aDimensions t' ! i in
                       case expand_edges (m_aSplits pDimension) 1 n of
                         None \<Rightarrow> None
                       | Some aSplit \<Rightarrow>
                           Some (Error_None,
                                 t'\<lparr>m_aDimensions :=
                                      (m_aDimensions t')[i := pDimension\<lparr>m_aSplits := aSplit\<rparr>]\<rparr>,
                                 mem'))
              else Some (Error_None, t, mem)) = Some (error, t', mem') \<and>
           (error = Error_None \<or> error = Error_OutOfMemory) \<and>
           (error = Error_None \<longrightarrow>
              (\<exists>d'. t' = t\<lparr>m_aDimensions := pre @ d' # rest\<rparr> \<and> expanded_dimension d' n))"
proof -
  have di: "m_aDimensions t ! i = d" using assms(3,4) by (simp add: nth_append)
  have il: "i < length (m_aDimensions t)" using assms(3,4) by simp
  have upd: "(m_aDimensions t)[i := x] = pre @ x # rest" for x
    using assms(3,4) by (simp add: list_update_append)
  show ?thesis
  proof (cases "n = m_cSlices d")
    case True
    have "t = t\<lparr>m_aDimensions := pre @ d # rest\<rparr>" using assms(3) by simp
    moreover have "expanded_dimension d n" using assms(1,2) True by (intro expanded_dimension_full) simp_all
    ultimately show ?thesis using True di by auto
  next
    case False
    have c: "m_cSlices d \<le> n" using assms(1,2) by (rule slices_le_bins)
    have c1: "1 \<le> m_cSlices d" using assms(1) by (simp add: wf_dimension_def)
    have n2: "1 < n" using False c c1 by simp
    have cap: "m_cSliceCapacity (m_aDimensions t ! i) \<le> length (m_aSplits (m_aDimensions t ! i)) + 1"
      using assms(1) di by (simp add: wf_dimension_def)
    from SetCountSlices_correct[OF il cap, of mem n] obtain error t' mem' where
      s: "SetCountSlices mem t i n = Some (error, t', mem')"
         "error = Error_None \<or> error = Error_OutOfMemory"
         "error = Error_None \<longrightarrow>
              (\<exists>d'. t' = t\<lparr>m_aDimensions := (m_aDimensions t)[i := d']\<rparr> \<and>
                 m_cSlices d' = n \<and> n \<le> m_cSliceCapacity d' \<and>
                 m_cSliceCapacity d' \<le> length (m_aSplits d') + 1 \<and>
                 (\<forall>k. k < length (m_aSplits (m_aDimensions t ! i)) \<longrightarrow> k < length (m_aSplits d') \<longrightarrow>
                    m_aSplits d' ! k = m_aSplits (m_aDimensions t ! i) ! k))"
      by blast
    show ?thesis
    proof (cases "error = Error_None")
      case ne: False
      then show ?thesis using s(1,2) False di by simp
    next
      case ok: True
      then obtain d' where d': "t' = t\<lparr>m_aDimensions := (m_aDimensions t)[i := d']\<rparr>"
        "m_cSlices d' = n" "n \<le> m_cSliceCapacity d'" "m_cSliceCapacity d' \<le> length (m_aSplits d') + 1"
        using s(3) by blast
      have len: "n - 1 \<le> length (m_aSplits d')" using d'(3,4) by simp
      have pd: "m_aDimensions t' ! i = d'" using d'(1) il by simp
      from expand_edges_correct[of 1 n "m_aSplits d'"] n2 len obtain buf' where
        b: "expand_edges (m_aSplits d') 1 n = Some buf'" "length buf' = length (m_aSplits d')"
           "\<forall>k<length (m_aSplits d'). buf' ! k = (if 1 - 1 \<le> k \<and> k < n - 1 then k + 1 else m_aSplits d' ! k)"
        by auto
      let ?d2 = "d'\<lparr>m_aSplits := buf'\<rparr>"
      have e: "expanded_dimension ?d2 n"
        using d'(2) len b(2,3) by (intro expanded_dimension_edges[where old = "m_aSplits d'"]) simp_all
      have t2: "t'\<lparr>m_aDimensions := (m_aDimensions t')[i := ?d2]\<rparr> = t\<lparr>m_aDimensions := pre @ ?d2 # rest\<rparr>"
        using d'(1) assms(4) by (simp add: upd list_update_append)
      show ?thesis using s(1) ok False di pd b(1) t2 e by (auto simp: Let_def)
    qed
  qed
qed

lemma expand_splits_correct:
  assumes "fits ds ns" "ns \<noteq> []" "m_aDimensions t = pre @ ds @ rest" "length pre = i"
  shows "\<exists>error t2 mem2. expand_splits mem t i ns = Some (error, t2, mem2) \<and>
           (error = Error_None \<or> error = Error_OutOfMemory) \<and>
           (error = Error_None \<longrightarrow>
              (\<exists>ds'. t2 = t\<lparr>m_aDimensions := pre @ ds' @ rest\<rparr> \<and> list_all2 expanded_dimension ds' ns))"
  using assms
proof (induction ds ns arbitrary: t pre i mem rule: list_all2_induct)
  case Nil
  then show ?case by simp
next
  case (Cons d ds n ns)
  define X where "X =
           (if n \<noteq> m_cSlices (m_aDimensions t ! i) then
                (case SetCountSlices mem t i n of
                   None \<Rightarrow> None
                 | Some (error, t', mem') \<Rightarrow>
                     if error \<noteq> Error_None then Some (error, t', mem')
                     else
                       let pDimension = m_aDimensions t' ! i in
                       case expand_edges (m_aSplits pDimension) 1 n of
                         None \<Rightarrow> None
                       | Some aSplit \<Rightarrow>
                           Some (Error_None,
                                 t'\<lparr>m_aDimensions :=
                                      (m_aDimensions t')[i := pDimension\<lparr>m_aSplits := aSplit\<rparr>]\<rparr>,
                                 mem'))
              else Some (Error_None, t, mem))"
  have dims: "m_aDimensions t = pre @ d # (ds @ rest)" using Cons.prems(2) by simp
  have nb: "\<not> length (m_aDimensions t) \<le> i" using dims Cons.prems(3) by simp
  have unf: "expand_splits mem t i (n # ns) =
          (case X of None \<Rightarrow> None
           | Some (error, t', mem') \<Rightarrow>
              if error \<noteq> Error_None then Some (error, t', mem')
              else if ns = [] then Some (Error_None, t', mem')
              else expand_splits mem' t' (i + 1) ns)"
    unfolding X_def using nb by (simp add: Let_def)
  from expand_dimension_correct[OF Cons.hyps(1)[THEN conjunct1] Cons.hyps(1)[THEN conjunct2] dims Cons.prems(3), of mem]
  obtain error t' mem' where
    x: "X = Some (error, t', mem')" "error = Error_None \<or> error = Error_OutOfMemory"
       "error = Error_None \<longrightarrow> (\<exists>d'. t' = t\<lparr>m_aDimensions := pre @ d' # (ds @ rest)\<rparr> \<and> expanded_dimension d' n)"
    unfolding X_def by blast
  show ?case
  proof (cases "error = Error_None")
    case False
    then show ?thesis using unf x(1,2) by simp
  next
    case True
    then obtain d' where d': "t' = t\<lparr>m_aDimensions := pre @ d' # (ds @ rest)\<rparr>" "expanded_dimension d' n"
      using x(3) by blast
    have len: "length ds = length ns" using Cons.hyps(2) by (rule list_all2_lengthD)
    show ?thesis
    proof (cases "ns = []")
      case e: True
      then have "ds = []" using len by simp
      then have "t' = t\<lparr>m_aDimensions := pre @ [d'] @ rest\<rparr>" "list_all2 expanded_dimension [d'] (n # ns)"
        using d' e by simp_all
      moreover have "expand_splits mem t i (n # ns) = Some (Error_None, t', mem')"
        using unf x(1) True e by simp
      ultimately show ?thesis by blast
    next
      case ne: False
      have dims': "m_aDimensions t' = (pre @ [d']) @ ds @ rest" using d'(1) by simp
      have li: "length (pre @ [d']) = i + 1" using Cons.prems(3) by simp
      from Cons.IH[OF ne dims' li, of mem'] obtain error2 t2 mem2 where
        r: "expand_splits mem' t' (i + 1) ns = Some (error2, t2, mem2)"
           "error2 = Error_None \<or> error2 = Error_OutOfMemory"
           "error2 = Error_None \<longrightarrow>
              (\<exists>ds'. t2 = t'\<lparr>m_aDimensions := (pre @ [d']) @ ds' @ rest\<rparr> \<and> list_all2 expanded_dimension ds' ns)"
        by blast
      have run: "expand_splits mem t i (n # ns) = Some (error2, t2, mem2)"
        using unf x(1) True ne r(1) by simp
      have "error2 = Error_None \<longrightarrow>
              (\<exists>ds'. t2 = t\<lparr>m_aDimensions := pre @ ds' @ rest\<rparr> \<and> list_all2 expanded_dimension ds' (n # ns))"
      proof
        assume "error2 = Error_None"
        then obtain ds' where s: "t2 = t'\<lparr>m_aDimensions := (pre @ [d']) @ ds' @ rest\<rparr>"
          "list_all2 expanded_dimension ds' ns" using r(3) by blast
        have "t2 = t\<lparr>m_aDimensions := pre @ (d' # ds') @ rest\<rparr>" using s(1) d'(1) by simp
        moreover have "list_all2 expanded_dimension (d' # ds') (n # ns)" using s(2) d'(2) by simp
        ultimately show "\<exists>ds'. t2 = t\<lparr>m_aDimensions := pre @ ds' @ rest\<rparr> \<and> list_all2 expanded_dimension ds' (n # ns)"
          by blast
      qed
      then show ?thesis using run r(2) by blast
    qed
  qed
qed

lemma slice_of_full: "b < n \<Longrightarrow> slice_of (map (\<lambda>k. k + 1) [0..<n - 1]) b = b"
proof -
  assume b: "b < n"
  have e: "map (\<lambda>k. k + 1) [0..<n - 1] = [1..<n]" using upt_as_map[of n] by simp
  have "slice_of [1..<n] b = card {x \<in> set [1..<n]. x \<le> b}" by (intro slice_of_card) simp
  also have "{x \<in> set [1..<n]. x \<le> b} = {1..b}" using b by auto
  finally show ?thesis unfolding e by simp
qed

lemma expanded_source_cell:
  "list_all2 expanded_dimension ds ns \<Longrightarrow> valid_cell ns bs \<Longrightarrow>
     source_cell ds bs = bs \<and> map m_cSlices ds = ns"
proof (induction ds ns arbitrary: bs rule: list_all2_induct)
  case Nil
  then show ?case by simp
next
  case (Cons d ds n ns)
  from Cons.prems obtain b bs' where bs: "bs = b # bs'" "b < n" "valid_cell ns bs'"
    using valid_cell_ConsD by blast
  have "live_splits d = map (\<lambda>k. k + 1) [0..<n - 1]"
    using Cons.hyps(1) unfolding expanded_dimension_def by (rule conjunct2)
  then have "slice_of (live_splits d) b = b"
    using slice_of_full[OF bs(2)] by (simp only:)
  moreover have "m_cSlices d = n" using Cons.hyps(1) by (simp add: expanded_dimension_def)
  ultimately show ?case using Cons.IH[OF bs(3)] bs by simp
qed

lemma expanded_source_offset:
  "list_all2 expanded_dimension ds ns \<Longrightarrow> valid_cell ns bs \<Longrightarrow> source_offset ds bs = cell_offset ns bs"
  unfolding source_offset_def using expanded_source_cell by fastforce

lemma source_offset_less:
  assumes "fits ds ns" "valid_cell ns bs"
  shows "source_offset ds bs < prod_list (map m_cSlices ds)"
  unfolding source_offset_def using assms
proof (induction ds ns arbitrary: bs rule: list_all2_induct)
  case Nil
  then show ?case by simp
next
  case (Cons d ds n ns)
  from Cons.prems obtain b bs' where bs: "bs = b # bs'" "b < n" "valid_cell ns bs'"
    using valid_cell_ConsD by blast
  let ?c = "m_cSlices d"
  let ?o = "cell_offset (map m_cSlices ds) (source_cell ds bs')"
  let ?p = "prod_list (map m_cSlices ds)"
  have s: "slice_of (live_splits d) b \<le> ?c - 1"
    using slice_of_le_length[of "live_splits d" b] wf_dimension_splits(1)[OF Cons.hyps(1)[THEN conjunct1]] by simp
  have c1: "1 \<le> ?c" using Cons.hyps(1) by (simp add: wf_dimension_def)
  have o: "?o + 1 \<le> ?p" using Cons.IH[OF bs(3)] by simp
  have "slice_of (live_splits d) b + ?c * ?o < ?c + ?c * ?o" using s c1 by simp
  also have "\<dots> = ?c * (?o + 1)" by simp
  also have "\<dots> \<le> ?c * ?p" using o by (rule mult_le_mono2)
  finally show ?case using bs by simp
qed

lemma fits_combine:
  assumes "list_all wf_dimension ds" "list_all2 fits_bins ds ns"
  shows "fits ds ns"
  using assms(2,1) by (induction ds ns rule: list_all2_induct) simp_all

lemma Expand_correct:
  assumes ne: "\<not> m_bExpanded t" and wf: "wf_tensor t" and wt: "wf_term t pTerm"
  shows "\<exists>error t' mem'. Expand mem t pTerm = Some (error, t', mem') \<and>
        (error = Error_None \<or> error = Error_OutOfMemory) \<and>
        (error = Error_None \<longrightarrow>
           m_bExpanded t' \<and> m_cScores t' = m_cScores t \<and> m_cDimensions t' = m_cDimensions t \<and>
           list_all2 expanded_dimension (live_dimensions t') (term_bins pTerm) \<and>
           (\<forall>bins k. valid_cell (term_bins pTerm) bins \<longrightarrow> k < m_cScores t \<longrightarrow>
              sample t' bins k = sample t bins k))"
proof -
  define D where "D = m_cDimensions t"
  define ns where "ns = term_bins pTerm"
  define ds where "ds = live_dimensions t"
  define rest where "rest = drop D (m_aDimensions t)"
  define S where "S = m_cScores t"
  have tD: "m_cDimensions_Term pTerm = D" and fl: "D \<le> length (m_aTermFeatures pTerm)"
    and fb: "list_all2 fits_bins ds ns" and tb: "m_cTensorBins pTerm = prod_list ns"
    and big: "S * prod_list ns \<le> size_max"
    using wt unfolding wf_term_def D_def ns_def ds_def S_def by auto
  have S1: "0 < S" and dl: "D \<le> length (m_aDimensions t)" and wd: "list_all wf_dimension ds"
    and cap: "m_cTensorScoreCapacity t div sizeof_FloatScore \<le> length (m_aTensorScores t)"
    and live: "S * prod_list (map m_cSlices ds) \<le> length (m_aTensorScores t)"
    using wf unfolding wf_tensor_def D_def ds_def S_def live_score_count_def live_dimensions_def
    by simp_all
  have dims: "m_aDimensions t = ds @ rest"
    unfolding ds_def rest_def live_dimensions_def D_def by simp
  have lns: "length ns = D" unfolding ns_def term_bins_def using tD fl by simp
  have lds: "length ds = D" unfolding ds_def live_dimensions_def D_def using dl D_def by simp
  have nsdef: "take D (m_aTermFeatures pTerm) = ns" unfolding ns_def term_bins_def tD ..
  have fits: "fits ds ns" using wd fb by (rule fits_combine)
  show ?thesis
  proof (cases "D = 0")
    case True
    have run: "Expand mem t pTerm = Some (Error_None, t\<lparr>m_bExpanded := True\<rparr>, mem)"
      using ne tD True by (simp add: Expand_def)
    have "live_dimensions (t\<lparr>m_bExpanded := True\<rparr>) = []" "term_bins pTerm = []"
      using True tD D_def by (simp_all add: live_dimensions_def term_bins_def)
    moreover have "sample (t\<lparr>m_bExpanded := True\<rparr>) bins k = sample t bins k" for bins k
      by (simp add: sample_def live_dimensions_def)
    ultimately show ?thesis using run by simp
  next
    case False
    then have nn: "ns \<noteq> []" using lns by auto
    let ?cs = "map m_cSlices ds"
    have le: "prod_list ?cs \<le> prod_list ns" using fits by (rule prod_slices_le_bins)
    then have sle: "S * prod_list ?cs \<le> S * prod_list ns" by (rule mult_le_mono2)
    then have small: "S * prod_list ?cs \<le> size_max" using big by (rule le_trans)
    have init: "expand_init S (m_aDimensions t) ns =
                  Some (S * prod_list ?cs, expand_stack ds ns (last_cell ns))"
      unfolding dims using fits nn small by (rule expand_init_correct)
    have wr: "wrap_size (S * m_cTensorBins pTerm) = S * prod_list ns"
      unfolding tb using big by (rule wrap_size_id)
    obtain error t1 mem1 where en: "EnsureTensorScoreCapacity mem t (S * prod_list ns) = (error, t1, mem1)"
      by (cases "EnsureTensorScoreCapacity mem t (S * prod_list ns)") auto
    note ec = ensure_capacity_correct[OF cap en]
    have t1: "t1 = t\<lparr>m_aTensorScores := m_aTensorScores t1,
                m_cTensorScoreCapacity := m_cTensorScoreCapacity t1\<rparr>" using ec by simp
    have t1S: "m_cScores t1 = S" and t1d: "m_aDimensions t1 = ds @ rest"
      using t1 dims S_def by (metis Tensor.select_convs(1) Tensor.surjective Tensor.update_convs(4,6),
          metis Tensor.select_convs(7) Tensor.surjective Tensor.update_convs(4,6))
    have start: "Expand mem t pTerm =
        (if error \<noteq> Error_None then Some (error, t1, mem1)
         else case expand_loop S (ds @ rest) (expand_stack ds ns (last_cell ns))
                     (S * prod_list ?cs) (S * prod_list ns) (m_aTensorScores t1) of
                None \<Rightarrow> None
              | Some aTensorScores \<Rightarrow>
                  case expand_splits mem1 (t1\<lparr>m_aTensorScores := aTensorScores\<rparr>) 0 ns of
                    None \<Rightarrow> None
                  | Some (error, t2, mem2) \<Rightarrow>
                      if error \<noteq> Error_None then Some (error, t2, mem2)
                      else Some (Error_None, t2\<lparr>m_bExpanded := True\<rparr>, mem2))"
      using ne tD False fl nsdef init wr en t1S t1d S_def
      by (simp add: Expand_def Let_def)
    show ?thesis
    proof (cases "error = Error_None")
      case bad: False
      then show ?thesis using start ec by simp
    next
      case ok: True
      let ?buf = "m_aTensorScores t1"
      have bl: "S * prod_list ns \<le> length ?buf"
        and keep: "\<forall>i. i < S * prod_list ns \<longrightarrow> i < length (m_aTensorScores t) \<longrightarrow>
               ?buf ! i = m_aTensorScores t ! i"
        using ec ok by simp_all
      have pos: "\<forall>n\<in>set ns. 0 < n" using fits by (rule fits_bins_pos)
      have lv: "valid_cell ns (last_cell ns)" using pos by (rule last_cell_valid)
      have lo: "cell_offset ns (last_cell ns) + 1 = prod_list ns" using pos by (rule last_cell_offset)
      have so: "source_offset ds (last_cell ns) + 1 = prod_list ?cs" using fits by (rule source_offset_last)
      from expand_loop_correct[OF fits lv S1 small bl refl, of rest] obtain fin where
        lp: "expand_loop S (ds @ rest) (expand_stack ds ns (last_cell ns))
                  (S * (source_offset ds (last_cell ns) + 1)) (S * (cell_offset ns (last_cell ns) + 1)) ?buf = Some fin"
          "\<forall>bs'. valid_cell ns bs' \<longrightarrow> cell_offset ns bs' \<le> cell_offset ns (last_cell ns) \<longrightarrow>
              (\<forall>k<S. fin ! (S * cell_offset ns bs' + k) = ?buf ! (S * source_offset ds bs' + k))"
        by auto
      have lp': "expand_loop S (ds @ rest) (expand_stack ds ns (last_cell ns))
                  (S * prod_list ?cs) (S * prod_list ns) ?buf = Some fin"
        using lp(1) unfolding lo so .
      let ?t1 = "t1\<lparr>m_aTensorScores := fin\<rparr>"
      have d1: "m_aDimensions ?t1 = [] @ ds @ rest" using t1d by simp
      from expand_splits_correct[OF fits nn d1, of 0 mem1] obtain error2 t2 mem2 where
        sp: "expand_splits mem1 ?t1 0 ns = Some (error2, t2, mem2)"
            "error2 = Error_None \<or> error2 = Error_OutOfMemory"
            "error2 = Error_None \<longrightarrow>
              (\<exists>ds'. t2 = ?t1\<lparr>m_aDimensions := [] @ ds' @ rest\<rparr> \<and> list_all2 expanded_dimension ds' ns)"
        by auto
      have run: "Expand mem t pTerm =
                  (if error2 \<noteq> Error_None then Some (error2, t2, mem2)
                   else Some (Error_None, t2\<lparr>m_bExpanded := True\<rparr>, mem2))"
        using start ok lp' sp(1) by simp
      show ?thesis
      proof (cases "error2 = Error_None")
        case False
        then show ?thesis using run sp(2) by simp
      next
        case True
        then obtain ds' where ds': "t2 = ?t1\<lparr>m_aDimensions := ds' @ rest\<rparr>"
          "list_all2 expanded_dimension ds' ns" using sp(3) by auto
        let ?t' = "t2\<lparr>m_bExpanded := True\<rparr>"
        have t'S: "m_cScores ?t' = S" using ds'(1) t1S by simp
        have t'D: "m_cDimensions ?t' = D"
          using ds'(1) t1 D_def by (metis Tensor.select_convs(3) Tensor.surjective Tensor.update_convs(4,5,6,7))
        have ld': "length ds' = D" using ds'(2) lns by (simp add: list_all2_lengthD)
        have t'l: "live_dimensions ?t' = ds'"
          unfolding live_dimensions_def t'D using ds'(1) ld' by simp
        have t's: "m_aTensorScores ?t' = fin" using ds'(1) by simp
        have same: "sample ?t' bins k = sample t bins k" if v: "valid_cell ns bins" and k: "k < S" for bins k
        proof -
          have "cell_offset ns bins < prod_list ns" using v by (rule cell_offset_less)
          then have ol: "cell_offset ns bins \<le> cell_offset ns (last_cell ns)" using lo by simp
          have sl: "source_offset ds bins + 1 \<le> prod_list ?cs"
            using source_offset_less[OF fits v] by simp
          have "S * source_offset ds bins + k < S * source_offset ds bins + S" using k by simp
          also have "\<dots> = S * (source_offset ds bins + 1)" by simp
          also have "\<dots> \<le> S * prod_list ?cs" using sl by (rule mult_le_mono2)
          finally have i1: "S * source_offset ds bins + k < S * prod_list ?cs" .
          have i2: "S * source_offset ds bins + k < S * prod_list ns"
            using i1 sle by (rule less_le_trans)
          have i3: "S * source_offset ds bins + k < length (m_aTensorScores t)"
            using i1 live by (rule less_le_trans)
          have "sample ?t' bins k = fin ! (S * source_offset ds' bins + k)"
            unfolding sample_def t'l t's t'S ..
          also have "\<dots> = fin ! (S * cell_offset ns bins + k)"
            using expanded_source_offset[OF ds'(2) v] by simp
          also have "\<dots> = ?buf ! (S * source_offset ds bins + k)" using lp(2) v ol k by simp
          also have "\<dots> = m_aTensorScores t ! (S * source_offset ds bins + k)" using keep i2 i3 by simp
          also have "\<dots> = sample t bins k" unfolding sample_def S_def ds_def ..
          finally show ?thesis .
        qed
        have "m_bExpanded ?t'" by simp
        moreover have "list_all2 expanded_dimension (live_dimensions ?t') (term_bins pTerm)"
          unfolding t'l using ds'(2) ns_def by simp
        moreover have "\<forall>bins k. valid_cell (term_bins pTerm) bins \<longrightarrow> k < m_cScores t \<longrightarrow>
              sample ?t' bins k = sample t bins k"
          using same unfolding ns_def S_def by blast
        moreover have "Expand mem t pTerm = Some (Error_None, ?t', mem2)" using run True by simp
        moreover have "m_cScores ?t' = m_cScores t" "m_cDimensions ?t' = m_cDimensions t"
          using t'S t'D S_def D_def by simp_all
        ultimately show ?thesis by blast
      qed
    qed
  qed
qed

text \<open>
  Claim C2. \<^verbatim>\<open>Expand\<close> on a tensor that is already expanded returns \<^verbatim>\<open>Error_None\<close> and
  changes neither the tensor nor the allocator. On a consistent tensor that is not
  expanded, with its term, the call returns, with \<^verbatim>\<open>Error_None\<close> or
  \<^verbatim>\<open>Error_OutOfMemory\<close>; on \<^verbatim>\<open>Error_None\<close> the expanded flag is set, every dimension has as
  many slices as its feature has bins, with the split \<open>k\<close> equal to \<open>k + 1\<close>, and at every
  bin coordinate the score of the expanded tensor is the score of the tensor before.
\<close>

theorem expand_broadcasts:
  "(m_bExpanded t \<longrightarrow> Expand mem t pTerm = Some (Error_None, t, mem)) \<and>
   (\<not> m_bExpanded t \<and> wf_tensor t \<and> wf_term t pTerm \<longrightarrow>
      (\<exists>error t' mem'. Expand mem t pTerm = Some (error, t', mem') \<and>
         (error = Error_None \<or> error = Error_OutOfMemory) \<and>
         (error = Error_None \<longrightarrow>
            m_bExpanded t' \<and> m_cScores t' = m_cScores t \<and> m_cDimensions t' = m_cDimensions t \<and>
            list_all2 expanded_dimension (live_dimensions t') (term_bins pTerm) \<and>
            (\<forall>bins k. valid_cell (term_bins pTerm) bins \<longrightarrow> k < m_cScores t \<longrightarrow>
               sample t' bins k = sample t bins k))))"
proof (intro conjI impI)
  assume "m_bExpanded t"
  then show "Expand mem t pTerm = Some (Error_None, t, mem)" by (simp add: Expand_def)
next
  assume "\<not> m_bExpanded t \<and> wf_tensor t \<and> wf_term t pTerm"
  then show "\<exists>error t' mem'. Expand mem t pTerm = Some (error, t', mem') \<and>
         (error = Error_None \<or> error = Error_OutOfMemory) \<and>
         (error = Error_None \<longrightarrow>
            m_bExpanded t' \<and> m_cScores t' = m_cScores t \<and> m_cDimensions t' = m_cDimensions t \<and>
            list_all2 expanded_dimension (live_dimensions t') (term_bins pTerm) \<and>
            (\<forall>bins k. valid_cell (term_bins pTerm) bins \<longrightarrow> k < m_cScores t \<longrightarrow>
               sample t' bins k = sample t bins k))"
    using Expand_correct by blast
qed

theorem expand_broadcasts_witness:
  "Expand example_allocator example_tensor example_term =
     Some (Error_None, example_tensor, example_allocator) \<and>
   \<not> m_bExpanded sparse_tensor \<and> wf_tensor sparse_tensor \<and> wf_term sparse_tensor example_term \<and>
   Expand example_allocator sparse_tensor example_term =
     Some (Error_None,
           sparse_tensor\<lparr>m_cTensorScoreCapacity := 24, m_bExpanded := True,
             m_aTensorScores := [Finite 1, Finite 2, Finite 2],
             m_aDimensions := [\<lparr> m_cSlices = 3, m_cSliceCapacity = 4, m_aSplits = [1, 2, 0] \<rparr>]\<rparr>,
           example_allocator\<lparr>alloc_requests := []\<rparr>) \<and>
   valid_cell (term_bins example_term) [2] \<and>
   sample (sparse_tensor\<lparr>m_cTensorScoreCapacity := 24, m_bExpanded := True,
             m_aTensorScores := [Finite 1, Finite 2, Finite 2],
             m_aDimensions := [\<lparr> m_cSlices = 3, m_cSliceCapacity = 4, m_aSplits = [1, 2, 0] \<rparr>]\<rparr>) [2] 0 =
     sample sparse_tensor [2] 0 \<and>
   sample sparse_tensor [2] 0 = Finite 2"
proof -
  let ?m0 = "example_allocator\<lparr>alloc_requests := []\<rparr>"
  let ?exp = "sparse_tensor\<lparr>m_cTensorScoreCapacity := 24, m_bExpanded := True,
        m_aTensorScores := [Finite 1, Finite 2, Finite 2],
        m_aDimensions := [\<lparr> m_cSlices = 3, m_cSliceCapacity = 4, m_aSplits = [1, 2, 0] \<rparr>]\<rparr>"
  have e: "m_bExpanded example_tensor" by (simp add: example_defs)
  have h: "\<not> m_bExpanded sparse_tensor" "wf_tensor sparse_tensor" "wf_term sparse_tensor example_term"
    by (simp_all add: wf_tensor_def wf_term_def wf_dimension_def fits_bins_def live_dimensions_def
          live_splits_def live_score_count_def term_bins_def size_max_eq sizeof_FloatScore_def
          example_defs)
  have expand: "Expand example_allocator sparse_tensor example_term = Some (Error_None, ?exp, ?m0)"
    by (simp add: Expand_def expand_loop.simps expand_copy.simps expand_edges.simps
          example_defs alloc_defs)
  have v: "valid_cell (term_bins example_term) [2]" "(0::nat) < m_cScores sparse_tensor"
    by (simp_all add: term_bins_def example_defs)
  have s: "sample sparse_tensor [2] 0 = Finite 2"
    by (simp add: sample_def source_offset_def live_dimensions_def live_splits_def slice_of_def
          example_defs)
  from expand_broadcasts [of example_tensor example_allocator example_term] e
  have idem: "Expand example_allocator example_tensor example_term =
     Some (Error_None, example_tensor, example_allocator)" by simp
  from expand_broadcasts [of sparse_tensor example_allocator example_term] h expand v
  have "sample ?exp [2] 0 = sample sparse_tensor [2] 0" by simp
  with idem h expand v(1) s show ?thesis by (simp only: simp_thms)
qed

section \<open>Add\<close>

lemma merged_splits_set [simp]: "set (merged_splits xs ys) = set xs \<union> set ys"
  by (simp add: merged_splits_def)

lemma merged_splits_sorted: "sorted_wrt (<) (merged_splits xs ys)"
  by (simp add: merged_splits_def strict_sorted_iff)

lemma merged_splits_distinct: "distinct (merged_splits xs ys)"
  by (simp add: merged_splits_def)

lemma merged_splits_length: "length (merged_splits xs ys) = card (set xs \<union> set ys)"
  using distinct_card[OF merged_splits_distinct, of xs ys] by simp

lemma slice_of_nth:
  assumes "sorted_wrt (<) (xs::nat list)" "i < length xs"
  shows "slice_of xs (xs ! i) = i + 1"
proof -
  let ?s = "slice_of xs (xs ! i)"
  have a: "i < ?s"
  proof (rule ccontr)
    assume "\<not> i < ?s"
    then have "xs ! i < xs ! i" using nth_above_slice[OF assms(1) _ assms(2), of "xs ! i"] by simp
    then show False by simp
  qed
  have b: "?s \<le> i + 1"
  proof (rule ccontr)
    assume "\<not> ?s \<le> i + 1"
    then have l: "i + 1 < ?s" by simp
    then have "xs ! (i + 1) \<le> xs ! i" using nth_below_slice[OF assms(1)] by blast
    moreover have "i + 1 < length xs" using l slice_of_le_length[of xs "xs ! i"] by simp
    then have "xs ! i < xs ! (i + 1)" using assms(1) by (simp add: sorted_wrt_nth_less)
    ultimately show False by simp
  qed
  show ?thesis using a b by simp
qed

lemma strict_sorted_nth_mono:
  assumes "sorted_wrt (<) (zs::nat list)" "i \<le> j" "j < length zs"
  shows "zs ! i \<le> zs ! j"
proof (cases "i = j")
  case True
  then show ?thesis by simp
next
  case False
  then have "i < j" using assms(2) by simp
  then have "zs ! i < zs ! j" using assms(1,3) by (simp add: sorted_wrt_nth_less)
  then show ?thesis by simp
qed

lemma slice_of_subset:
  assumes "distinct xs" "distinct zs" "set xs \<subseteq> set zs"
  shows "slice_of xs b \<le> slice_of zs b"
proof -
  have "{x \<in> set xs. x \<le> b} \<subseteq> {x \<in> set zs. x \<le> b}" using assms(3) by auto
  then have "card {x \<in> set xs. x \<le> b} \<le> card {x \<in> set zs. x \<le> b}"
    by (intro card_mono) simp_all
  then show ?thesis using assms(1,2) by (simp add: slice_of_card)
qed

text \<open>Facts about one dimension: \<open>xs\<close> are splits among the strictly increasing positive
  splits \<open>zs\<close>.\<close>

lemma slice_start_slice:
  assumes "sorted_wrt (<) (zs::nat list)" "\<forall>z\<in>set zs. 0 < z" "m \<le> length zs"
  shows "slice_of zs (slice_start zs m) = m"
proof (cases "m = 0")
  case True
  then show ?thesis using assms(2) by (simp add: slice_start_def slice_of_zero)
next
  case False
  then have "m - 1 < length zs" using assms(3) by simp
  then have "slice_of zs (zs ! (m - 1)) = m - 1 + 1" using assms(1) by (rule slice_of_nth[rotated])
  then show ?thesis using False by (simp add: slice_start_def)
qed

lemma slice_start_le:
  assumes "sorted_wrt (<) (zs::nat list)"
  shows "slice_start zs (slice_of zs b) \<le> b"
proof (cases "slice_of zs b = 0")
  case True
  then show ?thesis by (simp add: slice_start_def)
next
  case False
  then have "zs ! (slice_of zs b - 1) \<le> b" using last_split_below(1)[OF assms] by simp
  then show ?thesis using False by (simp add: slice_start_def)
qed

lemma slice_of_slice_start:
  assumes "sorted_wrt (<) (zs::nat list)" "distinct xs" "set xs \<subseteq> set zs"
  shows "slice_of xs (slice_start zs (slice_of zs b)) = slice_of xs b"
proof -
  let ?m = "slice_of zs b"
  let ?r = "slice_start zs ?m"
  have rb: "?r \<le> b" using assms(1) by (rule slice_start_le)
  have "\<forall>x\<in>set xs. \<not> (?r < x \<and> x \<le> b)"
  proof (intro ballI notI)
    fix x assume x: "x \<in> set xs" and c: "?r < x \<and> x \<le> b"
    then have "x \<in> set zs" using assms(3) by auto
    then obtain j where j: "j < length zs" "zs ! j = x" by (auto simp: in_set_conv_nth)
    have jm: "j < ?m"
    proof (rule ccontr)
      assume "\<not> j < ?m"
      then have "b < zs ! j" using nth_above_slice[OF assms(1) _ j(1), of b] by simp
      then show False using c j(2) by simp
    qed
    then have m0: "?m \<noteq> 0" by simp
    have "zs ! j \<le> zs ! (?m - 1)"
    proof (cases "j = ?m - 1")
      case True
      then show ?thesis by simp
    next
      case False
      then have "j \<le> ?m - 1" using jm by simp
      moreover have "?m - 1 < length zs" using m0 slice_of_le_length[of zs b] by simp
      ultimately show ?thesis using assms(1) by (intro strict_sorted_nth_mono)
    qed
    then have "x \<le> ?r" using j(2) m0 by (simp add: slice_start_def)
    then show False using c by simp
  qed
  then show ?thesis using slice_of_same[OF assms(2) rb] by simp
qed

lemma slice_start_less:
  assumes "sorted_wrt (<) (zs::nat list)" "\<forall>z\<in>set zs. 0 < z" "0 < m" "m \<le> length zs"
  shows "slice_start zs (m - 1) < zs ! (m - 1)"
proof (cases "m - 1 = 0")
  case True
  have "zs ! (m - 1) \<in> set zs" using assms(3,4) by (intro nth_mem) simp
  then have "0 < zs ! (m - 1)" using assms(2) by blast
  then show ?thesis using True by (simp add: slice_start_def)
next
  case False
  then have "zs ! (m - 1 - 1) < zs ! (m - 1)" using assms(1,3,4) by (simp add: sorted_wrt_nth_less)
  then show ?thesis using False by (simp add: slice_start_def)
qed

lemma slice_start_gap:
  assumes "sorted_wrt (<) (zs::nat list)" "0 < m" "m \<le> length zs" "x \<in> set zs"
  shows "\<not> (slice_start zs (m - 1) < x \<and> x < zs ! (m - 1))"
proof
  assume c: "slice_start zs (m - 1) < x \<and> x < zs ! (m - 1)"
  obtain j where j: "j < length zs" "zs ! j = x" using assms(4) by (auto simp: in_set_conv_nth)
  have "j < m - 1"
  proof (rule ccontr)
    assume "\<not> j < m - 1"
    then have "m - 1 \<le> j" by simp
    then have "zs ! (m - 1) \<le> zs ! j"
      using assms(1) j(1) by (intro strict_sorted_nth_mono)
    then show False using c j(2) by simp
  qed
  then have m1: "m - 1 \<noteq> 0" and "j \<le> m - 1 - 1" by simp_all
  then have "zs ! j \<le> zs ! (m - 1 - 1)"
    using assms(1,2,3) by (intro strict_sorted_nth_mono) simp_all
  then show False using c j(2) m1 by (simp add: slice_start_def)
qed

lemma slice_of_step_down:
  assumes "sorted_wrt (<) (zs::nat list)" "\<forall>z\<in>set zs. 0 < z" "0 < m" "m \<le> length zs"
    and "distinct xs" "set xs \<subseteq> set zs"
  shows "slice_of xs (slice_start zs (m - 1)) =
           (if zs ! (m - 1) \<in> set xs then slice_of xs (zs ! (m - 1)) - 1 else slice_of xs (zs ! (m - 1)))"
proof (rule slice_of_gap[OF assms(5)])
  show "slice_start zs (m - 1) < zs ! (m - 1)" using assms(1-4) by (rule slice_start_less)
  show "\<forall>x\<in>set xs. \<not> (slice_start zs (m - 1) < x \<and> x < zs ! (m - 1))"
    using slice_start_gap[OF assms(1,3,4)] assms(6) by blast
qed

lemma slice_of_top:
  assumes "sorted_wrt (<) (zs::nat list)" "set xs \<subseteq> set zs"
  shows "slice_of xs (slice_start zs (length zs)) = length xs"
proof (cases "zs = []")
  case True
  then have "xs = []" using assms(2) by simp
  then show ?thesis by (simp add: slice_of_def)
next
  case False
  let ?l = "zs ! (length zs - 1)"
  have "\<forall>x\<in>set xs. x \<le> ?l"
  proof
    fix x assume "x \<in> set xs"
    then have "x \<in> set zs" using assms(2) by auto
    then obtain j where j: "j < length zs" "zs ! j = x" by (auto simp: in_set_conv_nth)
    then have "zs ! j \<le> ?l"
      using assms(1) by (intro strict_sorted_nth_mono) simp_all
    then show "x \<le> ?l" using j(2) by simp
  qed
  then have "slice_of xs ?l = length xs" by (rule slice_of_all)
  then show ?thesis using False by (simp add: slice_start_def)
qed

lemma merged_splits_pos:
  "\<forall>x\<in>set xs. 0 < x \<Longrightarrow> \<forall>y\<in>set ys. 0 < y \<Longrightarrow> \<forall>z\<in>set (merged_splits xs ys). (0::nat) < z"
  by auto

lemma slice_of_merged_bounds:
  assumes "sorted_wrt (<) (xs::nat list)" "sorted_wrt (<) (ys::nat list)"
  shows "slice_of xs b \<le> slice_of (merged_splits xs ys) b"
    and "slice_of ys b \<le> slice_of (merged_splits xs ys) b"
    and "slice_of xs b = 0 \<Longrightarrow> slice_of (merged_splits xs ys) b = slice_of ys b"
    and "slice_of ys b = 0 \<Longrightarrow> slice_of (merged_splits xs ys) b = slice_of xs b"
proof -
  let ?zs = "merged_splits xs ys"
  have dx: "distinct xs" and dy: "distinct ys" using assms by (simp_all add: strict_sorted_distinct)
  have dz: "distinct ?zs" by (rule merged_splits_distinct)
  show "slice_of xs b \<le> slice_of ?zs b" using dx dz by (rule slice_of_subset) simp
  show "slice_of ys b \<le> slice_of ?zs b" using dy dz by (rule slice_of_subset) simp
  have u: "{v \<in> set ?zs. v \<le> b} = {x \<in> set xs. x \<le> b} \<union> {y \<in> set ys. y \<le> b}" by auto
  {
    assume "slice_of xs b = 0"
    then have "{x \<in> set xs. x \<le> b} = {}" using dx by (simp add: slice_of_card)
    then have "{v \<in> set ?zs. v \<le> b} = {y \<in> set ys. y \<le> b}" using u by auto
    then show "slice_of ?zs b = slice_of ys b" using dz dy by (simp add: slice_of_card)
  }
  {
    assume "slice_of ys b = 0"
    then have "{y \<in> set ys. y \<le> b} = {}" using dy by (simp add: slice_of_card)
    then have "{v \<in> set ?zs. v \<le> b} = {x \<in> set xs. x \<le> b}" using u by auto
    then show "slice_of ?zs b = slice_of xs b" using dz dx by (simp add: slice_of_card)
  }
qed

text \<open>The comparison of the last splits at or below a merged split \<open>z\<close>.\<close>

lemma merge_compare:
  assumes "sorted_wrt (<) (xs::nat list)" "sorted_wrt (<) (ys::nat list)"
    and "z \<in> set xs \<or> z \<in> set ys"
    and "0 < slice_of xs z" "0 < slice_of ys z"
  shows "ys ! (slice_of ys z - 1) \<le> xs ! (slice_of xs z - 1) \<longleftrightarrow> z \<in> set xs"
    and "xs ! (slice_of xs z - 1) \<le> ys ! (slice_of ys z - 1) \<longleftrightarrow> z \<in> set ys"
    and "(if xs ! (slice_of xs z - 1) \<le> ys ! (slice_of ys z - 1)
          then ys ! (slice_of ys z - 1) else xs ! (slice_of xs z - 1)) = z"
proof -
  let ?d1 = "xs ! (slice_of xs z - 1)"
  let ?d2 = "ys ! (slice_of ys z - 1)"
  have a1: "?d1 \<le> z" and b1: "z \<le> ?d1 \<longleftrightarrow> z \<in> set xs"
    using last_split_below[OF assms(1,4)] by simp_all
  have a2: "?d2 \<le> z" and b2: "z \<le> ?d2 \<longleftrightarrow> z \<in> set ys"
    using last_split_below[OF assms(2,5)] by simp_all
  show "?d2 \<le> ?d1 \<longleftrightarrow> z \<in> set xs" using a1 a2 b1 b2 assms(3) by auto
  show "?d1 \<le> ?d2 \<longleftrightarrow> z \<in> set ys" using a1 a2 b1 b2 assms(3) by auto
  show "(if ?d1 \<le> ?d2 then ?d2 else ?d1) = z" using a1 a2 b1 b2 assms(3) by auto
qed

lemma merge_step:
  assumes "sorted_wrt (<) (xs::nat list)" "\<forall>x\<in>set xs. 0 < x"
    and "sorted_wrt (<) (ys::nat list)" "\<forall>y\<in>set ys. 0 < y"
    and "0 < m" "m \<le> length (merged_splits xs ys)"
  shows "merged_splits xs ys ! (m - 1) \<in> set xs \<or> merged_splits xs ys ! (m - 1) \<in> set ys"
    and "slice_of xs (slice_start (merged_splits xs ys) (m - 1)) =
           (if merged_splits xs ys ! (m - 1) \<in> set xs
            then slice_of xs (merged_splits xs ys ! (m - 1)) - 1
            else slice_of xs (merged_splits xs ys ! (m - 1)))"
    and "slice_of ys (slice_start (merged_splits xs ys) (m - 1)) =
           (if merged_splits xs ys ! (m - 1) \<in> set ys
            then slice_of ys (merged_splits xs ys ! (m - 1)) - 1
            else slice_of ys (merged_splits xs ys ! (m - 1)))"
    and "slice_start (merged_splits xs ys) m = merged_splits xs ys ! (m - 1)"
proof -
  let ?zs = "merged_splits xs ys"
  have sz: "sorted_wrt (<) ?zs" by (rule merged_splits_sorted)
  have pz: "\<forall>z\<in>set ?zs. 0 < z" using assms(2,4) by (rule merged_splits_pos)
  have "?zs ! (m - 1) \<in> set ?zs" using assms(5,6) by (intro nth_mem) simp
  then show "?zs ! (m - 1) \<in> set xs \<or> ?zs ! (m - 1) \<in> set ys" by simp
  show "slice_of xs (slice_start ?zs (m - 1)) =
           (if ?zs ! (m - 1) \<in> set xs then slice_of xs (?zs ! (m - 1)) - 1 else slice_of xs (?zs ! (m - 1)))"
    using sz pz assms(5,6) strict_sorted_distinct[OF assms(1)] by (rule slice_of_step_down) simp
  show "slice_of ys (slice_start ?zs (m - 1)) =
           (if ?zs ! (m - 1) \<in> set ys then slice_of ys (?zs ! (m - 1)) - 1 else slice_of ys (?zs ! (m - 1)))"
    using sz pz assms(5,6) strict_sorted_distinct[OF assms(3)] by (rule slice_of_step_down) simp
  show "slice_start ?zs m = ?zs ! (m - 1)" using assms(5) by (simp add: slice_start_def)
qed

lemma prefix_eq:
  assumes "sorted_wrt (<) (xs::nat list)" "sorted_wrt (<) (zs::nat list)" "set xs \<subseteq> set zs"
    and "slice_of xs r = slice_of zs r"
  shows "take (slice_of xs r) xs = take (slice_of zs r) zs"
proof -
  have fx: "filter (\<lambda>s. s \<le> r) xs = take (slice_of xs r) xs" using assms(1) by (rule filter_le_take)
  have fz: "filter (\<lambda>s. s \<le> r) zs = take (slice_of zs r) zs" using assms(2) by (rule filter_le_take)
  have dx: "distinct xs" and dz: "distinct zs" using assms(1,2) by (simp_all add: strict_sorted_distinct)
  have sub: "{x \<in> set xs. x \<le> r} \<subseteq> {x \<in> set zs. x \<le> r}" using assms(3) by auto
  have "card {x \<in> set xs. x \<le> r} = card {x \<in> set zs. x \<le> r}"
    using assms(4) dx dz by (simp add: slice_of_card)
  then have eq: "{x \<in> set xs. x \<le> r} = {x \<in> set zs. x \<le> r}"
    using sub by (intro card_subset_eq) simp_all
  have "filter (\<lambda>s. s \<le> r) xs = filter (\<lambda>s. s \<le> r) zs"
  proof (rule sorted_distinct_set_unique)
    show "sorted (filter (\<lambda>s. s \<le> r) xs)" using assms(1) by (simp add: strict_sorted_iff sorted_wrt_filter)
    show "sorted (filter (\<lambda>s. s \<le> r) zs)" using assms(2) by (simp add: strict_sorted_iff sorted_wrt_filter)
    show "distinct (filter (\<lambda>s. s \<le> r) xs)" using dx by simp
    show "distinct (filter (\<lambda>s. s \<le> r) zs)" using dz by simp
    show "set (filter (\<lambda>s. s \<le> r) xs) = set (filter (\<lambda>s. s \<le> r) zs)" using eq by simp
  qed
  then show ?thesis using fx fz by simp
qed

lemma drop_above:
  assumes "sorted_wrt (<) (xs::nat list)" "p < length xs" "x \<in> set (drop (Suc p) xs)"
  shows "xs ! p < x"
proof -
  obtain j where j: "j < length (drop (Suc p) xs)" "drop (Suc p) xs ! j = x"
    using assms(3) by (auto simp: in_set_conv_nth)
  then have "x = xs ! (Suc p + j)" "Suc p + j < length xs" by simp_all
  then show ?thesis using assms(1) by (simp add: sorted_wrt_nth_less)
qed

lemma add_count_correct:
  assumes "sorted_wrt (<) (take e1 b1)" "sorted_wrt (<) (take e2 b2)"
    and "e1 \<le> length b1" "e2 \<le> length b2" "p1 \<le> e1" "p2 \<le> e2"
  shows "add_count b1 b2 p1 e1 p2 e2 c =
           Some (c + card (set (drop p1 (take e1 b1)) \<union> set (drop p2 (take e2 b2))))"
  using assms(5,6)
proof (induction "(e1 - p1) + (e2 - p2)" arbitrary: p1 p2 c rule: less_induct)
  case less
  let ?xs = "take e1 b1"
  let ?ys = "take e2 b2"
  have dx: "distinct ?xs" and dy: "distinct ?ys" using assms(1,2) by (simp_all add: strict_sorted_distinct)
  have lx: "length ?xs = e1" and ly: "length ?ys = e2" using assms(3,4) by simp_all
  show ?case
  proof (cases "e2 = p2")
    case True
    have "card (set (drop p1 ?xs)) = e1 - p1" using dx lx by (simp add: distinct_card)
    then show ?thesis using True ly by (subst add_count.simps) simp
  next
    case n2: False
    show ?thesis
    proof (cases "e1 = p1")
      case True
      have "card (set (drop p2 ?ys)) = e2 - p2" using dy ly by (simp add: distinct_card)
      then show ?thesis using True n2 lx by (subst add_count.simps) simp
    next
      case n1: False
      have q1: "p1 < e1" and q2: "p2 < e2" using n1 n2 less.prems by simp_all
      let ?d1 = "b1 ! p1"
      let ?d2 = "b2 ! p2"
      let ?A = "set (drop (Suc p1) ?xs)"
      let ?B = "set (drop (Suc p2) ?ys)"
      have e1: "drop p1 ?xs = ?d1 # drop (Suc p1) ?xs"
        using q1 lx by (metis Cons_nth_drop_Suc nth_take)
      have e2: "drop p2 ?ys = ?d2 # drop (Suc p2) ?ys"
        using q2 ly by (metis Cons_nth_drop_Suc nth_take)
      have A: "\<forall>x\<in>?A. ?d1 < x" using drop_above[OF assms(1), of p1] q1 lx by simp
      have B: "\<forall>x\<in>?B. ?d2 < x" using drop_above[OF assms(2), of p2] q2 ly by simp
      have nb: "\<not> (length b1 \<le> p1 \<or> length b2 \<le> p2)" using q1 q2 assms(3,4) by simp
      have fin: "finite ?A" "finite ?B" by simp_all
      consider (lt) "?d1 < ?d2" | (eq) "?d1 = ?d2" | (gt) "?d2 < ?d1" by linarith
      then show ?thesis
      proof cases
        case lt
        have rec: "add_count b1 b2 p1 e1 p2 e2 c = add_count b1 b2 (p1 + 1) e1 p2 e2 (c + 1)"
          using n1 n2 nb lt by (subst add_count.simps) (simp add: Let_def)
        have ih: "add_count b1 b2 (p1 + 1) e1 p2 e2 (c + 1) =
                    Some (c + 1 + card (?A \<union> set (drop p2 ?ys)))"
          using q1 q2 less.prems by (subst less.hyps) simp_all
        have "?d1 \<notin> ?A \<union> set (drop p2 ?ys)" using A B lt unfolding e2 by auto
        then have "card (set (drop p1 ?xs) \<union> set (drop p2 ?ys)) = 1 + card (?A \<union> set (drop p2 ?ys))"
          unfolding e1 by simp
        then show ?thesis using rec ih by simp
      next
        case gt
        have rec: "add_count b1 b2 p1 e1 p2 e2 c = add_count b1 b2 p1 e1 (p2 + 1) e2 (c + 1)"
          using n1 n2 nb gt by (subst add_count.simps) (simp add: Let_def)
        have ih: "add_count b1 b2 p1 e1 (p2 + 1) e2 (c + 1) =
                    Some (c + 1 + card (set (drop p1 ?xs) \<union> ?B))"
          using q1 q2 less.prems by (subst less.hyps) simp_all
        have "?d2 \<notin> set (drop p1 ?xs) \<union> ?B" using A B gt unfolding e1 by auto
        then have "card (set (drop p1 ?xs) \<union> set (drop p2 ?ys)) = 1 + card (set (drop p1 ?xs) \<union> ?B)"
          unfolding e2 by simp
        then show ?thesis using rec ih by simp
      next
        case eq
        have rec: "add_count b1 b2 p1 e1 p2 e2 c = add_count b1 b2 (p1 + 1) e1 (p2 + 1) e2 (c + 1)"
          using n1 n2 nb eq by (subst add_count.simps) (simp add: Let_def)
        have ih: "add_count b1 b2 (p1 + 1) e1 (p2 + 1) e2 (c + 1) = Some (c + 1 + card (?A \<union> ?B))"
          using q1 q2 less.prems by (subst less.hyps) simp_all
        have "?d1 \<notin> ?A \<union> ?B" using A B eq by auto
        then have "card (set (drop p1 ?xs) \<union> set (drop p2 ?ys)) = 1 + card (?A \<union> ?B)"
          unfolding e1 e2 using eq by simp
        then show ?thesis using rec ih by simp
      qed
    qed
  qed
qed

lemma add_merge_correct:
  assumes sx: "sorted_wrt (<) (xs::nat list)" and px: "\<forall>x\<in>set xs. 0 < x"
    and sy: "sorted_wrt (<) (ys::nat list)" and py: "\<forall>y\<in>set ys. 0 < y"
    and tl: "tp \<le> length (merged_splits xs ys)"
    and bl: "length (merged_splits xs ys) \<le> length buf"
    and yl: "length ys \<le> length b2" and yb: "\<forall>i<length ys. b2 ! i = ys ! i"
    and low: "\<forall>i<slice_of xs (slice_start (merged_splits xs ys) tp). buf ! i = xs ! i"
    and high: "\<forall>i. tp \<le> i \<longrightarrow> i < length (merged_splits xs ys) \<longrightarrow> buf ! i = merged_splits xs ys ! i"
  shows "\<exists>buf'. add_merge buf b2 (slice_of xs (slice_start (merged_splits xs ys) tp))
                    (slice_of ys (slice_start (merged_splits xs ys) tp)) tp = Some buf' \<and>
            length buf' = length buf \<and>
            take (length (merged_splits xs ys)) buf' = merged_splits xs ys"
  using tl bl low high
proof (induction tp arbitrary: buf rule: less_induct)
  case (less tp)
  let ?zs = "merged_splits xs ys"
  let ?r = "slice_start ?zs tp"
  let ?p1 = "slice_of xs ?r"
  let ?p2 = "slice_of ys ?r"
  have sz: "sorted_wrt (<) ?zs" by (rule merged_splits_sorted)
  have pz: "\<forall>z\<in>set ?zs. 0 < z" using px py by (rule merged_splits_pos)
  have tz: "slice_of ?zs ?r = tp" using sz pz less.prems(1) by (rule slice_start_slice)
  have p1t: "?p1 \<le> tp" using slice_of_merged_bounds(1)[OF sx sy, of ?r] tz by simp
  have p2t: "?p2 \<le> tp" using slice_of_merged_bounds(2)[OF sx sy, of ?r] tz by simp
  have p2y: "?p2 \<le> length ys" by (rule slice_of_le_length)
  show ?case
  proof (cases "tp = ?p1")
    case True
    have run: "add_merge buf b2 ?p1 ?p2 tp = Some buf"
      using True by (subst add_merge.simps) simp
    have pe: "take ?p1 xs = take tp ?zs"
      using prefix_eq[OF sx sz, of ?r] tz True by simp
    have "take (length ?zs) buf = ?zs"
    proof (rule nth_equalityI)
      show "length (take (length ?zs) buf) = length ?zs" using less.prems(2) by simp
    next
      fix i assume "i < length (take (length ?zs) buf)"
      then have i: "i < length ?zs" by simp
      show "take (length ?zs) buf ! i = ?zs ! i"
      proof (cases "i < tp")
        case lt: True
        then have "buf ! i = xs ! i" using less.prems(3) True by simp
        also have "\<dots> = take ?p1 xs ! i" using lt True by simp
        also have "\<dots> = ?zs ! i" unfolding pe using lt by simp
        finally show ?thesis using i by simp
      next
        case False
        then show ?thesis using less.prems(4) i by simp
      qed
    qed
    then show ?thesis using run by simp
  next
    case n1: False
    show ?thesis
    proof (cases "tp = ?p2")
      case True
      have tb: "tp \<le> length buf" "tp \<le> length b2" using less.prems(1,2) True p2y yl by simp_all
      have run: "add_merge buf b2 ?p1 ?p2 tp = Some (take tp b2 @ drop tp buf)"
        using n1 True tb by (subst add_merge.simps) (simp add: memcpy_def)
      have pe: "take ?p2 ys = take tp ?zs"
        using prefix_eq[OF sy sz, of ?r] tz True by simp
      have "take (length ?zs) (take tp b2 @ drop tp buf) = ?zs"
      proof (rule nth_equalityI)
        show "length (take (length ?zs) (take tp b2 @ drop tp buf)) = length ?zs"
          using less.prems(1,2) tb by simp
      next
        fix i assume "i < length (take (length ?zs) (take tp b2 @ drop tp buf))"
        then have i: "i < length ?zs" by simp
        show "take (length ?zs) (take tp b2 @ drop tp buf) ! i = ?zs ! i"
        proof (cases "i < tp")
          case lt: True
          then have "i < length ys" using True p2y by simp
          then have "b2 ! i = ys ! i" using yb by simp
          also have "\<dots> = take ?p2 ys ! i" using lt True by simp
          also have "\<dots> = ?zs ! i" unfolding pe using lt by simp
          finally show ?thesis using i lt tb by (simp add: nth_append)
        next
          case False
          then have "buf ! i = ?zs ! i" using less.prems(4) i by simp
          then show ?thesis using i False tb less.prems(2) by (simp add: nth_append)
        qed
      qed
      moreover have "length (take tp b2 @ drop tp buf) = length buf" using tb by simp
      ultimately show ?thesis using run by simp
    next
      case n2: False
      have t0: "0 < tp"
      proof (rule ccontr)
        assume "\<not> 0 < tp"
        then show False using p1t n1 by simp
      qed
      have q1: "0 < ?p1"
      proof (rule ccontr)
        assume "\<not> 0 < ?p1"
        then have "slice_of ?zs ?r = ?p2" using slice_of_merged_bounds(3)[OF sx sy, of ?r] by simp
        then show False using tz n2 by simp
      qed
      have q2: "0 < ?p2"
      proof (rule ccontr)
        assume "\<not> 0 < ?p2"
        then have "slice_of ?zs ?r = ?p1" using slice_of_merged_bounds(4)[OF sx sy, of ?r] by simp
        then show False using tz n1 by simp
      qed
      note ms = merge_step[OF sx px sy py t0 less.prems(1)]
      let ?z = "?zs ! (tp - 1)"
      have rz: "?r = ?z" using ms(4) .
      have q1z: "0 < slice_of xs ?z" and q2z: "0 < slice_of ys ?z" using q1 q2 rz by simp_all
      note mc = merge_compare[OF sx sy ms(1) q1z q2z]
      have d1: "buf ! (?p1 - 1) = xs ! (slice_of xs ?z - 1)" using less.prems(3) q1 rz by simp
      have d2: "b2 ! (?p2 - 1) = ys ! (slice_of ys ?z - 1)" using yb q2 p2y rz by simp
      have bounds: "\<not> (length buf \<le> ?p1 - 1 \<or> length b2 \<le> ?p2 - 1 \<or> length buf \<le> tp - 1)"
        using q1 q2 p1t p2y yl t0 less.prems(1,2) by linarith
      have guards: "\<not> (?p1 = 0 \<or> ?p2 = 0 \<or> tp = 0)" using q1 q2 t0 by simp
      let ?p1' = "slice_of xs (slice_start ?zs (tp - 1))"
      let ?p2' = "slice_of ys (slice_start ?zs (tp - 1))"
      let ?buf1 = "buf[tp - 1 := ?z]"
      have n1': "tp \<noteq> ?p1" and n2': "tp \<noteq> ?p2" using n1 n2 by simp_all
      have e1: "(if b2 ! (?p2 - 1) \<le> buf ! (?p1 - 1) then ?p1 - 1 else ?p1) = ?p1'"
        unfolding d1 d2 using mc(1) ms(2) rz by simp
      have e2: "(if buf ! (?p1 - 1) \<le> b2 ! (?p2 - 1) then ?p2 - 1 else ?p2) = ?p2'"
        unfolding d1 d2 using mc(2) ms(3) rz by simp
      have e3: "(if buf ! (?p1 - 1) \<le> b2 ! (?p2 - 1) then b2 ! (?p2 - 1) else buf ! (?p1 - 1)) = ?z"
        unfolding d1 d2 using mc(3) .
      have rec: "add_merge buf b2 ?p1 ?p2 tp = add_merge ?buf1 b2 ?p1' ?p2' (tp - 1)"
        by (subst add_merge.simps) (simp only: n1' n2' guards bounds if_False Let_def e1 e2 e3)
      have p1': "?p1' \<le> ?p1" using ms(2) rz by simp
      have p1lt: "?p1 < tp" using p1t n1 by simp
      have low': "\<forall>i<?p1'. ?buf1 ! i = xs ! i"
      proof (intro allI impI)
        fix i assume "i < ?p1'"
        then have "i < ?p1" using p1' by simp
        then show "?buf1 ! i = xs ! i" using less.prems(3) p1lt by simp
      qed
      have high': "\<forall>i. tp - 1 \<le> i \<longrightarrow> i < length ?zs \<longrightarrow> ?buf1 ! i = ?zs ! i"
      proof (intro allI impI)
        fix i assume i: "tp - 1 \<le> i" "i < length ?zs"
        show "?buf1 ! i = ?zs ! i"
        proof (cases "i = tp - 1")
          case True
          then show ?thesis using i less.prems(2) by simp
        next
          case False
          then have "tp \<le> i" using i(1) by simp
          then show ?thesis using less.prems(4) i(2) False by simp
        qed
      qed
      have "\<exists>buf'. add_merge ?buf1 b2 ?p1' ?p2' (tp - 1) = Some buf' \<and>
            length buf' = length ?buf1 \<and> take (length ?zs) buf' = ?zs"
        using t0 less.prems(1,2) low' high' by (intro less.IH) simp_all
      then show ?thesis using rec by simp
    qed
  qed
qed

lemma wf_slices_pos: "list_all wf_dimension ds \<Longrightarrow> 0 < prod_list (map m_cSlices ds)"
  by (induction ds) (auto simp: wf_dimension_def)

lemma both_wf_D: "both_wf ds1 ds2 \<Longrightarrow> list_all wf_dimension ds1 \<and> list_all wf_dimension ds2"
  by (induction ds1 ds2 rule: list_all2_induct) auto

text \<open>The facts about one dimension that the walk over the cells uses.\<close>

lemma merged_dimension_facts:
  assumes "wf_dimension d1" "wf_dimension d2"
  shows "sorted_wrt (<) (merged_dimension d1 d2)"
    and "\<forall>z\<in>set (merged_dimension d1 d2). 0 < z"
    and "set (merged_dimension d1 d2) = set (live_splits d1) \<union> set (live_splits d2)"
    and "slice_of (live_splits d1) (slice_start (merged_dimension d1 d2) 0) = 0"
    and "slice_of (live_splits d2) (slice_start (merged_dimension d1 d2) 0) = 0"
    and "slice_of (live_splits d1) (slice_start (merged_dimension d1 d2) (length (merged_dimension d1 d2)))
           = m_cSlices d1 - 1"
    and "slice_of (live_splits d2) (slice_start (merged_dimension d1 d2) (length (merged_dimension d1 d2)))
           = m_cSlices d2 - 1"
proof -
  note s1 = wf_dimension_splits[OF assms(1)] and s2 = wf_dimension_splits[OF assms(2)]
  show sz: "sorted_wrt (<) (merged_dimension d1 d2)"
    unfolding merged_dimension_def by (rule merged_splits_sorted)
  show "\<forall>z\<in>set (merged_dimension d1 d2). 0 < z"
    unfolding merged_dimension_def using s1(4) s2(4) by (rule merged_splits_pos)
  show "set (merged_dimension d1 d2) = set (live_splits d1) \<union> set (live_splits d2)"
    by (simp add: merged_dimension_def)
  show "slice_of (live_splits d1) (slice_start (merged_dimension d1 d2) 0) = 0"
    using s1(4) by (simp add: slice_start_def slice_of_zero)
  show "slice_of (live_splits d2) (slice_start (merged_dimension d1 d2) 0) = 0"
    using s2(4) by (simp add: slice_start_def slice_of_zero)
  have "slice_of (live_splits d1) (slice_start (merged_dimension d1 d2) (length (merged_dimension d1 d2)))
           = length (live_splits d1)"
    using sz by (rule slice_of_top) (simp add: merged_dimension_def)
  then show "slice_of (live_splits d1) (slice_start (merged_dimension d1 d2) (length (merged_dimension d1 d2)))
           = m_cSlices d1 - 1" using s1(1) by simp
  have "slice_of (live_splits d2) (slice_start (merged_dimension d1 d2) (length (merged_dimension d1 d2)))
           = length (live_splits d2)"
    using sz by (rule slice_of_top) (simp add: merged_dimension_def)
  then show "slice_of (live_splits d2) (slice_start (merged_dimension d1 d2) (length (merged_dimension d1 d2)))
           = m_cSlices d2 - 1" using s2(1) by simp
qed

lemma in_splits_slice_pos: "z \<in> set xs \<Longrightarrow> 0 < slice_of xs z"
  using no_slice_no_split[of xs z] by (cases "slice_of xs z") auto

lemma add_step_both:
  assumes "0 < p1" "0 < p2" "p1 - 1 < length (m_aSplits d1)" "p2 - 1 < length (m_aSplits d2)"
    and "bm1 = (m_aSplits d2 ! (p2 - 1) \<le> m_aSplits d1 ! (p1 - 1))"
    and "bm2 = (m_aSplits d1 ! (p1 - 1) \<le> m_aSplits d2 ! (p2 - 1))"
    and "mult1 \<le> A" "mult2 \<le> B"
  shows "add_step mult1 mult2 (d1 # r1) (d2 # r2)
           (\<lparr> m_pSplit1 = p1, m_pSplit2 = p2, m_cNewSlices = n \<rparr> # stk) A B =
         Some (\<lparr> m_pSplit1 = (if bm1 then p1 - 1 else p1), m_pSplit2 = (if bm2 then p2 - 1 else p2),
                  m_cNewSlices = n \<rparr> # stk,
               if bm1 then A - mult1 else A, if bm2 then B - mult2 else B)"
  using assms by (simp add: Let_def)

lemma add_step_first:
  assumes "0 < p1" "mult1 \<le> A"
  shows "add_step mult1 mult2 (d1 # r1) (d2 # r2)
           (\<lparr> m_pSplit1 = p1, m_pSplit2 = 0, m_cNewSlices = n \<rparr> # stk) A B =
         Some (\<lparr> m_pSplit1 = p1 - 1, m_pSplit2 = 0, m_cNewSlices = n \<rparr> # stk, A - mult1, B)"
  using assms by (simp add: Let_def)

lemma add_step_second:
  assumes "0 < p2" "mult2 \<le> B"
  shows "add_step mult1 mult2 (d1 # r1) (d2 # r2)
           (\<lparr> m_pSplit1 = 0, m_pSplit2 = p2, m_cNewSlices = n \<rparr> # stk) A B =
         Some (\<lparr> m_pSplit1 = 0, m_pSplit2 = p2 - 1, m_cNewSlices = n \<rparr> # stk, A, B - mult2)"
  using assms by (simp add: Let_def)

lemma add_step_correct:
  assumes "both_wf ds1 ds2"
    and "valid_cell (merged_counts ds1 ds2) ms" and "0 < cell_offset (merged_counts ds1 ds2) ms"
    and "mult1 * prod_list (map m_cSlices ds1) \<le> size_max"
    and "mult2 * prod_list (map m_cSlices ds2) \<le> size_max"
  shows "add_step mult1 mult2 (ds1 @ rest1) (ds2 @ rest2) (add_stack ds1 ds2 ms)
            (mult1 * (source_offset ds1 (merged_bins ds1 ds2 ms) + 1))
            (mult2 * (source_offset ds2 (merged_bins ds1 ds2 ms) + 1)) =
         Some (add_stack ds1 ds2 (previous_cell (merged_counts ds1 ds2) ms),
               mult1 * (source_offset ds1 (merged_bins ds1 ds2 (previous_cell (merged_counts ds1 ds2) ms)) + 1),
               mult2 * (source_offset ds2 (merged_bins ds1 ds2 (previous_cell (merged_counts ds1 ds2) ms)) + 1))"
  using assms
proof (induction ds1 ds2 arbitrary: ms mult1 mult2 rule: list_all2_induct)
  case Nil
  then show ?case by simp
next
  case (Cons d1 ds1 d2 ds2)
  let ?zs = "merged_dimension d1 d2"
  let ?xs = "live_splits d1"
  let ?ys = "live_splits d2"
  let ?n = "length ?zs + 1"
  let ?ns = "merged_counts ds1 ds2"
  note w1 = Cons.hyps(1)[THEN conjunct1] and w2 = Cons.hyps(1)[THEN conjunct2]
  note s1 = wf_dimension_splits[OF w1] and s2 = wf_dimension_splits[OF w2]
  note mf = merged_dimension_facts[OF w1 w2]
  from Cons.prems(1) obtain m ms' where ms: "ms = m # ms'" "m < ?n" "valid_cell ?ns ms'"
    using valid_cell_ConsD[of ?n ?ns ms] by auto
  let ?c1 = "m_cSlices d1"
  let ?c2 = "m_cSlices d2"
  let ?o1 = "source_offset ds1 (merged_bins ds1 ds2 ms')"
  let ?o2 = "source_offset ds2 (merged_bins ds1 ds2 ms')"
  let ?p1 = "slice_of ?xs (slice_start ?zs m)"
  let ?p2 = "slice_of ?ys (slice_start ?zs m)"
  define P1 where "P1 = mult1 * (source_offset (d1 # ds1) (merged_bins (d1 # ds1) (d2 # ds2) ms) + 1)"
  define P2 where "P2 = mult2 * (source_offset (d2 # ds2) (merged_bins (d1 # ds1) (d2 # ds2) ms) + 1)"
  have P1: "P1 = mult1 * (?p1 + ?c1 * ?o1 + 1)" unfolding P1_def using ms(1) by (simp add: source_offset_def)
  have P2: "P2 = mult2 * (?p2 + ?c2 * ?o2 + 1)" unfolding P2_def using ms(1) by (simp add: source_offset_def)
  have p1l: "?p1 \<le> ?c1 - 1" using slice_of_le_length[of ?xs] s1(1) by simp
  have p2l: "?p2 \<le> ?c2 - 1" using slice_of_le_length[of ?ys] s2(1) by simp
  have goal: "add_step mult1 mult2 ((d1 # ds1) @ rest1) ((d2 # ds2) @ rest2)
                (add_stack (d1 # ds1) (d2 # ds2) ms) P1 P2 =
         Some (add_stack (d1 # ds1) (d2 # ds2) (previous_cell (merged_counts (d1 # ds1) (d2 # ds2)) ms),
               mult1 * (source_offset (d1 # ds1) (merged_bins (d1 # ds1) (d2 # ds2)
                          (previous_cell (merged_counts (d1 # ds1) (d2 # ds2)) ms)) + 1),
               mult2 * (source_offset (d2 # ds2) (merged_bins (d1 # ds1) (d2 # ds2)
                          (previous_cell (merged_counts (d1 # ds1) (d2 # ds2)) ms)) + 1))"
  proof (cases "0 < m")
    case True
    have ml: "m \<le> length (merged_splits ?xs ?ys)" using ms(2) by (simp add: merged_dimension_def)
    note st = merge_step[OF s1(2,4) s2(2,4) True ml, folded merged_dimension_def]
    let ?z = "?zs ! (m - 1)"
    have rz: "slice_start ?zs m = ?z" using st(4) .
    let ?q1 = "slice_of ?xs (slice_start ?zs (m - 1))"
    let ?q2 = "slice_of ?ys (slice_start ?zs (m - 1))"
    have prev: "previous_cell (merged_counts (d1 # ds1) (d2 # ds2)) ms = (m - 1) # ms'"
      using ms(1) True by simp
    have R1: "mult1 * (source_offset (d1 # ds1) (merged_bins (d1 # ds1) (d2 # ds2) ((m - 1) # ms')) + 1)
               = mult1 * (?q1 + ?c1 * ?o1 + 1)" by (simp add: source_offset_def)
    have R2: "mult2 * (source_offset (d2 # ds2) (merged_bins (d1 # ds1) (d2 # ds2) ((m - 1) # ms')) + 1)
               = mult2 * (?q2 + ?c2 * ?o2 + 1)" by (simp add: source_offset_def)
    have stk: "add_stack (d1 # ds1) (d2 # ds2) ms =
                 \<lparr> m_pSplit1 = ?p1, m_pSplit2 = ?p2, m_cNewSlices = ?n \<rparr> # add_stack ds1 ds2 ms'"
      using ms(1) by simp
    have stk': "add_stack (d1 # ds1) (d2 # ds2) ((m - 1) # ms') =
                 \<lparr> m_pSplit1 = ?q1, m_pSplit2 = ?q2, m_cNewSlices = ?n \<rparr> # add_stack ds1 ds2 ms'"
      by simp
    define A where "A = mult1 * (?p1 + ?c1 * ?o1 + 1)"
    define B where "B = mult2 * (?p2 + ?c2 * ?o2 + 1)"
    have geA: "mult1 \<le> A" and geB: "mult2 \<le> B" unfolding A_def B_def by simp_all
    have e1: "(if ?z \<in> set ?xs then ?p1 - 1 else ?p1) = ?q1" using st(2) rz by simp
    have e2: "(if ?z \<in> set ?ys then ?p2 - 1 else ?p2) = ?q2" using st(3) rz by simp
    have t1: "(if ?z \<in> set ?xs then A - mult1 else A) = mult1 * (?q1 + ?c1 * ?o1 + 1)"
    proof (cases "?z \<in> set ?xs")
      case True
      then have "0 < ?p1" using in_splits_slice_pos[of ?z ?xs] rz by simp
      then obtain k where k: "?p1 = Suc k" by (cases ?p1) auto
      have "?q1 = k" using e1 True k by simp
      then show ?thesis using True unfolding A_def k by (simp add: algebra_simps)
    next
      case False
      then have "?q1 = ?p1" using e1 by simp
      then show ?thesis using False unfolding A_def by simp
    qed
    have t2: "(if ?z \<in> set ?ys then B - mult2 else B) = mult2 * (?q2 + ?c2 * ?o2 + 1)"
    proof (cases "?z \<in> set ?ys")
      case True
      then have "0 < ?p2" using in_splits_slice_pos[of ?z ?ys] rz by simp
      then obtain k where k: "?p2 = Suc k" by (cases ?p2) auto
      have "?q2 = k" using e2 True k by simp
      then show ?thesis using True unfolding B_def k by (simp add: algebra_simps)
    next
      case False
      then have "?q2 = ?p2" using e2 by simp
      then show ?thesis using False unfolding B_def by simp
    qed
    have step: "add_step mult1 mult2 (d1 # (ds1 @ rest1)) (d2 # (ds2 @ rest2))
                  (\<lparr> m_pSplit1 = ?p1, m_pSplit2 = ?p2, m_cNewSlices = ?n \<rparr> # add_stack ds1 ds2 ms')
                  A B =
                Some (\<lparr> m_pSplit1 = ?q1, m_pSplit2 = ?q2, m_cNewSlices = ?n \<rparr> # add_stack ds1 ds2 ms',
                      mult1 * (?q1 + ?c1 * ?o1 + 1), mult2 * (?q2 + ?c2 * ?o2 + 1))"
    proof (cases "0 < ?p1")
      case a: True
      show ?thesis
      proof (cases "0 < ?p2")
        case b: True
        have q1z: "0 < slice_of ?xs ?z" and q2z: "0 < slice_of ?ys ?z" using a b rz by simp_all
        note mc = merge_compare[OF s1(2) s2(2) st(1) q1z q2z]
        have i1: "?p1 - 1 < ?c1 - 1" and i2: "?p2 - 1 < ?c2 - 1" using a b p1l p2l by linarith+
        have r1: "m_aSplits d1 ! (?p1 - 1) = ?xs ! (slice_of ?xs ?z - 1)" using s1(5)[OF i1] rz by simp
        have r2: "m_aSplits d2 ! (?p2 - 1) = ?ys ! (slice_of ?ys ?z - 1)" using s2(5)[OF i2] rz by simp
        have m1: "(?z \<in> set ?xs) = (m_aSplits d2 ! (?p2 - 1) \<le> m_aSplits d1 ! (?p1 - 1))"
          unfolding r1 r2 using mc(1) by simp
        have m2: "(?z \<in> set ?ys) = (m_aSplits d1 ! (?p1 - 1) \<le> m_aSplits d2 ! (?p2 - 1))"
          unfolding r1 r2 using mc(2) by simp
        have "add_step mult1 mult2 (d1 # (ds1 @ rest1)) (d2 # (ds2 @ rest2))
                  (\<lparr> m_pSplit1 = ?p1, m_pSplit2 = ?p2, m_cNewSlices = ?n \<rparr> # add_stack ds1 ds2 ms') A B =
              Some (\<lparr> m_pSplit1 = (if ?z \<in> set ?xs then ?p1 - 1 else ?p1),
                       m_pSplit2 = (if ?z \<in> set ?ys then ?p2 - 1 else ?p2), m_cNewSlices = ?n \<rparr>
                      # add_stack ds1 ds2 ms',
                    if ?z \<in> set ?xs then A - mult1 else A, if ?z \<in> set ?ys then B - mult2 else B)"
          using a b s1(6)[OF i1] s2(6)[OF i2] m1 m2 geA geB by (rule add_step_both)
        then show ?thesis unfolding e1 e2 t1 t2 .
      next
        case b: False
        then have p20: "?p2 = 0" by simp
        then have ny: "?z \<notin> set ?ys" using rz no_slice_no_split[of ?ys ?z] by simp
        then have zx: "?z \<in> set ?xs" using st(1) by simp
        have X: "add_step mult1 mult2 (d1 # (ds1 @ rest1)) (d2 # (ds2 @ rest2))
                  (\<lparr> m_pSplit1 = ?p1, m_pSplit2 = 0, m_cNewSlices = ?n \<rparr> # add_stack ds1 ds2 ms') A B =
              Some (\<lparr> m_pSplit1 = ?p1 - 1, m_pSplit2 = 0, m_cNewSlices = ?n \<rparr> # add_stack ds1 ds2 ms',
                    A - mult1, B)"
          using a geA by (rule add_step_first)
        have "?p1 - 1 = ?q1" "0 = ?q2" using e1 e2 zx ny p20 by simp_all
        moreover have "A - mult1 = mult1 * (?q1 + ?c1 * ?o1 + 1)" using t1 zx by simp
        moreover have "B = mult2 * (?q2 + ?c2 * ?o2 + 1)" using t2 ny by simp
        ultimately have Y: "Some (\<lparr> m_pSplit1 = ?p1 - 1, m_pSplit2 = 0, m_cNewSlices = ?n \<rparr> # add_stack ds1 ds2 ms',
                    A - mult1, B) =
                Some (\<lparr> m_pSplit1 = ?q1, m_pSplit2 = ?q2, m_cNewSlices = ?n \<rparr> # add_stack ds1 ds2 ms',
                      mult1 * (?q1 + ?c1 * ?o1 + 1), mult2 * (?q2 + ?c2 * ?o2 + 1))"
          by simp
        show ?thesis unfolding p20 by (rule trans[OF X Y])
      qed
    next
      case a: False
      then have p10: "?p1 = 0" by simp
      then have nx: "?z \<notin> set ?xs" using rz no_slice_no_split[of ?xs ?z] by simp
      then have zy: "?z \<in> set ?ys" using st(1) by simp
      have b: "0 < ?p2" using in_splits_slice_pos[OF zy] rz by simp
      have X: "add_step mult1 mult2 (d1 # (ds1 @ rest1)) (d2 # (ds2 @ rest2))
                  (\<lparr> m_pSplit1 = 0, m_pSplit2 = ?p2, m_cNewSlices = ?n \<rparr> # add_stack ds1 ds2 ms') A B =
              Some (\<lparr> m_pSplit1 = 0, m_pSplit2 = ?p2 - 1, m_cNewSlices = ?n \<rparr> # add_stack ds1 ds2 ms',
                    A, B - mult2)"
        using b geB by (rule add_step_second)
      have "0 = ?q1" "?p2 - 1 = ?q2" using e1 e2 zy nx p10 by simp_all
      moreover have "A = mult1 * (?q1 + ?c1 * ?o1 + 1)" using t1 nx by simp
      moreover have "B - mult2 = mult2 * (?q2 + ?c2 * ?o2 + 1)" using t2 zy by simp
      ultimately have Y: "Some (\<lparr> m_pSplit1 = 0, m_pSplit2 = ?p2 - 1, m_cNewSlices = ?n \<rparr> # add_stack ds1 ds2 ms',
                    A, B - mult2) =
                Some (\<lparr> m_pSplit1 = ?q1, m_pSplit2 = ?q2, m_cNewSlices = ?n \<rparr> # add_stack ds1 ds2 ms',
                      mult1 * (?q1 + ?c1 * ?o1 + 1), mult2 * (?q2 + ?c2 * ?o2 + 1))"
        by simp
      show ?thesis unfolding p10 by (rule trans[OF X Y])
    qed
    have PA: "P1 = A" and PB: "P2 = B" unfolding P1 P2 A_def B_def by simp_all
    show ?thesis unfolding prev R1 R2 stk' unfolding PA PB stk append_Cons using step .
  next
    case False
    then have m0: "m = 0" by simp
    have p10: "?p1 = 0" and p20: "?p2 = 0" using mf(4,5) m0 by simp_all
    from Cons.prems(2) ms(1) m0 have pos: "0 < cell_offset ?ns ms'"
      by (cases "cell_offset ?ns ms'") auto
    have wfs: "list_all wf_dimension ds1" "list_all wf_dimension ds2"
      using both_wf_D[OF Cons.hyps(2)] by simp_all
    have pp1: "0 < prod_list (map m_cSlices ds1)" and pp2: "0 < prod_list (map m_cSlices ds2)"
      using wfs by (simp_all add: wf_slices_pos)
    have tot1: "mult1 * ?c1 * prod_list (map m_cSlices ds1) \<le> size_max"
      using Cons.prems(3) by (simp add: mult.assoc)
    have tot2: "mult2 * ?c2 * prod_list (map m_cSlices ds2) \<le> size_max"
      using Cons.prems(4) by (simp add: mult.assoc)
    have "mult1 * ?c1 \<le> mult1 * ?c1 * prod_list (map m_cSlices ds1)" using pp1 by simp
    then have "mult1 * ?c1 \<le> size_max" using tot1 by (rule le_trans)
    then have wr1: "wrap_size (mult1 * ?c1) = mult1 * ?c1" by (rule wrap_size_id)
    have "mult2 * ?c2 \<le> mult2 * ?c2 * prod_list (map m_cSlices ds2)" using pp2 by simp
    then have "mult2 * ?c2 \<le> size_max" using tot2 by (rule le_trans)
    then have wr2: "wrap_size (mult2 * ?c2) = mult2 * ?c2" by (rule wrap_size_id)
    let ?pm = "previous_cell ?ns ms'"
    define Q1 where "Q1 = mult1 * ?c1 * (?o1 + 1)"
    define Q2 where "Q2 = mult2 * ?c2 * (?o2 + 1)"
    define R1 where "R1 = mult1 * ?c1 * (source_offset ds1 (merged_bins ds1 ds2 ?pm) + 1)"
    define R2 where "R2 = mult2 * ?c2 * (source_offset ds2 (merged_bins ds1 ds2 ?pm) + 1)"
    have ih: "add_step (mult1 * ?c1) (mult2 * ?c2) (ds1 @ rest1) (ds2 @ rest2) (add_stack ds1 ds2 ms') Q1 Q2 =
                Some (add_stack ds1 ds2 ?pm, R1, R2)"
      unfolding Q1_def Q2_def R1_def R2_def using Cons.IH[OF ms(3) pos tot1 tot2] .
    have g1: "\<not> P1 < mult1" and g2: "\<not> P2 < mult2" unfolding P1 P2 by simp_all
    have a1: "P1 - mult1 + mult1 * ?c1 = Q1" unfolding P1 Q1_def using p10 by (simp add: algebra_simps)
    have a2: "P2 - mult2 + mult2 * ?c2 = Q2" unfolding P2 Q2_def using p20 by (simp add: algebra_simps)
    have c1: "1 \<le> ?c1" and c2: "1 \<le> ?c2" using s1(7) s2(7) by simp_all
    have prev: "previous_cell (merged_counts (d1 # ds1) (d2 # ds2)) ms = length ?zs # ?pm"
      using ms(1) m0 by simp
    have b1: "R1 = mult1 * (source_offset (d1 # ds1) (merged_bins (d1 # ds1) (d2 # ds2) (length ?zs # ?pm)) + 1)"
      unfolding R1_def using c1 mf(6) by (cases ?c1) (simp_all add: source_offset_def algebra_simps)
    have b2: "R2 = mult2 * (source_offset (d2 # ds2) (merged_bins (d1 # ds1) (d2 # ds2) (length ?zs # ?pm)) + 1)"
      unfolding R2_def using c2 mf(7) by (cases ?c2) (simp_all add: source_offset_def algebra_simps)
    have "add_step mult1 mult2 ((d1 # ds1) @ rest1) ((d2 # ds2) @ rest2)
                (add_stack (d1 # ds1) (d2 # ds2) ms) P1 P2 =
            Some (add_stack (d1 # ds1) (d2 # ds2) (length ?zs # ?pm), R1, R2)"
      using ms(1) m0 p10 p20 g1 g2 a1 a2 wr1 wr2 ih mf(6,7) by (simp add: Let_def)
    then show ?thesis unfolding prev b1 b2 .
  qed
  show ?case using goal unfolding P1_def P2_def .
qed

lemma source_offset_bound:
  "list_all wf_dimension ds \<Longrightarrow> source_offset ds bs < prod_list (map m_cSlices ds)"
  unfolding source_offset_def
proof (induction ds arbitrary: bs)
  case Nil
  then show ?case by simp
next
  case (Cons d ds)
  have wd: "wf_dimension d" and wds: "list_all wf_dimension ds" using Cons.prems by simp_all
  let ?c = "m_cSlices d"
  let ?p = "prod_list (map m_cSlices ds)"
  have c1: "1 \<le> ?c" using wd by (simp add: wf_dimension_def)
  show ?case
  proof (cases bs)
    case Nil
    have "0 < ?c * ?p" using c1 wf_slices_pos[OF wds] by simp
    then show ?thesis using Nil by simp
  next
    case (Cons b bs')
    let ?o = "cell_offset (map m_cSlices ds) (source_cell ds bs')"
    have s: "slice_of (live_splits d) b \<le> ?c - 1"
      using slice_of_le_length[of "live_splits d" b] wf_dimension_splits(1)[OF wd] by simp
    have o: "?o + 1 \<le> ?p" using Cons.IH[OF wds, of bs'] by simp
    have "slice_of (live_splits d) b + ?c * ?o < ?c + ?c * ?o" using s c1 by simp
    also have "\<dots> = ?c * (?o + 1)" by simp
    also have "\<dots> \<le> ?c * ?p" using o by (rule mult_le_mono2)
    finally show ?thesis using Cons by simp
  qed
qed

lemma merged_lengths:
  assumes "wf_dimension d1" "wf_dimension d2"
  shows "m_cSlices d1 \<le> length (merged_dimension d1 d2) + 1"
    and "m_cSlices d2 \<le> length (merged_dimension d1 d2) + 1"
    and "m \<le> length (merged_dimension d1 d2) \<Longrightarrow>
           slice_of (live_splits d1) (slice_start (merged_dimension d1 d2) m) \<le> m"
    and "m \<le> length (merged_dimension d1 d2) \<Longrightarrow>
           slice_of (live_splits d2) (slice_start (merged_dimension d1 d2) m) \<le> m"
proof -
  let ?zs = "merged_dimension d1 d2"
  let ?xs = "live_splits d1"
  let ?ys = "live_splits d2"
  note s1 = wf_dimension_splits[OF assms(1)] and s2 = wf_dimension_splits[OF assms(2)]
  note mf = merged_dimension_facts[OF assms]
  have b1: "slice_of ?xs b \<le> slice_of ?zs b" and b2: "slice_of ?ys b \<le> slice_of ?zs b" for b
    using slice_of_merged_bounds(1,2)[OF s1(2) s2(2), of b] by (simp_all add: merged_dimension_def)
  have tz: "slice_of ?zs (slice_start ?zs m) = m" if "m \<le> length ?zs" for m
    using mf(1,2) that by (rule slice_start_slice)
  show "m \<le> length ?zs \<Longrightarrow> slice_of ?xs (slice_start ?zs m) \<le> m"
    using b1[of "slice_start ?zs m"] tz[of m] by simp
  show "m \<le> length ?zs \<Longrightarrow> slice_of ?ys (slice_start ?zs m) \<le> m"
    using b2[of "slice_start ?zs m"] tz[of m] by simp
  have "m_cSlices d1 - 1 \<le> length ?zs"
    using b1[of "slice_start ?zs (length ?zs)"] tz[of "length ?zs"] mf(6) by simp
  then show "m_cSlices d1 \<le> length ?zs + 1" by simp
  have "m_cSlices d2 - 1 \<le> length ?zs"
    using b2[of "slice_start ?zs (length ?zs)"] tz[of "length ?zs"] mf(7) by simp
  then show "m_cSlices d2 \<le> length ?zs + 1" by simp
qed

lemma merged_source_le:
  assumes "both_wf ds1 ds2" "valid_cell (merged_counts ds1 ds2) ms"
  shows "source_offset ds1 (merged_bins ds1 ds2 ms) \<le> cell_offset (merged_counts ds1 ds2) ms \<and>
         source_offset ds2 (merged_bins ds1 ds2 ms) \<le> cell_offset (merged_counts ds1 ds2) ms"
  using assms
proof (induction ds1 ds2 arbitrary: ms rule: list_all2_induct)
  case Nil
  then show ?case by (simp add: source_offset_def)
next
  case (Cons d1 ds1 d2 ds2)
  let ?zs = "merged_dimension d1 d2"
  note w1 = Cons.hyps(1)[THEN conjunct1] and w2 = Cons.hyps(1)[THEN conjunct2]
  note ml = merged_lengths[OF w1 w2]
  from Cons.prems obtain m ms' where ms: "ms = m # ms'" "m < length ?zs + 1" "valid_cell (merged_counts ds1 ds2) ms'"
    using valid_cell_ConsD[of "length ?zs + 1" "merged_counts ds1 ds2" ms] by auto
  have m: "m \<le> length ?zs" using ms(2) by simp
  note ih = Cons.IH[OF ms(3)]
  have "m_cSlices d1 * source_offset ds1 (merged_bins ds1 ds2 ms') \<le>
            (length ?zs + 1) * cell_offset (merged_counts ds1 ds2) ms'"
    using ml(1) ih[THEN conjunct1] by (rule mult_le_mono)
  moreover have "m_cSlices d2 * source_offset ds2 (merged_bins ds1 ds2 ms') \<le>
            (length ?zs + 1) * cell_offset (merged_counts ds1 ds2) ms'"
    using ml(2) ih[THEN conjunct2] by (rule mult_le_mono)
  ultimately show ?case using ms(1) ml(3)[OF m] ml(4)[OF m]
    by (simp add: source_offset_def add_mono)
qed

lemma add_copy_correct:
  assumes "0 < S" "S \<le> p1" "p1 \<le> tp" "tp \<le> length scores" "S \<le> p2" "p2 \<le> length rhs"
  shows "\<exists>scores'. add_copy fadd p1 p2 tp (tp - S) scores rhs = Some (scores', tp - S) \<and>
           length scores' = length scores \<and>
           (\<forall>i<length scores. scores' ! i =
              (if tp - S \<le> i \<and> i < tp
               then fadd (scores ! (i + p1 - tp)) (rhs ! (i + p2 - tp)) else scores ! i))"
  using assms
proof (induction S arbitrary: p1 p2 tp scores)
  case 0
  then show ?case by simp
next
  case (Suc k)
  let ?s1 = "scores[tp - 1 := fadd (scores ! (p1 - 1)) (rhs ! (p2 - 1))]"
  have nz: "\<not> (p1 = 0 \<or> p2 = 0 \<or> tp = 0)"
    "\<not> (length scores \<le> p1 - 1 \<or> length rhs \<le> p2 - 1 \<or> length scores \<le> tp - 1)"
    using Suc.prems by linarith+
  show ?case
  proof (cases "k = 0")
    case True
    have "add_copy fadd p1 p2 tp (tp - Suc k) scores rhs = Some (?s1, tp - Suc k)"
      using nz True by (subst add_copy.simps) (simp add: Let_def)
    moreover have "\<forall>i<length scores. ?s1 ! i =
              (if tp - Suc k \<le> i \<and> i < tp
               then fadd (scores ! (i + p1 - tp)) (rhs ! (i + p2 - tp)) else scores ! i)"
    proof (intro allI impI)
      fix i assume i: "i < length scores"
      show "?s1 ! i = (if tp - Suc k \<le> i \<and> i < tp
               then fadd (scores ! (i + p1 - tp)) (rhs ! (i + p2 - tp)) else scores ! i)"
      proof (cases "i = tp - 1")
        case e: True
        then have "tp - Suc k \<le> i \<and> i < tp" "i + p1 - tp = p1 - 1" "i + p2 - tp = p2 - 1"
          using True Suc.prems by linarith+
        then show ?thesis using e i by simp
      next
        case False
        then have "\<not> (tp - Suc k \<le> i \<and> i < tp)" using True by linarith
        then show ?thesis using False by auto
      qed
    qed
    ultimately show ?thesis by simp
  next
    case False
    have ne: "tp - Suc k \<noteq> tp - 1" using False Suc.prems by linarith
    have e: "tp - Suc k = tp - 1 - k" by simp
    have rec: "add_copy fadd p1 p2 tp (tp - Suc k) scores rhs =
                 add_copy fadd (p1 - 1) (p2 - 1) (tp - 1) (tp - 1 - k) ?s1 rhs"
      unfolding e[symmetric] using nz ne by (subst add_copy.simps) (simp add: Let_def)
    have "\<exists>scores'. add_copy fadd (p1 - 1) (p2 - 1) (tp - 1) (tp - 1 - k) ?s1 rhs = Some (scores', tp - 1 - k) \<and>
           length scores' = length ?s1 \<and>
           (\<forall>i<length ?s1. scores' ! i =
              (if tp - 1 - k \<le> i \<and> i < tp - 1
               then fadd (?s1 ! (i + (p1 - 1) - (tp - 1))) (rhs ! (i + (p2 - 1) - (tp - 1))) else ?s1 ! i))"
    proof (intro Suc.IH)
      show "0 < k" using False by simp
      show "k \<le> p1 - 1" "p1 - 1 \<le> tp - 1" "k \<le> p2 - 1" "p2 - 1 \<le> length rhs"
        using Suc.prems by linarith+
      show "tp - 1 \<le> length ?s1" using Suc.prems by simp
    qed
    then obtain scores' where r:
      "add_copy fadd (p1 - 1) (p2 - 1) (tp - 1) (tp - 1 - k) ?s1 rhs = Some (scores', tp - 1 - k)"
      "length scores' = length scores"
      "\<forall>i<length scores. scores' ! i =
              (if tp - 1 - k \<le> i \<and> i < tp - 1
               then fadd (?s1 ! (i + (p1 - 1) - (tp - 1))) (rhs ! (i + (p2 - 1) - (tp - 1))) else ?s1 ! i)"
      by auto
    have "\<forall>i<length scores. scores' ! i =
              (if tp - Suc k \<le> i \<and> i < tp
               then fadd (scores ! (i + p1 - tp)) (rhs ! (i + p2 - tp)) else scores ! i)"
    proof (intro allI impI)
      fix i assume i: "i < length scores"
      show "scores' ! i = (if tp - Suc k \<le> i \<and> i < tp
               then fadd (scores ! (i + p1 - tp)) (rhs ! (i + p2 - tp)) else scores ! i)"
      proof (cases "tp - 1 - k \<le> i \<and> i < tp - 1")
        case True
        then have a: "i < tp" "tp - Suc k \<le> i" by linarith+
        have "scores' ! i = (if tp - 1 - k \<le> i \<and> i < tp - 1
               then fadd (?s1 ! (i + (p1 - 1) - (tp - 1))) (rhs ! (i + (p2 - 1) - (tp - 1))) else ?s1 ! i)"
          using r(3) i by blast
        then have b: "scores' ! i = fadd (?s1 ! (i + (p1 - 1) - (tp - 1))) (rhs ! (i + (p2 - 1) - (tp - 1)))"
          using True by (simp only: if_True simp_thms)
        have c: "i + (p1 - 1) - (tp - 1) \<noteq> tp - 1" using Suc.prems True by linarith
        have d1: "i + (p1 - 1) - (tp - 1) = i + p1 - tp" using Suc.prems True by linarith
        have d2: "i + (p2 - 1) - (tp - 1) = i + p2 - tp" using Suc.prems True by linarith
        have "?s1 ! (i + (p1 - 1) - (tp - 1)) = scores ! (i + p1 - tp)"
          using c unfolding d1 by (simp add: nth_list_update)
        then show ?thesis using a b d2 by simp
      next
        case False
        have "scores' ! i = (if tp - 1 - k \<le> i \<and> i < tp - 1
               then fadd (?s1 ! (i + (p1 - 1) - (tp - 1))) (rhs ! (i + (p2 - 1) - (tp - 1))) else ?s1 ! i)"
          using r(3) i by blast
        then have b: "scores' ! i = ?s1 ! i" using False by (simp only: if_False simp_thms)
        show ?thesis
        proof (cases "i = tp - 1")
          case e: True
          then have "tp - Suc k \<le> i \<and> i < tp" "i + p1 - tp = p1 - 1" "i + p2 - tp = p2 - 1"
            using Suc.prems by linarith+
          then show ?thesis using b e i by simp
        next
          case ne': False
          then have "\<not> (tp - Suc k \<le> i \<and> i < tp)" using False by linarith
          then show ?thesis using b ne' by auto
        qed
      qed
    qed
    then show ?thesis using rec r(1,2) by simp
  qed
qed

lemma merged_counts_pos: "both_wf ds1 ds2 \<Longrightarrow> \<forall>n\<in>set (merged_counts ds1 ds2). 0 < n"
  by (induction ds1 ds2 rule: list_all2_induct) auto

lemma add_loop_correct:
  assumes wf: "both_wf ds1 ds2" and S: "0 < S"
    and sm1: "S * prod_list (map m_cSlices ds1) \<le> size_max"
    and sm2: "S * prod_list (map m_cSlices ds2) \<le> size_max"
    and rl: "S * prod_list (map m_cSlices ds2) \<le> length rhs"
    and v: "valid_cell (merged_counts ds1 ds2) ms"
    and cl: "S * prod_list (merged_counts ds1 ds2) \<le> length cur"
    and ol: "length old = length cur"
    and co: "\<forall>i < S * (cell_offset (merged_counts ds1 ds2) ms + 1). cur ! i = old ! i"
  shows "\<exists>fin. add_loop fadd S (ds1 @ rest1) (ds2 @ rest2) (add_stack ds1 ds2 ms)
                  (S * (source_offset ds1 (merged_bins ds1 ds2 ms) + 1))
                  (S * (source_offset ds2 (merged_bins ds1 ds2 ms) + 1))
                  (S * (cell_offset (merged_counts ds1 ds2) ms + 1)) cur rhs = Some fin \<and>
           length fin = length cur \<and>
           (\<forall>ms'. valid_cell (merged_counts ds1 ds2) ms' \<longrightarrow>
              cell_offset (merged_counts ds1 ds2) ms' \<le> cell_offset (merged_counts ds1 ds2) ms \<longrightarrow>
              (\<forall>k<S. fin ! (S * cell_offset (merged_counts ds1 ds2) ms' + k) =
                 fadd (old ! (S * source_offset ds1 (merged_bins ds1 ds2 ms') + k))
                      (rhs ! (S * source_offset ds2 (merged_bins ds1 ds2 ms') + k)))) \<and>
           (\<forall>i. S * (cell_offset (merged_counts ds1 ds2) ms + 1) \<le> i \<longrightarrow> i < length cur \<longrightarrow>
              fin ! i = cur ! i)"
  using v cl ol co
proof (induction "cell_offset (merged_counts ds1 ds2) ms" arbitrary: ms cur rule: less_induct)
  case less
  let ?ns = "merged_counts ds1 ds2"
  let ?off = "cell_offset ?ns ms"
  let ?s1 = "source_offset ds1 (merged_bins ds1 ds2 ms)"
  let ?s2 = "source_offset ds2 (merged_bins ds1 ds2 ms)"
  let ?tp = "S * (?off + 1)"
  let ?p1 = "S * (?s1 + 1)"
  let ?p2 = "S * (?s2 + 1)"
  note wfs = both_wf_D[OF wf]
  have s1le: "?s1 \<le> ?off" and s2le: "?s2 \<le> ?off"
    using merged_source_le[OF wf less.prems(1)] by simp_all
  have lt: "?off < prod_list ?ns" using less.prems(1) by (rule cell_offset_less)
  have tpl: "?tp \<le> length cur"
  proof -
    have "S * (?off + 1) \<le> S * prod_list ?ns" using lt by (intro mult_le_mono2) simp
    then show ?thesis using less.prems(2) by simp
  qed
  have p1tp: "?p1 \<le> ?tp" using s1le by simp
  have Sp1: "S \<le> ?p1" and Sp2: "S \<le> ?p2" by simp_all
  have p2rhs: "?p2 \<le> length rhs"
  proof -
    have "?s2 + 1 \<le> prod_list (map m_cSlices ds2)"
      using source_offset_bound[OF wfs[THEN conjunct2], of "merged_bins ds1 ds2 ms"] by simp
    then have "S * (?s2 + 1) \<le> S * prod_list (map m_cSlices ds2)" by (rule mult_le_mono2)
    then show ?thesis using rl by (rule le_trans)
  qed
  have tS: "?tp - S = S * ?off" by (simp add: algebra_simps)
  from add_copy_correct[OF S Sp1 p1tp tpl Sp2 p2rhs, of fadd] obtain mid where
    f: "add_copy fadd ?p1 ?p2 ?tp (S * ?off) cur rhs = Some (mid, S * ?off)" "length mid = length cur"
       "\<forall>i<length cur. mid ! i =
          (if S * ?off \<le> i \<and> i < ?tp then fadd (cur ! (i + ?p1 - ?tp)) (rhs ! (i + ?p2 - ?tp)) else cur ! i)"
    unfolding tS by auto
  have ge: "\<not> ?tp < S" by simp
  have here: "mid ! (S * ?off + k) = fadd (old ! (S * ?s1 + k)) (rhs ! (S * ?s2 + k))" if k: "k < S" for k
  proof -
    let ?i = "S * ?off + k"
    have i1: "S * ?off \<le> ?i \<and> ?i < ?tp" using k by simp
    then have il: "?i < length cur" using tpl by simp
    have "mid ! ?i = (if S * ?off \<le> ?i \<and> ?i < ?tp
                        then fadd (cur ! (?i + ?p1 - ?tp)) (rhs ! (?i + ?p2 - ?tp)) else cur ! ?i)"
      using f(3) il by blast
    then have "mid ! ?i = fadd (cur ! (?i + ?p1 - ?tp)) (rhs ! (?i + ?p2 - ?tp))"
      using i1 by (simp only: if_True simp_thms)
    moreover have "?i + ?p1 - ?tp = S * ?s1 + k" by (simp add: algebra_simps)
    moreover have "?i + ?p2 - ?tp = S * ?s2 + k" by (simp add: algebra_simps)
    moreover have "cur ! (S * ?s1 + k) = old ! (S * ?s1 + k)"
    proof -
      have "S * ?s1 + k < S * ?s1 + S" using k by simp
      also have "\<dots> = ?p1" by simp
      also have "\<dots> \<le> ?tp" by (rule p1tp)
      finally show ?thesis using less.prems(4) by simp
    qed
    ultimately show ?thesis by (simp only:)
  qed
  have above: "mid ! i = cur ! i" if "?tp \<le> i" "i < length cur" for i
  proof -
    have "mid ! i = (if S * ?off \<le> i \<and> i < ?tp
                        then fadd (cur ! (i + ?p1 - ?tp)) (rhs ! (i + ?p2 - ?tp)) else cur ! i)"
      using f(3) that(2) by blast
    moreover have "\<not> (S * ?off \<le> i \<and> i < ?tp)" using that(1) by simp
    ultimately show ?thesis by (simp only: if_False simp_thms)
  qed
  have below: "mid ! i = cur ! i" if "i < S * ?off" for i
  proof -
    have "i < length cur" using that tpl by simp
    then have "mid ! i = (if S * ?off \<le> i \<and> i < ?tp
                        then fadd (cur ! (i + ?p1 - ?tp)) (rhs ! (i + ?p2 - ?tp)) else cur ! i)"
      using f(3) by blast
    moreover have "\<not> (S * ?off \<le> i \<and> i < ?tp)" using that by simp
    ultimately show ?thesis by (simp only: if_False simp_thms)
  qed
  show ?case
  proof (cases "?off = 0")
    case True
    have run: "add_loop fadd S (ds1 @ rest1) (ds2 @ rest2) (add_stack ds1 ds2 ms) ?p1 ?p2 ?tp cur rhs = Some mid"
      using f(1) ge tS True by (subst add_loop.simps) simp
    have b: "\<forall>ms'. valid_cell ?ns ms' \<longrightarrow> cell_offset ?ns ms' \<le> ?off \<longrightarrow>
              (\<forall>k<S. mid ! (S * cell_offset ?ns ms' + k) =
                 fadd (old ! (S * source_offset ds1 (merged_bins ds1 ds2 ms') + k))
                      (rhs ! (S * source_offset ds2 (merged_bins ds1 ds2 ms') + k)))"
    proof (intro allI impI)
      fix ms' k assume v': "valid_cell ?ns ms'" and le: "cell_offset ?ns ms' \<le> ?off" and k: "k < S"
      have "ms' = ms" using cell_offset_inj[OF v' less.prems(1)] le True by simp
      then show "mid ! (S * cell_offset ?ns ms' + k) =
                 fadd (old ! (S * source_offset ds1 (merged_bins ds1 ds2 ms') + k))
                      (rhs ! (S * source_offset ds2 (merged_bins ds1 ds2 ms') + k))"
        using here[OF k] by simp
    qed
    show ?thesis using run f(2) b above by blast
  next
    case False
    then have pos: "0 < ?off" by simp
    let ?pm = "previous_cell ?ns ms"
    have pv: "valid_cell ?ns ?pm" using previous_cell_valid[OF less.prems(1) pos] .
    have po: "cell_offset ?ns ?pm + 1 = ?off" using previous_cell_offset[OF less.prems(1) pos] .
    then have plt: "cell_offset ?ns ?pm < ?off" by simp
    have step: "add_step S S (ds1 @ rest1) (ds2 @ rest2) (add_stack ds1 ds2 ms) ?p1 ?p2 =
                  Some (add_stack ds1 ds2 ?pm,
                        S * (source_offset ds1 (merged_bins ds1 ds2 ?pm) + 1),
                        S * (source_offset ds2 (merged_bins ds1 ds2 ?pm) + 1))"
      using add_step_correct[OF wf less.prems(1) pos sm1 sm2] .
    have tp': "S * ?off = S * (cell_offset ?ns ?pm + 1)" using po by simp
    have midold: "\<forall>i < S * (cell_offset ?ns ?pm + 1). mid ! i = old ! i"
    proof (intro allI impI)
      fix i assume "i < S * (cell_offset ?ns ?pm + 1)"
      then have i: "i < S * ?off" unfolding tp' .
      then have "i < ?tp" by simp
      then show "mid ! i = old ! i" using below[OF i] less.prems(4) by simp
    qed
    have ml: "S * prod_list ?ns \<le> length mid" "length old = length mid"
      using less.prems(2,3) f(2) by simp_all
    from less.hyps[OF plt pv ml midold] obtain fin where
      r: "add_loop fadd S (ds1 @ rest1) (ds2 @ rest2) (add_stack ds1 ds2 ?pm)
            (S * (source_offset ds1 (merged_bins ds1 ds2 ?pm) + 1))
            (S * (source_offset ds2 (merged_bins ds1 ds2 ?pm) + 1))
            (S * (cell_offset ?ns ?pm + 1)) mid rhs = Some fin"
         "length fin = length mid"
         "\<forall>ms'. valid_cell ?ns ms' \<longrightarrow> cell_offset ?ns ms' \<le> cell_offset ?ns ?pm \<longrightarrow>
              (\<forall>k<S. fin ! (S * cell_offset ?ns ms' + k) =
                 fadd (old ! (S * source_offset ds1 (merged_bins ds1 ds2 ms') + k))
                      (rhs ! (S * source_offset ds2 (merged_bins ds1 ds2 ms') + k)))"
         "\<forall>i. S * (cell_offset ?ns ?pm + 1) \<le> i \<longrightarrow> i < length mid \<longrightarrow> fin ! i = mid ! i"
      by blast
    have nz: "S * ?off \<noteq> 0" using pos S by simp
    have run: "add_loop fadd S (ds1 @ rest1) (ds2 @ rest2) (add_stack ds1 ds2 ms) ?p1 ?p2 ?tp cur rhs = Some fin"
      using f(1) step r(1) nz ge tS tp' S by (subst add_loop.simps) simp
    have a: "\<forall>i. ?tp \<le> i \<longrightarrow> i < length cur \<longrightarrow> fin ! i = cur ! i"
    proof (intro allI impI)
      fix i assume i: "?tp \<le> i" "i < length cur"
      then have "S * (cell_offset ?ns ?pm + 1) \<le> i" unfolding tp'[symmetric] by simp
      then have "fin ! i = mid ! i" using r(4) i f(2) by simp
      then show "fin ! i = cur ! i" using above[OF i] by simp
    qed
    have b: "\<forall>ms'. valid_cell ?ns ms' \<longrightarrow> cell_offset ?ns ms' \<le> ?off \<longrightarrow>
              (\<forall>k<S. fin ! (S * cell_offset ?ns ms' + k) =
                 fadd (old ! (S * source_offset ds1 (merged_bins ds1 ds2 ms') + k))
                      (rhs ! (S * source_offset ds2 (merged_bins ds1 ds2 ms') + k)))"
    proof (intro allI impI)
      fix ms' k assume v': "valid_cell ?ns ms'" and le: "cell_offset ?ns ms' \<le> ?off" and k: "k < S"
      show "fin ! (S * cell_offset ?ns ms' + k) =
                 fadd (old ! (S * source_offset ds1 (merged_bins ds1 ds2 ms') + k))
                      (rhs ! (S * source_offset ds2 (merged_bins ds1 ds2 ms') + k))"
      proof (cases "cell_offset ?ns ms' = ?off")
        case True
        then have e: "ms' = ms" using cell_offset_inj[OF v' less.prems(1)] by simp
        let ?i = "S * ?off + k"
        have "?i < ?tp" using k by simp
        then have il: "?i < length mid" using tpl f(2) by simp
        have "S * (cell_offset ?ns ?pm + 1) \<le> ?i" unfolding tp'[symmetric] by simp
        then have "fin ! ?i = mid ! ?i" using r(4) il by simp
        then show ?thesis using here[OF k] e by simp
      next
        case False
        then have "cell_offset ?ns ms' \<le> cell_offset ?ns ?pm" using le po by simp
        then show ?thesis using r(3) v' k by simp
      qed
    qed
    show ?thesis using run r(2) f(2) a b by simp
  qed
qed

lemma merged_count_bound:
  assumes "wf_dimension d1" "wf_dimension d2"
  shows "length (merged_dimension d1 d2) + 1 \<le> m_cSlices d1 + m_cSlices d2 - 1"
proof -
  note s1 = wf_dimension_splits[OF assms(1)] and s2 = wf_dimension_splits[OF assms(2)]
  have "length (merged_dimension d1 d2) = card (set (live_splits d1) \<union> set (live_splits d2))"
    unfolding merged_dimension_def by (rule merged_splits_length)
  also have "\<dots> \<le> card (set (live_splits d1)) + card (set (live_splits d2))" by (rule card_Un_le)
  also have "\<dots> = (m_cSlices d1 - 1) + (m_cSlices d2 - 1)"
    using s1(1,3) s2(1,3) by (simp add: distinct_card)
  finally show ?thesis using s1(7) s2(7) by simp
qed

lemma add_count_merged:
  assumes "wf_dimension d1" "wf_dimension d2"
  shows "add_count (m_aSplits d1) (m_aSplits d2) 0 (m_cSlices d1 - 1) 0 (m_cSlices d2 - 1) 1 =
           Some (length (merged_dimension d1 d2) + 1)"
proof -
  note s1 = wf_dimension_splits[OF assms(1)] and s2 = wf_dimension_splits[OF assms(2)]
  have l1: "m_cSlices d1 - 1 \<le> length (m_aSplits d1)" and l2: "m_cSlices d2 - 1 \<le> length (m_aSplits d2)"
    using assms by (auto simp: wf_dimension_def)
  have "add_count (m_aSplits d1) (m_aSplits d2) 0 (m_cSlices d1 - 1) 0 (m_cSlices d2 - 1) 1 =
          Some (1 + card (set (drop 0 (take (m_cSlices d1 - 1) (m_aSplits d1))) \<union>
                          set (drop 0 (take (m_cSlices d2 - 1) (m_aSplits d2)))))"
    using s1(2) s2(2) l1 l2 unfolding live_splits_def by (intro add_count_correct) simp_all
  then show ?thesis
    using merged_splits_length[of "live_splits d1" "live_splits d2"]
    by (simp add: merged_dimension_def live_splits_def)
qed

lemma merged_counts_prod_pos: "both_wf ds1 ds2 \<Longrightarrow> 0 < prod_list (merged_counts ds1 ds2)"
  by (induction ds1 ds2 rule: list_all2_induct) simp_all

lemma merged_counts_length: "both_wf ds1 ds2 \<Longrightarrow> length (merged_counts ds1 ds2) = length ds1"
  by (induction ds1 ds2 rule: list_all2_induct) simp_all

lemma add_init_correct:
  assumes "both_wf ds1 ds2" "ds1 \<noteq> []"
    and "a * prod_list (map m_cSlices ds1) \<le> size_max"
    and "b * prod_list (map m_cSlices ds2) \<le> size_max"
    and "c * prod_list (merged_counts ds1 ds2) \<le> size_max"
  shows "add_init a b c (ds1 @ rest1) (ds2 @ rest2) (length ds1) =
           Some (a * prod_list (map m_cSlices ds1), b * prod_list (map m_cSlices ds2),
                 c * prod_list (merged_counts ds1 ds2),
                 add_stack ds1 ds2 (last_cell (merged_counts ds1 ds2)))"
  using assms
proof (induction ds1 ds2 arbitrary: a b c rule: list_all2_induct)
  case Nil
  then show ?case by simp
next
  case (Cons d1 ds1 d2 ds2)
  let ?zs = "merged_dimension d1 d2"
  let ?n = "length ?zs + 1"
  let ?c1 = "m_cSlices d1"
  let ?c2 = "m_cSlices d2"
  let ?ns = "merged_counts ds1 ds2"
  note w1 = Cons.hyps(1)[THEN conjunct1] and w2 = Cons.hyps(1)[THEN conjunct2]
  note mf = merged_dimension_facts[OF w1 w2]
  note wfs = both_wf_D[OF Cons.hyps(2)]
  have pp1: "0 < prod_list (map m_cSlices ds1)" and pp2: "0 < prod_list (map m_cSlices ds2)"
    using wfs by (simp_all add: wf_slices_pos)
  have ppn: "0 < prod_list ?ns" using Cons.hyps(2) by (rule merged_counts_prod_pos)
  have t1: "a * ?c1 * prod_list (map m_cSlices ds1) \<le> size_max" using Cons.prems(2) by (simp add: mult.assoc)
  have t2: "b * ?c2 * prod_list (map m_cSlices ds2) \<le> size_max" using Cons.prems(3) by (simp add: mult.assoc)
  have t3: "c * ?n * prod_list ?ns \<le> size_max" using Cons.prems(4) by (simp add: algebra_simps)
  have "a * ?c1 \<le> a * ?c1 * prod_list (map m_cSlices ds1)" using pp1 by simp
  then have "a * ?c1 \<le> size_max" using t1 by (rule le_trans)
  then have wr1: "wrap_size (a * ?c1) = a * ?c1" by (rule wrap_size_id)
  have "b * ?c2 \<le> b * ?c2 * prod_list (map m_cSlices ds2)" using pp2 by simp
  then have "b * ?c2 \<le> size_max" using t2 by (rule le_trans)
  then have wr2: "wrap_size (b * ?c2) = b * ?c2" by (rule wrap_size_id)
  have "c * ?n \<le> c * ?n * prod_list ?ns" using ppn by simp
  then have "c * ?n \<le> size_max" using t3 by (rule le_trans)
  then have wr3: "wrap_size (c * ?n) = c * ?n" by (rule wrap_size_id)
  have cnt: "add_count (m_aSplits d1) (m_aSplits d2) 0 (?c1 - 1) 0 (?c2 - 1) 1 = Some ?n"
    using w1 w2 by (rule add_count_merged)
  have len: "length ds1 = length ds2" using Cons.hyps(2) by (rule list_all2_lengthD)
  have nz: "?c1 \<noteq> 0" "?c2 \<noteq> 0"
    using wf_dimension_splits(7)[OF w1] wf_dimension_splits(7)[OF w2] by simp_all
  define E where "E = \<lparr> m_pSplit1 = ?c1 - 1, m_pSplit2 = ?c2 - 1, m_cNewSlices = ?n \<rparr>"
  have stk: "add_stack (d1 # ds1) (d2 # ds2) (last_cell (merged_counts (d1 # ds1) (d2 # ds2))) =
               E # add_stack ds1 ds2 (last_cell ?ns)"
    unfolding E_def using mf(6,7) by (simp add: last_cell_def)
  have unf: "add_init a b c ((d1 # ds1) @ rest1) ((d2 # ds2) @ rest2) (length (d1 # ds1)) =
          (if length ds1 = 0 then Some (a * ?c1, b * ?c2, c * ?n, [E])
           else case add_init (a * ?c1) (b * ?c2) (c * ?n) (ds1 @ rest1) (ds2 @ rest2) (length ds1) of
                  None \<Rightarrow> None
                | Some (c1, c2, c, stack) \<Rightarrow> Some (c1, c2, c, E # stack))"
    unfolding E_def using cnt wr1 wr2 wr3 nz by (simp add: Let_def split: option.splits)
  show ?case
  proof (cases "ds1 = []")
    case True
    then have "ds2 = []" using len by simp
    then show ?thesis unfolding unf stk using True by simp
  next
    case False
    have "add_init (a * ?c1) (b * ?c2) (c * ?n) (ds1 @ rest1) (ds2 @ rest2) (length ds1) =
           Some (a * ?c1 * prod_list (map m_cSlices ds1), b * ?c2 * prod_list (map m_cSlices ds2),
                 c * ?n * prod_list ?ns, add_stack ds1 ds2 (last_cell ?ns))"
      using False t1 t2 t3 by (rule Cons.IH)
    then show ?thesis unfolding unf stk using False by (simp add: algebra_simps)
  qed
qed

lemma add_stack_slices:
  "both_wf ds1 ds2 \<Longrightarrow> length ms = length ds1 \<Longrightarrow>
     map m_cNewSlices (add_stack ds1 ds2 ms) = merged_counts ds1 ds2"
proof (induction ds1 ds2 arbitrary: ms rule: list_all2_induct)
  case Nil
  then show ?case by simp
next
  case (Cons d1 ds1 d2 ds2)
  then obtain m ms' where "ms = m # ms'" "length ms' = length ds1" by (cases ms) auto
  then show ?case using Cons.IH[of ms'] by simp
qed

lemma add_dimension_correct:
  assumes w1: "wf_dimension d1" and w2: "wf_dimension d2"
    and dims: "m_aDimensions t = pre @ d1 # rest" and li: "length pre = i"
  shows "\<exists>error t' mem'.
           SetCountSlices mem t i (length (merged_dimension d1 d2) + 1) = Some (error, t', mem') \<and>
           (error = Error_None \<or> error = Error_OutOfMemory) \<and>
           (error = Error_None \<longrightarrow>
              (\<exists>buf' d'.
                 add_merge (m_aSplits (m_aDimensions t' ! i)) (m_aSplits d2)
                   (m_cSlices d1 - 1) (m_cSlices d2 - 1) (length (merged_dimension d1 d2) + 1 - 1) = Some buf' \<and>
                 t'\<lparr>m_aDimensions := (m_aDimensions t')[i := (m_aDimensions t' ! i)\<lparr>m_aSplits := buf'\<rparr>]\<rparr> =
                   t\<lparr>m_aDimensions := pre @ d' # rest\<rparr> \<and>
                 merged_result d' d1 d2))"
proof -
  let ?zs = "merged_dimension d1 d2"
  let ?n = "length ?zs + 1"
  let ?xs = "live_splits d1"
  let ?ys = "live_splits d2"
  note s1 = wf_dimension_splits[OF w1] and s2 = wf_dimension_splits[OF w2]
  note mf = merged_dimension_facts[OF w1 w2]
  have di: "m_aDimensions t ! i = d1" using dims li by (simp add: nth_append)
  have il: "i < length (m_aDimensions t)" using dims li by simp
  have cap: "m_cSliceCapacity (m_aDimensions t ! i) \<le> length (m_aSplits (m_aDimensions t ! i)) + 1"
    using w1 di by (simp add: wf_dimension_def)
  from SetCountSlices_correct[OF il cap, of mem ?n] obtain error t' mem' where
    s: "SetCountSlices mem t i ?n = Some (error, t', mem')"
       "error = Error_None \<or> error = Error_OutOfMemory"
       "error = Error_None \<longrightarrow>
          (\<exists>d'. t' = t\<lparr>m_aDimensions := (m_aDimensions t)[i := d']\<rparr> \<and>
             m_cSlices d' = ?n \<and> ?n \<le> m_cSliceCapacity d' \<and>
             m_cSliceCapacity d' \<le> length (m_aSplits d') + 1 \<and>
             (\<forall>k. k < length (m_aSplits (m_aDimensions t ! i)) \<longrightarrow> k < length (m_aSplits d') \<longrightarrow>
                m_aSplits d' ! k = m_aSplits (m_aDimensions t ! i) ! k))"
    by blast
  show ?thesis
  proof (cases "error = Error_None")
    case False
    then show ?thesis using s(1,2) by simp
  next
    case ok: True
    then obtain d' where d': "t' = t\<lparr>m_aDimensions := (m_aDimensions t)[i := d']\<rparr>"
      "m_cSlices d' = ?n" "?n \<le> m_cSliceCapacity d'" "m_cSliceCapacity d' \<le> length (m_aSplits d') + 1"
      "\<forall>k. k < length (m_aSplits d1) \<longrightarrow> k < length (m_aSplits d') \<longrightarrow> m_aSplits d' ! k = m_aSplits d1 ! k"
      using s(3) di by auto
    have pd: "m_aDimensions t' ! i = d'" using d'(1) il by simp
    have bl: "length (merged_splits ?xs ?ys) \<le> length (m_aSplits d')"
      using d'(3,4) by (simp add: merged_dimension_def)
    have tl: "length (merged_splits ?xs ?ys) \<le> length (merged_splits ?xs ?ys)" by simp
    have yl: "length ?ys \<le> length (m_aSplits d2)" by (simp add: live_splits_def)
    have yb: "\<forall>i<length ?ys. m_aSplits d2 ! i = ?ys ! i" by (simp add: live_splits_def)
    have lx: "length ?xs \<le> length (merged_splits ?xs ?ys)"
      using merged_lengths(1)[OF w1 w2] s1(1,7) by (simp add: merged_dimension_def)
    have p1: "slice_of ?xs (slice_start (merged_splits ?xs ?ys) (length (merged_splits ?xs ?ys))) = m_cSlices d1 - 1"
      using mf(6) by (simp add: merged_dimension_def)
    have p2: "slice_of ?ys (slice_start (merged_splits ?xs ?ys) (length (merged_splits ?xs ?ys))) = m_cSlices d2 - 1"
      using mf(7) by (simp add: merged_dimension_def)
    have low: "\<forall>i<slice_of ?xs (slice_start (merged_splits ?xs ?ys) (length (merged_splits ?xs ?ys))).
                 m_aSplits d' ! i = ?xs ! i"
    proof (intro allI impI)
      fix k assume "k < slice_of ?xs (slice_start (merged_splits ?xs ?ys) (length (merged_splits ?xs ?ys)))"
      then have k: "k < m_cSlices d1 - 1" unfolding p1 .
      then have "k < length (m_aSplits d1)" using s1(6) by simp
      moreover have "k < length (m_aSplits d')" using k lx bl s1(1) by simp
      ultimately have "m_aSplits d' ! k = m_aSplits d1 ! k" using d'(5) by simp
      then show "m_aSplits d' ! k = ?xs ! k" using s1(5)[OF k] by simp
    qed
    have high: "\<forall>i. length (merged_splits ?xs ?ys) \<le> i \<longrightarrow> i < length (merged_splits ?xs ?ys) \<longrightarrow>
                  m_aSplits d' ! i = merged_splits ?xs ?ys ! i" by simp
    from add_merge_correct[OF s1(2,4) s2(2,4) tl bl yl yb low high] obtain buf' where
      b: "add_merge (m_aSplits d') (m_aSplits d2) (m_cSlices d1 - 1) (m_cSlices d2 - 1)
            (length (merged_splits ?xs ?ys)) = Some buf'"
         "length buf' = length (m_aSplits d')"
         "take (length (merged_splits ?xs ?ys)) buf' = merged_splits ?xs ?ys"
      unfolding p1 p2 by blast
    let ?d2 = "d'\<lparr>m_aSplits := buf'\<rparr>"
    have mr: "merged_result ?d2 d1 d2"
      using d'(2) b(3) merged_count_bound[OF w1 w2]
      by (simp add: merged_result_def live_splits_def merged_dimension_def)
    have t2: "t'\<lparr>m_aDimensions := (m_aDimensions t')[i := ?d2]\<rparr> = t\<lparr>m_aDimensions := pre @ ?d2 # rest\<rparr>"
      using d'(1) dims li by (simp add: list_update_append)
    have b': "add_merge (m_aSplits d') (m_aSplits d2) (m_cSlices d1 - 1) (m_cSlices d2 - 1) (?n - 1) = Some buf'"
      using b(1) by (simp add: merged_dimension_def)
    show ?thesis using s(1,2) ok pd b' t2 mr by auto
  qed
qed

lemma add_splits_correct:
  assumes "both_wf ds1 ds2" "ds1 \<noteq> []" "m_aDimensions t = pre @ ds1 @ rest" "length pre = i"
    and "length ms = length ds1"
  shows "\<exists>error t2 mem2.
           add_splits mem t (ds2 @ rest2) (add_stack ds1 ds2 ms) i (length ds1) = Some (error, t2, mem2) \<and>
           (error = Error_None \<or> error = Error_OutOfMemory) \<and>
           (error = Error_None \<longrightarrow>
              (\<exists>ds'. t2 = t\<lparr>m_aDimensions := pre @ ds' @ rest\<rparr> \<and> merged_results ds' ds1 ds2))"
  using assms
proof (induction ds1 ds2 arbitrary: t pre i mem ms rule: list_all2_induct)
  case Nil
  then show ?case by simp
next
  case (Cons d1 ds1 d2 ds2)
  let ?zs = "merged_dimension d1 d2"
  let ?n = "length ?zs + 1"
  note w1 = Cons.hyps(1)[THEN conjunct1] and w2 = Cons.hyps(1)[THEN conjunct2]
  from Cons.prems(4) obtain m ms' where ms: "ms = m # ms'" "length ms' = length ds1" by (cases ms) auto
  have dims: "m_aDimensions t = pre @ d1 # (ds1 @ rest)" using Cons.prems(2) by simp
  have nb: "\<not> length (m_aDimensions t) \<le> i" using dims Cons.prems(3) by simp
  have di: "m_aDimensions t ! i = d1" using dims Cons.prems(3) by (simp add: nth_append)
  have len: "length ds1 = length ds2" using Cons.hyps(2) by (rule list_all2_lengthD)
  from add_dimension_correct[OF w1 w2 dims Cons.prems(3), of mem] obtain error t' mem' where
    s: "SetCountSlices mem t i ?n = Some (error, t', mem')"
       "error = Error_None \<or> error = Error_OutOfMemory"
       "error = Error_None \<longrightarrow>
          (\<exists>buf' d'.
             add_merge (m_aSplits (m_aDimensions t' ! i)) (m_aSplits d2)
               (m_cSlices d1 - 1) (m_cSlices d2 - 1) (?n - 1) = Some buf' \<and>
             t'\<lparr>m_aDimensions := (m_aDimensions t')[i := (m_aDimensions t' ! i)\<lparr>m_aSplits := buf'\<rparr>]\<rparr> =
               t\<lparr>m_aDimensions := pre @ d' # (ds1 @ rest)\<rparr> \<and>
             merged_result d' d1 d2)"
    by blast
  have stk: "add_stack (d1 # ds1) (d2 # ds2) ms =
               \<lparr> m_pSplit1 = slice_of (live_splits d1) (slice_start ?zs m),
                 m_pSplit2 = slice_of (live_splits d2) (slice_start ?zs m),
                 m_cNewSlices = ?n \<rparr> # add_stack ds1 ds2 ms'"
    using ms(1) by simp
  show ?case
  proof (cases "error = Error_None")
    case False
    have "add_splits mem t ((d2 # ds2) @ rest2) (add_stack (d1 # ds1) (d2 # ds2) ms) i (length (d1 # ds1)) =
            Some (error, t', mem')"
      unfolding stk using nb di s(1) False by (simp add: Let_def)
    then show ?thesis using s(2) False by simp
  next
    case True
    then obtain buf' d' where
      m: "add_merge (m_aSplits (m_aDimensions t' ! i)) (m_aSplits d2)
               (m_cSlices d1 - 1) (m_cSlices d2 - 1) (?n - 1) = Some buf'"
      and t'': "t'\<lparr>m_aDimensions := (m_aDimensions t')[i := (m_aDimensions t' ! i)\<lparr>m_aSplits := buf'\<rparr>]\<rparr> =
               t\<lparr>m_aDimensions := pre @ d' # (ds1 @ rest)\<rparr>"
      and mr: "merged_result d' d1 d2"
      using s(3) by blast
    let ?t2 = "t\<lparr>m_aDimensions := pre @ d' # (ds1 @ rest)\<rparr>"
    have unf: "add_splits mem t ((d2 # ds2) @ rest2) (add_stack (d1 # ds1) (d2 # ds2) ms) i (length (d1 # ds1)) =
            (if length ds1 = 0 then Some (Error_None, ?t2, mem')
             else add_splits mem' ?t2 (ds2 @ rest2) (add_stack ds1 ds2 ms') (i + 1) (length ds1))"
      unfolding stk using nb di s(1) True m t'' by (simp add: Let_def)
    show ?thesis
    proof (cases "ds1 = []")
      case e: True
      then have "ds2 = []" using len by simp
      then have q: "?t2 = t\<lparr>m_aDimensions := pre @ [d'] @ rest\<rparr>" "merged_results [d'] (d1 # ds1) (d2 # ds2)"
        using e mr by simp_all
      have run: "add_splits mem t ((d2 # ds2) @ rest2) (add_stack (d1 # ds1) (d2 # ds2) ms) i
                       (length (d1 # ds1)) = Some (Error_None, t\<lparr>m_aDimensions := pre @ [d'] @ rest\<rparr>, mem')"
        using unf e q(1) by simp
      have "\<exists>ds'. t\<lparr>m_aDimensions := pre @ [d'] @ rest\<rparr> = t\<lparr>m_aDimensions := pre @ ds' @ rest\<rparr> \<and>
                 merged_results ds' (d1 # ds1) (d2 # ds2)"
        using q(2) by blast
      then show ?thesis using run by blast
    next
      case ne: False
      have dims': "m_aDimensions ?t2 = (pre @ [d']) @ ds1 @ rest" by simp
      have li: "length (pre @ [d']) = i + 1" using Cons.prems(3) by simp
      from Cons.IH[OF ne dims' li ms(2), of mem'] obtain error2 t3 mem3 where
        r: "add_splits mem' ?t2 (ds2 @ rest2) (add_stack ds1 ds2 ms') (i + 1) (length ds1) =
              Some (error2, t3, mem3)"
           "error2 = Error_None \<or> error2 = Error_OutOfMemory"
           "error2 = Error_None \<longrightarrow>
              (\<exists>ds'. t3 = ?t2\<lparr>m_aDimensions := (pre @ [d']) @ ds' @ rest\<rparr> \<and> merged_results ds' ds1 ds2)"
        by blast
      have run: "add_splits mem t ((d2 # ds2) @ rest2) (add_stack (d1 # ds1) (d2 # ds2) ms) i
                   (length (d1 # ds1)) = Some (error2, t3, mem3)"
        using unf ne r(1) by simp
      have "error2 = Error_None \<longrightarrow>
              (\<exists>ds'. t3 = t\<lparr>m_aDimensions := pre @ ds' @ rest\<rparr> \<and>
                 merged_results ds' (d1 # ds1) (d2 # ds2))"
      proof
        assume "error2 = Error_None"
        then obtain ds' where q: "t3 = ?t2\<lparr>m_aDimensions := (pre @ [d']) @ ds' @ rest\<rparr>"
          "merged_results ds' ds1 ds2" using r(3) by blast
        have "t3 = t\<lparr>m_aDimensions := pre @ (d' # ds') @ rest\<rparr>" using q(1) by simp
        moreover have "merged_results (d' # ds') (d1 # ds1) (d2 # ds2)" using q(2) mr by simp
        ultimately show "\<exists>ds'. t3 = t\<lparr>m_aDimensions := pre @ ds' @ rest\<rparr> \<and>
                 merged_results ds' (d1 # ds1) (d2 # ds2)" by blast
      qed
      then show ?thesis using run r(2) by blast
    qed
  qed
qed

lemma merged_cell_facts:
  assumes "both_wf ds1 ds2" "length bs = length ds1"
  shows "valid_cell (merged_counts ds1 ds2) (merged_cell ds1 ds2 bs)"
    and "source_cell ds1 (merged_bins ds1 ds2 (merged_cell ds1 ds2 bs)) = source_cell ds1 bs"
    and "source_cell ds2 (merged_bins ds1 ds2 (merged_cell ds1 ds2 bs)) = source_cell ds2 bs"
    and "merged_results ds' ds1 ds2 \<Longrightarrow>
           source_cell ds' bs = merged_cell ds1 ds2 bs \<and> map m_cSlices ds' = merged_counts ds1 ds2"
proof -
  have "valid_cell (merged_counts ds1 ds2) (merged_cell ds1 ds2 bs) \<and>
        source_cell ds1 (merged_bins ds1 ds2 (merged_cell ds1 ds2 bs)) = source_cell ds1 bs \<and>
        source_cell ds2 (merged_bins ds1 ds2 (merged_cell ds1 ds2 bs)) = source_cell ds2 bs \<and>
        (\<forall>ds'. merged_results ds' ds1 ds2 \<longrightarrow>
           source_cell ds' bs = merged_cell ds1 ds2 bs \<and> map m_cSlices ds' = merged_counts ds1 ds2)"
    using assms
  proof (induction ds1 ds2 arbitrary: bs rule: list_all2_induct)
    case Nil
    then show ?case by simp
  next
    case (Cons d1 ds1 d2 ds2)
    let ?zs = "merged_dimension d1 d2"
    note w1 = Cons.hyps(1)[THEN conjunct1] and w2 = Cons.hyps(1)[THEN conjunct2]
    note s1 = wf_dimension_splits[OF w1] and s2 = wf_dimension_splits[OF w2]
    note mf = merged_dimension_facts[OF w1 w2]
    from Cons.prems obtain b bs' where bs: "bs = b # bs'" "length bs' = length ds1" by (cases bs) auto
    note ih = Cons.IH[OF bs(2)]
    have a: "slice_of ?zs b < length ?zs + 1" using slice_of_le_length[of ?zs b] by simp
    have x: "slice_of (live_splits d1) (slice_start ?zs (slice_of ?zs b)) = slice_of (live_splits d1) b"
      using mf(1) s1(3) mf(3) by (intro slice_of_slice_start) auto
    have y: "slice_of (live_splits d2) (slice_start ?zs (slice_of ?zs b)) = slice_of (live_splits d2) b"
      using mf(1) s2(3) mf(3) by (intro slice_of_slice_start) auto
    have r: "\<forall>ds'. merged_results ds' (d1 # ds1) (d2 # ds2) \<longrightarrow>
           source_cell ds' bs = merged_cell (d1 # ds1) (d2 # ds2) bs \<and>
           map m_cSlices ds' = merged_counts (d1 # ds1) (d2 # ds2)"
    proof (intro allI impI)
      fix ds' assume h: "merged_results ds' (d1 # ds1) (d2 # ds2)"
      then obtain d' ds'' where e: "ds' = d' # ds''" "merged_result d' d1 d2" "merged_results ds'' ds1 ds2"
        by (cases ds') auto
      have "live_splits d' = ?zs" "m_cSlices d' = length ?zs + 1"
        using e(2) by (simp_all add: merged_result_def merged_dimension_def)
      then show "source_cell ds' bs = merged_cell (d1 # ds1) (d2 # ds2) bs \<and>
           map m_cSlices ds' = merged_counts (d1 # ds1) (d2 # ds2)"
        using e(1,3) ih bs(1) by simp
    qed
    show ?case using bs(1) a x y ih r by simp
  qed
  then show "valid_cell (merged_counts ds1 ds2) (merged_cell ds1 ds2 bs)"
    and "source_cell ds1 (merged_bins ds1 ds2 (merged_cell ds1 ds2 bs)) = source_cell ds1 bs"
    and "source_cell ds2 (merged_bins ds1 ds2 (merged_cell ds1 ds2 bs)) = source_cell ds2 bs"
    and "merged_results ds' ds1 ds2 \<Longrightarrow>
           source_cell ds' bs = merged_cell ds1 ds2 bs \<and> map m_cSlices ds' = merged_counts ds1 ds2"
    by blast+
qed

lemma merged_last_sources:
  assumes "both_wf ds1 ds2"
  shows "source_offset ds1 (merged_bins ds1 ds2 (last_cell (merged_counts ds1 ds2))) + 1 =
           prod_list (map m_cSlices ds1)"
    and "source_offset ds2 (merged_bins ds1 ds2 (last_cell (merged_counts ds1 ds2))) + 1 =
           prod_list (map m_cSlices ds2)"
proof -
  have "source_cell ds1 (merged_bins ds1 ds2 (last_cell (merged_counts ds1 ds2))) = last_cell (map m_cSlices ds1) \<and>
        source_cell ds2 (merged_bins ds1 ds2 (last_cell (merged_counts ds1 ds2))) = last_cell (map m_cSlices ds2)"
    using assms
  proof (induction ds1 ds2 rule: list_all2_induct)
    case Nil
    then show ?case by (simp add: last_cell_def)
  next
    case (Cons d1 ds1 d2 ds2)
    note mf = merged_dimension_facts[OF Cons.hyps(1)[THEN conjunct1] Cons.hyps(1)[THEN conjunct2]]
    show ?case using Cons.IH mf(6,7) by (simp add: last_cell_def)
  qed
  moreover have "\<forall>c\<in>set (map m_cSlices ds1). 0 < c" "\<forall>c\<in>set (map m_cSlices ds2). 0 < c"
    using both_wf_D[OF assms] by (auto simp: list_all_iff wf_dimension_def)
  ultimately show "source_offset ds1 (merged_bins ds1 ds2 (last_cell (merged_counts ds1 ds2))) + 1 =
           prod_list (map m_cSlices ds1)"
    and "source_offset ds2 (merged_bins ds1 ds2 (last_cell (merged_counts ds1 ds2))) + 1 =
           prod_list (map m_cSlices ds2)"
    using last_cell_offset[of "map m_cSlices ds1"] last_cell_offset[of "map m_cSlices ds2"]
    by (simp_all add: source_offset_def)
qed

lemma merged_prod_le:
  assumes "both_wf ds1 ds2"
  shows "prod_list (map m_cSlices ds1) \<le> prod_list (merged_counts ds1 ds2)"
    and "prod_list (map m_cSlices ds2) \<le> prod_list (merged_counts ds1 ds2)"
proof -
  have "prod_list (map m_cSlices ds1) \<le> prod_list (merged_counts ds1 ds2) \<and>
        prod_list (map m_cSlices ds2) \<le> prod_list (merged_counts ds1 ds2)"
    using assms
  proof (induction ds1 ds2 rule: list_all2_induct)
    case Nil
    then show ?case by simp
  next
    case (Cons d1 ds1 d2 ds2)
    note ml = merged_lengths(1,2)[OF Cons.hyps(1)[THEN conjunct1] Cons.hyps(1)[THEN conjunct2]]
    have "m_cSlices d1 * prod_list (map m_cSlices ds1) \<le>
            (length (merged_dimension d1 d2) + 1) * prod_list (merged_counts ds1 ds2)"
      using ml(1) Cons.IH[THEN conjunct1] by (rule mult_le_mono)
    moreover have "m_cSlices d2 * prod_list (map m_cSlices ds2) \<le>
            (length (merged_dimension d1 d2) + 1) * prod_list (merged_counts ds1 ds2)"
      using ml(2) Cons.IH[THEN conjunct2] by (rule mult_le_mono)
    ultimately show ?case by simp
  qed
  then show "prod_list (map m_cSlices ds1) \<le> prod_list (merged_counts ds1 ds2)"
    and "prod_list (map m_cSlices ds2) \<le> prod_list (merged_counts ds1 ds2)" by simp_all
qed

lemma both_wf_I:
  "list_all wf_dimension ds1 \<Longrightarrow> list_all wf_dimension ds2 \<Longrightarrow> length ds1 = length ds2 \<Longrightarrow>
     both_wf ds1 ds2"
  by (induction ds1 ds2 rule: list_induct2') simp_all

lemma Add_correct:
  assumes wf1: "wf_tensor t" and wf2: "wf_tensor rhs" and af: "add_fits t rhs"
  shows "\<exists>error t' mem'. Add fadd mem t rhs = Some (error, t', mem') \<and>
        (error = Error_None \<or> error = Error_OutOfMemory) \<and>
        (error = Error_None \<longrightarrow>
           m_cScores t' = m_cScores t \<and> m_cDimensions t' = m_cDimensions t \<and>
           merged_results (live_dimensions t') (live_dimensions t) (live_dimensions rhs) \<and>
           (\<forall>bins k. length bins = m_cDimensions t \<longrightarrow> k < m_cScores t \<longrightarrow>
              sample t' bins k = fadd (sample t bins k) (sample rhs bins k)))"
proof -
  define D where "D = m_cDimensions t"
  define S where "S = m_cScores t"
  define ds1 where "ds1 = live_dimensions t"
  define ds2 where "ds2 = live_dimensions rhs"
  define rest1 where "rest1 = drop D (m_aDimensions t)"
  define rest2 where "rest2 = drop D (m_aDimensions rhs)"
  define ns where "ns = merged_counts ds1 ds2"
  have rD: "m_cDimensions rhs = D" and rS: "m_cScores rhs = S" and D1: "1 \<le> D"
    and big: "S * prod_list ns \<le> size_max"
    using af unfolding add_fits_def D_def S_def ns_def ds1_def ds2_def by auto
  have S1: "0 < S" and dl1: "D \<le> length (m_aDimensions t)" and wd1: "list_all wf_dimension ds1"
    and cap: "m_cTensorScoreCapacity t div sizeof_FloatScore \<le> length (m_aTensorScores t)"
    and live1: "S * prod_list (map m_cSlices ds1) \<le> length (m_aTensorScores t)"
    using wf1 unfolding wf_tensor_def D_def ds1_def S_def live_score_count_def live_dimensions_def
    by simp_all
  have dl2: "D \<le> length (m_aDimensions rhs)" and wd2: "list_all wf_dimension ds2"
    and live2: "S * prod_list (map m_cSlices ds2) \<le> length (m_aTensorScores rhs)"
    using wf2 rD rS unfolding wf_tensor_def ds2_def live_score_count_def live_dimensions_def
    by simp_all
  have dims1: "m_aDimensions t = ds1 @ rest1"
    unfolding ds1_def rest1_def live_dimensions_def D_def by simp
  have dims2: "m_aDimensions rhs = ds2 @ rest2"
    unfolding ds2_def rest2_def live_dimensions_def rD by simp
  have l1: "length ds1 = D" unfolding ds1_def live_dimensions_def using dl1 D_def by simp
  have l2: "length ds2 = D" unfolding ds2_def live_dimensions_def rD using dl2 by simp
  have bw: "both_wf ds1 ds2" using wd1 wd2 l1 l2 by (intro both_wf_I) simp_all
  have ne: "ds1 \<noteq> []" using l1 D1 by auto
  have D0: "0 \<noteq> m_cDimensions t" using D1 D_def by simp
  let ?c1 = "prod_list (map m_cSlices ds1)"
  let ?c2 = "prod_list (map m_cSlices ds2)"
  have le1: "S * ?c1 \<le> S * prod_list ns" and le2: "S * ?c2 \<le> S * prod_list ns"
    unfolding ns_def using merged_prod_le[OF bw] by (simp_all add: mult_le_mono2)
  have sm1: "S * ?c1 \<le> size_max" using le1 big by (rule le_trans)
  have sm2: "S * ?c2 \<le> size_max" using le2 big by (rule le_trans)
  let ?stack = "add_stack ds1 ds2 (last_cell ns)"
  have init: "add_init S S S (ds1 @ rest1) (ds2 @ rest2) D = Some (S * ?c1, S * ?c2, S * prod_list ns, ?stack)"
    unfolding ns_def l1[symmetric] using bw ne sm1 sm2 big[unfolded ns_def] by (rule add_init_correct)
  obtain error t1 mem1 where en: "EnsureTensorScoreCapacity mem t (S * prod_list ns) = (error, t1, mem1)"
    by (cases "EnsureTensorScoreCapacity mem t (S * prod_list ns)") auto
  note ec = ensure_capacity_correct[OF cap en]
  have t1: "t1 = t\<lparr>m_aTensorScores := m_aTensorScores t1,
                m_cTensorScoreCapacity := m_cTensorScoreCapacity t1\<rparr>" using ec by simp
  have t1S: "m_cScores t1 = S" and t1d: "m_aDimensions t1 = ds1 @ rest1" and t1D: "m_cDimensions t1 = D"
    using t1 dims1 S_def D_def
    by (metis Tensor.select_convs(1) Tensor.surjective Tensor.update_convs(4,6),
        metis Tensor.select_convs(7) Tensor.surjective Tensor.update_convs(4,6),
        metis Tensor.select_convs(3) Tensor.surjective Tensor.update_convs(4,6))
  have start: "Add fadd mem t rhs =
        (if error \<noteq> Error_None then Some (error, t1, mem1)
         else case add_loop fadd S (ds1 @ rest1) (ds2 @ rest2) ?stack
                     (S * ?c1) (S * ?c2) (S * prod_list ns) (m_aTensorScores t1) (m_aTensorScores rhs) of
                None \<Rightarrow> None
              | Some aTensorScores \<Rightarrow>
                  add_splits mem1 (t1\<lparr>m_aTensorScores := aTensorScores\<rparr>) (ds2 @ rest2) ?stack 0 D)"
    using D0 init en t1S t1d t1D
    by (simp add: Add_def S_def[symmetric] D_def[symmetric] dims1 dims2 cong: option.case_cong)
  show ?thesis
  proof (cases "error = Error_None")
    case bad: False
    then show ?thesis using start ec by simp
  next
    case ok: True
    let ?buf = "m_aTensorScores t1"
    have bl: "S * prod_list (merged_counts ds1 ds2) \<le> length ?buf"
      and keep: "\<forall>i. i < S * prod_list ns \<longrightarrow> i < length (m_aTensorScores t) \<longrightarrow>
               ?buf ! i = m_aTensorScores t ! i"
      using ec ok unfolding ns_def by simp_all
    have pos: "\<forall>n\<in>set ns. 0 < n" unfolding ns_def using bw by (rule merged_counts_pos)
    have lv: "valid_cell (merged_counts ds1 ds2) (last_cell ns)"
      using last_cell_valid[OF pos] unfolding ns_def .
    have lo: "cell_offset ns (last_cell ns) + 1 = prod_list ns" using pos by (rule last_cell_offset)
    note so = merged_last_sources[OF bw, folded ns_def]
    have co: "\<forall>i < S * (cell_offset (merged_counts ds1 ds2) (last_cell ns) + 1). ?buf ! i = ?buf ! i"
      by simp
    from add_loop_correct[OF bw S1 sm1 sm2 live2 lv bl refl co, of fadd rest1 rest2] obtain fin where
      lp: "add_loop fadd S (ds1 @ rest1) (ds2 @ rest2) ?stack
              (S * (source_offset ds1 (merged_bins ds1 ds2 (last_cell ns)) + 1))
              (S * (source_offset ds2 (merged_bins ds1 ds2 (last_cell ns)) + 1))
              (S * (cell_offset ns (last_cell ns) + 1)) ?buf (m_aTensorScores rhs) = Some fin"
        "\<forall>ms'. valid_cell ns ms' \<longrightarrow> cell_offset ns ms' \<le> cell_offset ns (last_cell ns) \<longrightarrow>
              (\<forall>k<S. fin ! (S * cell_offset ns ms' + k) =
                 fadd (?buf ! (S * source_offset ds1 (merged_bins ds1 ds2 ms') + k))
                      (m_aTensorScores rhs ! (S * source_offset ds2 (merged_bins ds1 ds2 ms') + k)))"
      unfolding ns_def[symmetric] by blast
    have lp': "add_loop fadd S (ds1 @ rest1) (ds2 @ rest2) ?stack
                  (S * ?c1) (S * ?c2) (S * prod_list ns) ?buf (m_aTensorScores rhs) = Some fin"
      using lp(1) unfolding lo so .
    let ?t1 = "t1\<lparr>m_aTensorScores := fin\<rparr>"
    have d1: "m_aDimensions ?t1 = [] @ ds1 @ rest1" using t1d by simp
    have lms: "length (last_cell ns) = length ds1"
      unfolding ns_def last_cell_def using merged_counts_length[OF bw] by simp
    from add_splits_correct[OF bw ne d1 _ lms, of 0 mem1 rest2] obtain error2 t2 mem2 where
      sp: "add_splits mem1 ?t1 (ds2 @ rest2) ?stack 0 (length ds1) = Some (error2, t2, mem2)"
          "error2 = Error_None \<or> error2 = Error_OutOfMemory"
          "error2 = Error_None \<longrightarrow>
            (\<exists>ds'. t2 = ?t1\<lparr>m_aDimensions := [] @ ds' @ rest1\<rparr> \<and> merged_results ds' ds1 ds2)"
      by auto
    have run: "Add fadd mem t rhs = Some (error2, t2, mem2)"
      using start ok lp' sp(1) l1 by simp
    show ?thesis
    proof (cases "error2 = Error_None")
      case False
      then show ?thesis using run sp(2) by simp
    next
      case True
      then obtain ds' where ds': "t2 = ?t1\<lparr>m_aDimensions := ds' @ rest1\<rparr>"
        "merged_results ds' ds1 ds2" using sp(3) by auto
      have t2S: "m_cScores t2 = S" using ds'(1) t1S by simp
      have t2D: "m_cDimensions t2 = D" using ds'(1) t1D by simp
      have ld': "length ds' = D" using ds'(2) l1 l2 by (simp add: list_all2_lengthD)
      have t2l: "live_dimensions t2 = ds'" unfolding live_dimensions_def t2D using ds'(1) ld' by simp
      have t2s: "m_aTensorScores t2 = fin" using ds'(1) by simp
      have same: "sample t2 bins k = fadd (sample t bins k) (sample rhs bins k)"
        if lb: "length bins = D" and k: "k < S" for bins k
      proof -
        have lb': "length bins = length ds1" using lb l1 by simp
        note mc = merged_cell_facts[OF bw lb']
        let ?ms = "merged_cell ds1 ds2 bins"
        have v: "valid_cell ns ?ms" using mc(1) unfolding ns_def .
        have "cell_offset ns ?ms < prod_list ns" using v by (rule cell_offset_less)
        then have ol: "cell_offset ns ?ms \<le> cell_offset ns (last_cell ns)" using lo by simp
        have o': "source_offset ds' bins = cell_offset ns ?ms"
          using mc(4)[OF ds'(2)] unfolding source_offset_def ns_def by simp
        have o1: "source_offset ds1 (merged_bins ds1 ds2 ?ms) = source_offset ds1 bins"
          unfolding source_offset_def mc(2) ..
        have o2: "source_offset ds2 (merged_bins ds1 ds2 ?ms) = source_offset ds2 bins"
          unfolding source_offset_def mc(3) ..
        have sl: "source_offset ds1 bins + 1 \<le> ?c1" using source_offset_bound[OF wd1, of bins] by simp
        have "S * source_offset ds1 bins + k < S * source_offset ds1 bins + S" using k by simp
        also have "\<dots> = S * (source_offset ds1 bins + 1)" by simp
        also have "\<dots> \<le> S * ?c1" using sl by (rule mult_le_mono2)
        finally have i1: "S * source_offset ds1 bins + k < S * ?c1" .
        have i2: "S * source_offset ds1 bins + k < S * prod_list ns" using i1 le1 by (rule less_le_trans)
        have i3: "S * source_offset ds1 bins + k < length (m_aTensorScores t)"
          using i1 live1 by (rule less_le_trans)
        have "sample t2 bins k = fin ! (S * source_offset ds' bins + k)"
          unfolding sample_def t2l t2s t2S ..
        also have "\<dots> = fin ! (S * cell_offset ns ?ms + k)" unfolding o' ..
        also have "\<dots> = fadd (?buf ! (S * source_offset ds1 (merged_bins ds1 ds2 ?ms) + k))
                      (m_aTensorScores rhs ! (S * source_offset ds2 (merged_bins ds1 ds2 ?ms) + k))"
          using lp(2) v ol k by blast
        also have "\<dots> = fadd (?buf ! (S * source_offset ds1 bins + k))
                      (m_aTensorScores rhs ! (S * source_offset ds2 bins + k))"
          unfolding o1 o2 ..
        also have "?buf ! (S * source_offset ds1 bins + k) = m_aTensorScores t ! (S * source_offset ds1 bins + k)"
          using keep i2 i3 by simp
        also have "fadd (m_aTensorScores t ! (S * source_offset ds1 bins + k))
                      (m_aTensorScores rhs ! (S * source_offset ds2 bins + k)) =
                   fadd (sample t bins k) (sample rhs bins k)"
          unfolding sample_def S_def[symmetric] rS ds1_def ds2_def ..
        finally show ?thesis .
      qed
      have "merged_results (live_dimensions t2) (live_dimensions t) (live_dimensions rhs)"
        unfolding t2l using ds'(2) ds1_def ds2_def by simp
      moreover have "\<forall>bins k. length bins = m_cDimensions t \<longrightarrow> k < m_cScores t \<longrightarrow>
              sample t2 bins k = fadd (sample t bins k) (sample rhs bins k)"
        using same unfolding D_def S_def by blast
      moreover have "Add fadd mem t rhs = Some (Error_None, t2, mem2)" using run True by simp
      moreover have "m_cScores t2 = m_cScores t" "m_cDimensions t2 = m_cDimensions t"
        using t2S t2D S_def D_def by simp_all
      ultimately show ?thesis by blast
    qed
  qed
qed

text \<open>
  Claim C1. For two consistent tensors with the same count of dimensions, at least one,
  and the same count of scores per cell, whose merged grid has a score count that is a
  \<^verbatim>\<open>size_t\<close>, \<^verbatim>\<open>Add\<close> returns, with \<^verbatim>\<open>Error_None\<close> or \<^verbatim>\<open>Error_OutOfMemory\<close>. On
  \<^verbatim>\<open>Error_None\<close> the splits of every dimension of the result are the sorted union of the
  splits of the two tensors, duplicates merged, its slice count is at most the sum of the
  two slice counts less one, and at every bin coordinate every score of the result is the
  sum \<open>fadd\<close> of the scores of the two tensors there. The sum of two scores is a parameter;
  for the float type it is \<open>fl_add rnd\<close>.
\<close>

theorem add_merges:
  "wf_tensor t \<and> wf_tensor rhs \<and> add_fits t rhs \<longrightarrow>
     (\<exists>error t' mem'. Add fadd mem t rhs = Some (error, t', mem') \<and>
        (error = Error_None \<or> error = Error_OutOfMemory) \<and>
        (error = Error_None \<longrightarrow>
           m_cScores t' = m_cScores t \<and> m_cDimensions t' = m_cDimensions t \<and>
           list_all2 (\<lambda>d p. merged_result d (fst p) (snd p)) (live_dimensions t')
             (zip (live_dimensions t) (live_dimensions rhs)) \<and>
           (\<forall>bins k. length bins = m_cDimensions t \<longrightarrow> k < m_cScores t \<longrightarrow>
              sample t' bins k = fadd (sample t bins k) (sample rhs bins k))))"
  using Add_correct by blast

theorem add_merges_witness:
  "wf_tensor sparse_tensor \<and> wf_tensor other_tensor \<and> add_fits sparse_tensor other_tensor \<and>
   Add (fl_add id) example_allocator sparse_tensor other_tensor =
     Some (Error_None,
           sparse_tensor\<lparr>m_cTensorScoreCapacity := 24,
             m_aTensorScores := [Finite 11, Finite 12, Finite 22],
             m_aDimensions := [\<lparr> m_cSlices = 3, m_cSliceCapacity = 4, m_aSplits = [1, 2, 0] \<rparr>]\<rparr>,
           example_allocator\<lparr>alloc_requests := []\<rparr>) \<and>
   merged_result \<lparr> m_cSlices = 3, m_cSliceCapacity = 4, m_aSplits = [1, 2, 0] \<rparr>
     \<lparr> m_cSlices = 2, m_cSliceCapacity = 2, m_aSplits = [1] \<rparr>
     \<lparr> m_cSlices = 2, m_cSliceCapacity = 2, m_aSplits = [2] \<rparr> \<and>
   sample (sparse_tensor\<lparr>m_cTensorScoreCapacity := 24,
             m_aTensorScores := [Finite 11, Finite 12, Finite 22],
             m_aDimensions := [\<lparr> m_cSlices = 3, m_cSliceCapacity = 4, m_aSplits = [1, 2, 0] \<rparr>]\<rparr>) [1] 0 =
     fl_add id (sample sparse_tensor [1] 0) (sample other_tensor [1] 0) \<and>
   sample sparse_tensor [1] 0 = Finite 2 \<and> sample other_tensor [1] 0 = Finite 10"
proof -
  let ?m0 = "example_allocator\<lparr>alloc_requests := []\<rparr>"
  let ?add = "sparse_tensor\<lparr>m_cTensorScoreCapacity := 24,
        m_aTensorScores := [Finite 11, Finite 12, Finite 22],
        m_aDimensions := [\<lparr> m_cSlices = 3, m_cSliceCapacity = 4, m_aSplits = [1, 2, 0] \<rparr>]\<rparr>"
  have h: "wf_tensor sparse_tensor" "wf_tensor other_tensor" "add_fits sparse_tensor other_tensor"
    by (simp_all add: wf_tensor_def add_fits_def wf_dimension_def live_dimensions_def
          live_splits_def live_score_count_def merged_dimension_def merged_splits_def
          size_max_eq sizeof_FloatScore_def example_defs)
  have add: "Add (fl_add id) example_allocator sparse_tensor other_tensor = Some (Error_None, ?add, ?m0)"
    by (simp add: Add_def add_count.simps add_loop.simps add_copy.simps add_merge.simps
          fl_of_real_id example_defs alloc_defs)
  have v: "length [1::nat] = m_cDimensions sparse_tensor" "(0::nat) < m_cScores sparse_tensor"
    by (simp_all add: example_defs)
  have s: "sample sparse_tensor [1] 0 = Finite 2" "sample other_tensor [1] 0 = Finite 10"
    by (simp_all add: sample_def source_offset_def live_dimensions_def live_splits_def slice_of_def
          example_defs)
  from add_merges [of sparse_tensor other_tensor "fl_add id" example_allocator] h add v
  have r: "list_all2 (\<lambda>d p. merged_result d (fst p) (snd p)) (live_dimensions ?add)
             (zip (live_dimensions sparse_tensor) (live_dimensions other_tensor))"
    "sample ?add [1] 0 = fl_add id (sample sparse_tensor [1] 0) (sample other_tensor [1] 0)"
    by simp_all
  have "merged_result \<lparr> m_cSlices = 3, m_cSliceCapacity = 4, m_aSplits = [1, 2, 0] \<rparr>
     \<lparr> m_cSlices = 2, m_cSliceCapacity = 2, m_aSplits = [1] \<rparr>
     \<lparr> m_cSlices = 2, m_cSliceCapacity = 2, m_aSplits = [2] \<rparr>"
    using r(1) by (simp add: live_dimensions_def example_defs)
  with h add r(2) s show ?thesis by (simp only: simp_thms)
qed

end
